(* ===== verification/Kernel_Prelude.thy ===== *)
theory Kernel_Prelude
  imports Main "HOL-Library.Word" "HOL-Library.Monad_Syntax"
begin

text \<open>
  What the component theories share: the machine types of the AM335x (a 32-bit ARM), the error
  numbers, memory as byte lists with checked reads and writes, and the generic facts on words,
  lists and options.  Reads and writes of memory return an option; the value \<open>None\<close> stands for
  an access outside the object, which C leaves undefined.  The collections \<open>mem_simps\<close> and
  \<open>word_nat_simps\<close> carry the component proofs.
\<close>

unbundle bit_operations_syntax

section \<open>Machine types and results\<close>

type_synonym u8 = "8 word"
type_synonym u16 = "16 word"
type_synonym u32 = "32 word"
type_synonym u64 = "64 word"
type_synonym byte = "8 word"

text \<open>Error numbers: the C code returns them negated; \<open>Inr\<close> is the success value.\<close>

datatype errno = EPERM | ENOENT | ENOMEM | EFAULT | EBUSY | ENODEV | EINVAL | ERANGE

type_synonym 'a result = "errno + 'a"

named_theorems mem_simps
named_theorems word_nat_simps

section \<open>Memory objects\<close>

definition mem_read :: "'a list \<Rightarrow> nat \<Rightarrow> nat \<Rightarrow> 'a list option" where
  "mem_read m off n = (if off + n \<le> length m then Some (take n (drop off m)) else None)"

definition mem_write :: "'a list \<Rightarrow> nat \<Rightarrow> 'a list \<Rightarrow> 'a list option" where
  "mem_write m off bs =
     (if off + length bs \<le> length m
      then Some (take off m @ bs @ drop (off + length bs) m) else None)"

text \<open>\<open>memcpy (dst + doff) (src + soff) n\<close>: the new contents of the destination object.\<close>

definition memcpy :: "'a list \<Rightarrow> nat \<Rightarrow> 'a list \<Rightarrow> nat \<Rightarrow> nat \<Rightarrow> 'a list option" where
  "memcpy dst doff src soff n =
     do { bs \<leftarrow> mem_read src soff n; mem_write dst doff bs }"

text \<open>A single cell: \<open>m[i]\<close> and \<open>m[i] = v\<close>.\<close>

definition mem_get :: "'a list \<Rightarrow> nat \<Rightarrow> 'a option" where
  "mem_get m i = (if i < length m then Some (m ! i) else None)"

definition mem_set :: "'a list \<Rightarrow> nat \<Rightarrow> 'a \<Rightarrow> 'a list option" where
  "mem_set m i v = (if i < length m then Some (m[i := v]) else None)"

lemma mem_read_Some [mem_simps]:
  "mem_read m off n = Some bs \<longleftrightarrow> off + n \<le> length m \<and> bs = take n (drop off m)"
  by (auto simp: mem_read_def)

lemma mem_write_Some [mem_simps]:
  "mem_write m off bs = Some m' \<longleftrightarrow>
     off + length bs \<le> length m \<and> m' = take off m @ bs @ drop (off + length bs) m"
  by (auto simp: mem_write_def)

lemma mem_get_Some [mem_simps]: "mem_get m i = Some v \<longleftrightarrow> i < length m \<and> v = m ! i"
  by (auto simp: mem_get_def)

lemma mem_set_Some [mem_simps]: "mem_set m i v = Some m' \<longleftrightarrow> i < length m \<and> m' = m[i := v]"
  by (auto simp: mem_set_def)

lemma mem_write_ok:
  assumes "off + length bs \<le> length m"
  obtains m' where "mem_write m off bs = Some m'" "length m' = length m"
  using assms by (auto simp: mem_write_def)

lemma mem_write_length: "mem_write m off bs = Some m' \<Longrightarrow> length m' = length m"
  by (auto simp: mem_write_Some)

lemma memcpy_length: "memcpy dst doff src soff n = Some d \<Longrightarrow> length d = length dst"
  by (auto simp: memcpy_def bind_eq_Some_conv mem_simps)

section \<open>Words\<close>

lemma unat_add_nowrap [word_nat_simps]:
  fixes a b :: "'a::len word"
  assumes "unat a + unat b < 2 ^ LENGTH('a)"
  shows "unat (a + b) = unat a + unat b"
  using assms by (simp add: unat_word_ariths)

lemma unat_mult_nowrap [word_nat_simps]:
  fixes a b :: "'a::len word"
  assumes "unat a * unat b < 2 ^ LENGTH('a)"
  shows "unat (a * b) = unat a * unat b"
  using assms by (simp add: unat_word_ariths)

lemma unat_sub_nowrap [word_nat_simps]:
  fixes a b :: "'a::len word"
  assumes "unat b \<le> unat a"
  shows "unat (a - b) = unat a - unat b"
  using assms by (simp add: unat_sub_if')

lemma unat_and_mask [word_nat_simps]:
  fixes x :: "'a::len word"
  shows "unat (x AND mask k) = unat x mod 2 ^ k"
proof -
  have "unat (x AND mask k) = unat (take_bit k x)"
    by (simp add: take_bit_eq_mask)
  also have "\<dots> = take_bit k (unat x)"
    by (simp add: unsigned_take_bit_eq)
  finally show ?thesis by (simp add: take_bit_eq_mod)
qed

lemma unat_mask_lt:
  assumes "k \<le> LENGTH('a)"
  shows "unat (mask k :: 'a::len word) = 2 ^ k - 1"
proof -
  have "unat (mask k :: 'a word) = unat (take_bit k (- 1 :: 'a word))"
    by (simp add: take_bit_minus_one_eq_mask)
  also have "\<dots> = take_bit k (mask LENGTH('a))"
    by (simp only: unsigned_take_bit_eq unsigned_minus_1_eq_mask)
  also have "\<dots> = mask k" using assms by simp
  finally show ?thesis by (simp add: mask_eq_exp_minus_1)
qed

lemma unat_pow2:
  assumes "k < LENGTH('a)"
  shows "unat (2 ^ k :: 'a::len word) = 2 ^ k"
proof -
  have "unat (2 ^ k :: 'a word) = unat (of_nat (2 ^ k) :: 'a word)" by simp
  also have "\<dots> = 2 ^ k mod 2 ^ LENGTH('a)" by (simp only: unat_of_nat)
  finally show ?thesis using assms by (simp add: mod_less)
qed

lemma ucast_of_nat_unat: "(ucast (n :: 'a::len word) :: 'b::len word) = of_nat (unat n)"
  by (simp add: word_unat_eq_iff unsigned_ucast_eq unsigned_of_nat)

lemma mult_le_lt_trans: "a \<le> b \<Longrightarrow> b * c < n \<Longrightarrow> a * c < n" for a b c n :: nat
  by (rule le_less_trans [OF mult_le_mono1])

lemma unat_min: "unat (min a b :: 'a::len word) = min (unat a) (unat b)"
  by (simp add: min_def word_le_nat_alt)

lemma sint_eq_unat: "unat w < 2 ^ 31 \<Longrightarrow> sint (w :: u32) = int (unat w)"
proof -
  assume "unat w < 2 ^ 31"
  then have "uint w < 2 ^ 31" by (simp add: unat_eq_nat_uint nat_less_iff del: nat_uint_eq)
  moreover have "sint w = signed_take_bit 31 (uint w)" by (simp add: sint_uint)
  ultimately have "sint w = uint w" by (simp add: signed_take_bit_int_eq_self_iff order_trans [of _ 0])
  then show ?thesis by simp
qed

lemma unat_less_2p32: "unat (x :: u32) < 4294967296"
  using unsigned_less [of x, where ?'a = nat] by simp

lemma unat_byte_lt: "unat (b :: byte) < 256"
  using unsigned_less [of b, where ?'a = nat] by simp

section \<open>Rings\<close>

text \<open>
  A ring buffer \<open>d\<close> read from position \<open>p\<close> is \<open>rotate p d\<close>.  A transfer of \<open>m\<close> bytes at
  position \<open>p\<close> is done in two pieces, up to the end of the buffer and then from its start.
\<close>

lemma ring_read:
  assumes p: "p < length d" and m: "m \<le> length d"
  shows "take (min m (length d - p)) (drop p d) @ take (m - min m (length d - p)) d
    = take m (rotate p d)"
  using assms by (auto simp: rotate_drop_take min_def)

lemma take_rotate: "c + m \<le> length xs \<Longrightarrow> take m (rotate c xs) = take m (drop c xs)"
  using rotate_drop_take [of c xs] by (cases "c = length xs") simp_all

lemma ring_write:
  assumes p: "p < length d" and m: "length bs \<le> length d"
    and l: "l = min (length bs) (length d - p)"
    and d1: "mem_write d p (take l bs) = Some d1"
    and d2: "mem_write d1 0 (drop l bs) = Some d2"
  shows "rotate p d2 = bs @ drop (length bs) (rotate p d)" and "length d2 = length d"
proof -
  have len: "length d1 = length d" "length d2 = length d"
    using mem_write_length [OF d1] mem_write_length [OF d2] by simp_all
  have d1': "d1 = take p d @ take l bs @ drop (p + l) d"
    using d1 l by (auto simp: mem_simps min_def)
  have d2': "d2 = drop l bs @ drop (length bs - l) d1"
    using d2 l by (auto simp: mem_simps)
  have rd: "rotate p d2 = drop p d2 @ take p d2" "rotate p d = drop p d @ take p d"
    using p len by (simp_all add: rotate_drop_take)
  show "rotate p d2 = bs @ drop (length bs) (rotate p d)"
  proof (cases "length bs \<le> length d - p")
    case True
    then have "l = length bs" using l by simp
    then show ?thesis
      using rd d1' d2' p True by (auto simp: add.commute)
  next
    case False
    then have l': "l = length d - p" using l by simp
    then have "d1 = take p d @ take l bs" using d1' p by simp
    then have "d2 = drop l bs @ drop (length bs - l) (take p d) @ take l bs"
      using d2' False l' p m by simp
    moreover have "length (drop l bs @ drop (length bs - l) (take p d)) = p"
      using False l' p m by auto
    ultimately have "drop p d2 = take l bs"
      "take p d2 = drop l bs @ drop (length bs - l) (take p d)"
      by (metis append_assoc append_eq_conv_conj)+
    then show ?thesis
      using rd False l' p by simp
  qed
  show "length d2 = length d" by (rule len)
qed

text \<open>
  The same write seen from position \<open>q\<close>: with the write at distance \<open>c\<close> from \<open>q\<close> it replaces
  the bytes \<open>c, \<dots>, c + length bs - 1\<close> of the view \<open>rotate q d\<close> and nothing else.
\<close>

lemma ring_view_write:
  assumes q: "q < length d" and c: "c + length bs \<le> length d"
    and p: "p = (q + c) mod length d"
    and len: "length d2 = length d"
    and w: "rotate p d2 = bs @ drop (length bs) (rotate p d)"
  shows "rotate q d2 = take c (rotate q d) @ bs @ drop (c + length bs) (rotate q d)"
proof -
  let ?N = "length d" and ?v = "rotate q d"
  have N: "0 < ?N" using q by linarith
  have pq: "(?N - c + p) mod ?N = q"
  proof -
    have "(?N - c + p) mod ?N = (?N - c + (q + c)) mod ?N"
      by (simp add: p mod_simps)
    also have "?N - c + (q + c) = q + ?N" using c by simp
    finally show ?thesis using q by simp
  qed
  have pd: "rotate p d = drop c ?v @ take c ?v"
  proof -
    have "rotate p d = rotate c ?v"
      using rotate_conv_mod [of "q + c" d] by (simp add: p rotate_rotate add.commute)
    then show ?thesis using rotate_drop_take [of c ?v] c by (cases "c = ?N") simp_all
  qed
  have "rotate q d2 = rotate (?N - c) (rotate p d2)"
    using pq rotate_conv_mod [of "?N - c + p" d2] len by (simp add: rotate_rotate)
  also have "\<dots> = drop (?N - c) (rotate p d2) @ take (?N - c) (rotate p d2)"
    using rotate_drop_take [of "?N - c" "rotate p d2"] N len by (cases "c = 0") simp_all
  also have "drop (?N - c) (rotate p d2) = take c ?v"
    using w c pd by simp
  also have "take (?N - c) (rotate p d2) = bs @ drop (c + length bs) ?v"
    using w c pd by (simp add: add.commute)
  finally show ?thesis .
qed

end
