(* ===== verification/Fifo_Interface.thy ===== *)
theory Fifo_Interface
  imports Kernel_Prelude
begin

text \<open>
  The contract of a FIFO whose operations may fault (\<open>None\<close>): a well-formed \<open>put\<close> never faults
  and appends what it accepted, a \<open>get\<close> never faults and removes what it delivers from the
  front.  The client theorems are about any sequence of the two operations: order, and delivery.
\<close>

datatype ('i, 'o) fifo_op = Put 'i | Get 'o

text \<open>Run a sequence of operations: all that was accepted, all that was delivered, the state.\<close>

fun fifo_run ::
  "('q \<Rightarrow> 'i \<Rightarrow> ('a list \<times> 'q) option) \<Rightarrow> ('q \<Rightarrow> 'o \<Rightarrow> ('a list \<times> 'q) option) \<Rightarrow>
    'q \<Rightarrow> ('i, 'o) fifo_op list \<Rightarrow> ('a list \<times> 'a list \<times> 'q) option" where
  "fifo_run pt gt q [] = Some ([], [], q)"
| "fifo_run pt gt q (Put i # ops) =
     do {
       (xs, q) \<leftarrow> pt q i;
       (ins, outs, q) \<leftarrow> fifo_run pt gt q ops;
       Some (xs @ ins, outs, q)
     }"
| "fifo_run pt gt q (Get n # ops) =
     do {
       (xs, q) \<leftarrow> gt q n;
       (ins, outs, q) \<leftarrow> fifo_run pt gt q ops;
       Some (ins, xs @ outs, q)
     }"

fun puts_ok :: "('i \<Rightarrow> bool) \<Rightarrow> ('i, 'o) fifo_op list \<Rightarrow> bool" where
  "puts_ok P [] = True"
| "puts_ok P (Put i # ops) = (P i \<and> puts_ok P ops)"
| "puts_ok P (Get n # ops) = puts_ok P ops"

locale fifo =
  fixes invar :: "'q \<Rightarrow> bool" and contents :: "'q \<Rightarrow> 'a list" and wf_put :: "'i \<Rightarrow> bool"
    and pt :: "'q \<Rightarrow> 'i \<Rightarrow> ('a list \<times> 'q) option"
    and gt :: "'q \<Rightarrow> 'o \<Rightarrow> ('a list \<times> 'q) option"
  assumes put_law: "invar q \<Longrightarrow> wf_put i \<Longrightarrow>
      \<exists>xs q'. pt q i = Some (xs, q') \<and> invar q' \<and> contents q' = contents q @ xs"
    and get_law: "invar q \<Longrightarrow>
      \<exists>xs q'. gt q n = Some (xs, q') \<and> invar q' \<and> contents q = xs @ contents q'"
begin

lemma run_fifo:
  assumes "invar q" and "puts_ok wf_put ops"
  shows "\<exists>ins outs q'. fifo_run pt gt q ops = Some (ins, outs, q') \<and> invar q' \<and>
    contents q @ ins = outs @ contents q'"
  using assms
proof (induction ops arbitrary: q)
  case Nil
  then show ?case by simp
next
  case (Cons op ops)
  show ?case
  proof (cases op)
    case (Put i)
    with Cons.prems obtain xs q1 where q1: "pt q i = Some (xs, q1)" "invar q1"
      "contents q1 = contents q @ xs"
      using put_law [of q i] by auto
    obtain ins outs q' where "fifo_run pt gt q1 ops = Some (ins, outs, q')" "invar q'"
      "contents q1 @ ins = outs @ contents q'"
      using Cons.IH [of q1] Cons.prems q1 Put by auto
    with q1 Put show ?thesis by auto
  next
    case (Get n)
    with Cons.prems obtain xs q1 where q1: "gt q n = Some (xs, q1)" "invar q1"
      "contents q = xs @ contents q1"
      using get_law [of q n] by blast
    obtain ins outs q' where "fifo_run pt gt q1 ops = Some (ins, outs, q')" "invar q'"
      "contents q1 @ ins = outs @ contents q'"
      using Cons.IH [of q1] Cons.prems q1 Get by auto
    with q1 Get show ?thesis by auto
  qed
qed

end

text \<open>
  Progress: a \<open>get\<close> delivers all it was asked for, or all there is.  Then what the FIFO holds is
  delivered as soon as the gets have asked for that much, whatever is put in between.
\<close>

fun asked :: "('o \<Rightarrow> nat) \<Rightarrow> ('i, 'o) fifo_op list \<Rightarrow> nat" where
  "asked amount [] = 0"
| "asked amount (Put i # ops) = asked amount ops"
| "asked amount (Get n # ops) = amount n + asked amount ops"

locale fifo_progress = fifo invar contents wf_put pt gt
  for invar :: "'q \<Rightarrow> bool" and contents :: "'q \<Rightarrow> 'a list" and wf_put :: "'i \<Rightarrow> bool"
    and pt :: "'q \<Rightarrow> 'i \<Rightarrow> ('a list \<times> 'q) option"
    and gt :: "'q \<Rightarrow> 'o \<Rightarrow> ('a list \<times> 'q) option" +
  fixes amount :: "'o \<Rightarrow> nat"
  assumes get_amount: "invar q \<Longrightarrow> gt q n = Some (xs, q') \<Longrightarrow> length xs = min (amount n) (length (contents q))"
begin

lemma run_progress:
  assumes "invar q" and "puts_ok wf_put ops" and "fifo_run pt gt q ops = Some (ins, outs, q')"
  shows "min (asked amount ops) (length (contents q)) \<le> length outs"
  using assms
proof (induction ops arbitrary: q ins outs)
  case (Cons op ops)
  show ?case
  proof (cases op)
    case (Put i)
    with Cons.prems obtain xs q1 where q1: "pt q i = Some (xs, q1)" "invar q1" "contents q1 = contents q @ xs"
      using put_law [of q i] by auto
    with Cons.prems Put obtain ins1 where "fifo_run pt gt q1 ops = Some (ins1, outs, q')"
      by (auto simp: bind_eq_Some_conv)
    with Cons.IH [OF q1(2)] Cons.prems(2) Put q1(3) show ?thesis by fastforce
  next
    case (Get n)
    with Cons.prems obtain xs q1 where q1: "gt q n = Some (xs, q1)" "invar q1" "contents q = xs @ contents q1"
      using get_law [of q n] by blast
    with Cons.prems Get obtain outs1 where o: "fifo_run pt gt q1 ops = Some (ins, outs1, q')" "outs = xs @ outs1"
      by (auto simp: bind_eq_Some_conv)
    from Cons.IH [OF q1(2) _ o(1)] Cons.prems(2) Get get_amount [OF Cons.prems(1) q1(1)] q1(3) o(2)
    show ?thesis by auto
  qed
qed simp

lemma run_delivers:
  assumes "invar q" and "puts_ok wf_put ops" and "length (contents q) \<le> asked amount ops"
  shows "\<exists>ins rest q'. fifo_run pt gt q ops = Some (ins, contents q @ rest, q') \<and> invar q' \<and>
    ins = rest @ contents q'"
proof -
  obtain ins outs q' where r: "fifo_run pt gt q ops = Some (ins, outs, q')" "invar q'"
    "contents q @ ins = outs @ contents q'" using run_fifo [OF assms(1,2)] by blast
  have "length (contents q) \<le> length outs" using run_progress [OF assms(1,2) r(1)] assms(3) by simp
  then obtain rest where "outs = contents q @ rest" "ins = rest @ contents q'"
    using r(3) by (auto simp: append_eq_append_conv2)
  with r show ?thesis by blast
qed

end

end
