(* ===== verification/Kfifo.thy ===== *)
theory Kfifo
  imports Fifo_Interface
begin

text \<open>
  The kernel FIFO of \<^verbatim>\<open>kernel/kfifo.c\<close>: a ring buffer of \<open>mask + 1\<close> elements of \<open>esize\<close>
  bytes with free-running 32-bit indices.  The state is the record \<open>kfifo\<close> (\<^verbatim>\<open>struct __kfifo\<close>
  of \<^verbatim>\<open>include/linux/kfifo.h\<close>); the buffer is the byte list behind the data pointer, \<open>None\<close> for
  a NULL pointer.  A leading double underscore of a C name is written \<open>raw_\<close>.  An operation
  whose memory accesses leave the buffer returns \<open>None\<close>.
\<close>

section \<open>Powers of two\<close>

definition is_power_of_2 :: "u32 \<Rightarrow> bool" where
  "is_power_of_2 n \<longleftrightarrow> n \<noteq> 0 \<and> n AND (n - 1) = 0"

text \<open>One of the five halving steps of \<open>constant_fls\<close>.\<close>

definition fls_stage :: "nat \<Rightarrow> u32 \<Rightarrow> u32 \<times> nat \<Rightarrow> u32 \<times> nat" where
  "fls_stage k m = (\<lambda>(x, r). if x AND m = 0 then (push_bit k x, r - k) else (x, r))"

definition constant_fls :: "u32 \<Rightarrow> nat" where
  "constant_fls x =
     (if x = 0 then 0
      else snd (fls_stage 1 0x80000000 (fls_stage 2 0xc0000000 (fls_stage 4 0xf0000000
             (fls_stage 8 0xff000000 (fls_stage 16 0xffff0000 (x, 32)))))))"

text \<open>\<open>1UL << (fls_long(n) - 1)\<close>; for 0 the shift count is negative, which C leaves undefined.\<close>

definition rounddown_pow_of_two :: "u32 \<Rightarrow> u32 option" where
  "rounddown_pow_of_two n =
     (if constant_fls n = 0 then None else Some (push_bit (constant_fls n - 1) 1))"

section \<open>State\<close>

record kfifo =
  kf_in :: u32
  kf_out :: u32
  kf_mask :: u32
  kf_esize :: u32
  kf_data :: "byte list option"

abbreviation kf_buf :: "kfifo \<Rightarrow> byte list" where
  "kf_buf f \<equiv> (case kf_data f of None \<Rightarrow> [] | Some d \<Rightarrow> d)"

definition kfifo_unused :: "kfifo \<Rightarrow> u32" where
  "kfifo_unused f = (kf_mask f + 1) - (kf_in f - kf_out f)"

section \<open>Set-up\<close>

text \<open>\<open>kmalloc n\<close> is the allocator's answer: \<open>None\<close>, or a buffer.\<close>

definition raw_kfifo_alloc ::
  "(u32 \<Rightarrow> byte list option) \<Rightarrow> kfifo \<Rightarrow> u32 \<Rightarrow> u32 \<Rightarrow> (unit result \<times> kfifo) option" where
  "raw_kfifo_alloc kmalloc f sz esize =
     do {
       sz \<leftarrow> (if is_power_of_2 sz then Some sz else rounddown_pow_of_two sz);
       let f = f\<lparr>kf_in := 0, kf_out := 0, kf_esize := esize\<rparr>;
       if sz < 2 then Some (Inl EINVAL, f\<lparr>kf_data := None, kf_mask := 0\<rparr>)
       else (case kmalloc (sz * esize) of
               None \<Rightarrow> Some (Inl ENOMEM, f\<lparr>kf_data := None, kf_mask := 0\<rparr>)
             | Some d \<Rightarrow> Some (Inr (), f\<lparr>kf_data := Some d, kf_mask := sz - 1\<rparr>))
     }"

definition raw_kfifo_free :: "kfifo \<Rightarrow> kfifo" where
  "raw_kfifo_free f =
     f\<lparr>kf_in := 0, kf_out := 0, kf_esize := 0, kf_data := None, kf_mask := 0\<rparr>"

text \<open>Division by \<open>esize = 0\<close> traps: \<open>None\<close>.\<close>

definition raw_kfifo_init ::
  "kfifo \<Rightarrow> byte list \<Rightarrow> u32 \<Rightarrow> u32 \<Rightarrow> (unit result \<times> kfifo) option" where
  "raw_kfifo_init f buffer sz esize =
     (if esize = 0 then None else
      do {
        let sz = sz div esize;
        sz \<leftarrow> (if is_power_of_2 sz then Some sz else rounddown_pow_of_two sz);
        let f = f\<lparr>kf_in := 0, kf_out := 0, kf_esize := esize, kf_data := Some buffer\<rparr>;
        if sz < 2 then Some (Inl EINVAL, f\<lparr>kf_mask := 0\<rparr>)
        else Some (Inr (), f\<lparr>kf_mask := sz - 1\<rparr>)
      })"

section \<open>Copying in and out\<close>

text \<open>
  The scaling that opens every copy routine: offset, buffer size and length in bytes, and the
  length \<open>l\<close> of the first piece.
\<close>

definition kfifo_scale :: "kfifo \<Rightarrow> u32 \<Rightarrow> u32 \<Rightarrow> u32 \<times> u32 \<times> u32" where
  "kfifo_scale f len off =
     (let size = kf_mask f + 1;
          esize = kf_esize f;
          off = off AND kf_mask f;
          (off, size, len) =
            (if esize \<noteq> 1 then (off * esize, size * esize, len * esize) else (off, size, len));
          l = min len (size - off)
      in (off, len, l))"

definition kfifo_copy_in :: "kfifo \<Rightarrow> byte list \<Rightarrow> u32 \<Rightarrow> u32 \<Rightarrow> kfifo option" where
  "kfifo_copy_in f src len off =
     (let (off, len, l) = kfifo_scale f len off in
      do {
        d \<leftarrow> memcpy (kf_buf f) (unat off) src 0 (unat l);
        d \<leftarrow> memcpy d 0 src (unat l) (unat (len - l));
        Some (f\<lparr>kf_data := map_option (\<lambda>_. d) (kf_data f)\<rparr>)
      })"

definition raw_kfifo_in :: "kfifo \<Rightarrow> byte list \<Rightarrow> u32 \<Rightarrow> (u32 \<times> kfifo) option" where
  "raw_kfifo_in f buf len =
     (let l = kfifo_unused f;
          len = (if len > l then l else len)
      in do {
        f \<leftarrow> kfifo_copy_in f buf len (kf_in f);
        Some (len, f\<lparr>kf_in := kf_in f + len\<rparr>)
      })"

text \<open>The bytes that \<open>kfifo_copy_out\<close> stores at \<open>dst\<close>.\<close>

definition kfifo_copy_out :: "kfifo \<Rightarrow> u32 \<Rightarrow> u32 \<Rightarrow> byte list option" where
  "kfifo_copy_out f len off =
     (let (off, len, l) = kfifo_scale f len off in
      do {
        b1 \<leftarrow> mem_read (kf_buf f) (unat off) (unat l);
        b2 \<leftarrow> mem_read (kf_buf f) 0 (unat (len - l));
        Some (b1 @ b2)
      })"

definition raw_kfifo_out_peek :: "kfifo \<Rightarrow> u32 \<Rightarrow> (u32 \<times> byte list) option" where
  "raw_kfifo_out_peek f len =
     (let l = kf_in f - kf_out f;
          len = (if len > l then l else len)
      in do { b \<leftarrow> kfifo_copy_out f len (kf_out f); Some (len, b) })"

definition raw_kfifo_out :: "kfifo \<Rightarrow> u32 \<Rightarrow> (u32 \<times> byte list \<times> kfifo) option" where
  "raw_kfifo_out f len =
     do {
       (len, b) \<leftarrow> raw_kfifo_out_peek f len;
       Some (len, b, f\<lparr>kf_out := kf_out f + len\<rparr>)
     }"

section \<open>Transfers from and to user space\<close>

text \<open>
  \<open>copy_from_user\<close> and \<open>copy_to_user\<close> are assembler routines of the architecture and
  parameters of the model.  \<open>cfu src n\<close> gives the \<open>n\<close> bytes now at the destination and the
  number of bytes that could not be copied; \<open>ctu bs\<close> gives the number of bytes of \<open>bs\<close> that
  could not be stored.
\<close>

type_synonym cfu = "byte list \<Rightarrow> nat \<Rightarrow> byte list \<times> nat"
type_synonym ctu = "byte list \<Rightarrow> nat"

definition cfu_law :: "cfu \<Rightarrow> bool" where
  "cfu_law cfu \<longleftrightarrow> (\<forall>src n. length (fst (cfu src n)) = n \<and> snd (cfu src n) \<le> n \<and>
     take (n - snd (cfu src n)) (fst (cfu src n)) = take (n - snd (cfu src n)) src)"

definition div_round_up :: "u32 \<Rightarrow> u32 \<Rightarrow> u32" where
  "div_round_up n d = (n + d - 1) div d"

text \<open>Result: the elements that were not copied, the value stored through \<open>copied\<close>, the FIFO.\<close>

definition kfifo_copy_from_user ::
  "cfu \<Rightarrow> kfifo \<Rightarrow> byte list \<Rightarrow> u32 \<Rightarrow> u32 \<Rightarrow> (u32 \<times> u32 \<times> kfifo) option" where
  "kfifo_copy_from_user cfu f from len off =
     (let esize = kf_esize f; (off, len, l) = kfifo_scale f len off;
          (b1, r1) = cfu from (unat l); ret = of_nat r1
      in do {
        d \<leftarrow> mem_write (kf_buf f) (unat off) b1;
        (ret, d) \<leftarrow>
          (if ret \<noteq> 0 then Some (div_round_up (ret + len - l) esize, d)
           else (let (b2, r2) = cfu (drop (unat l) from) (unat (len - l)); ret = of_nat r2
                 in do {
                   d \<leftarrow> mem_write d 0 b2;
                   Some (if ret \<noteq> 0 then div_round_up ret esize else ret, d)
                 }));
        Some (ret, len - ret, f\<lparr>kf_data := map_option (\<lambda>_. d) (kf_data f)\<rparr>)
      })"

definition raw_kfifo_from_user ::
  "cfu \<Rightarrow> kfifo \<Rightarrow> byte list \<Rightarrow> u32 \<Rightarrow> (unit result \<times> u32 \<times> kfifo) option" where
  "raw_kfifo_from_user cfu f from len =
     (let esize = kf_esize f;
          len = (if esize \<noteq> 1 then len div esize else len);
          l = kfifo_unused f;
          len = (if len > l then l else len)
      in do {
        (ret, copied, f) \<leftarrow> kfifo_copy_from_user cfu f from len (kf_in f);
        let (len, err) = (if ret \<noteq> 0 then (len - ret, Inl EFAULT) else (len, Inr ()));
        Some (err, copied, f\<lparr>kf_in := kf_in f + len\<rparr>)
      })"

text \<open>Result: the elements that were not copied, the value stored through \<open>copied\<close>, and the
  bytes offered to the two \<open>copy_to_user\<close> calls (the second only when the first succeeded).\<close>

definition kfifo_copy_to_user ::
  "ctu \<Rightarrow> kfifo \<Rightarrow> u32 \<Rightarrow> u32 \<Rightarrow> (u32 \<times> u32 \<times> byte list) option" where
  "kfifo_copy_to_user ctu f len off =
     (let esize = kf_esize f; (off, len, l) = kfifo_scale f len off in
      do {
        b1 \<leftarrow> mem_read (kf_buf f) (unat off) (unat l);
        let ret = of_nat (ctu b1);
        (ret, bs) \<leftarrow>
          (if ret \<noteq> 0 then Some (div_round_up (ret + len - l) esize, b1)
           else do {
             b2 \<leftarrow> mem_read (kf_buf f) 0 (unat (len - l));
             let ret = of_nat (ctu b2);
             Some (if ret \<noteq> 0 then div_round_up ret esize else ret, b1 @ b2)
           });
        Some (ret, len - ret, bs)
      })"

definition raw_kfifo_to_user ::
  "ctu \<Rightarrow> kfifo \<Rightarrow> u32 \<Rightarrow> (unit result \<times> u32 \<times> byte list \<times> kfifo) option" where
  "raw_kfifo_to_user ctu f len =
     (let esize = kf_esize f;
          len = (if esize \<noteq> 1 then len div esize else len);
          l = kf_in f - kf_out f;
          len = (if len > l then l else len)
      in do {
        (ret, copied, bs) \<leftarrow> kfifo_copy_to_user ctu f len (kf_out f);
        let (len, err) = (if ret \<noteq> 0 then (len - ret, Inl EFAULT) else (len, Inr ()));
        Some (err, copied, bs, f\<lparr>kf_out := kf_out f + len\<rparr>)
      })"

section \<open>Record FIFOs\<close>

text \<open>\<open>(1 << (recsize << 3)) - 1\<close>, for the record sizes 1 and 2 that \<^verbatim>\<open>kfifo.h\<close> allows.\<close>

definition raw_kfifo_max_r :: "u32 \<Rightarrow> u32 \<Rightarrow> u32" where
  "raw_kfifo_max_r len recsize =
     (let mx = push_bit (unat (push_bit 3 recsize)) 1 - 1 in if len > mx then mx else len)"

definition raw_kfifo_peek_n :: "kfifo \<Rightarrow> u32 \<Rightarrow> u32 option" where
  "raw_kfifo_peek_n f recsize =
     do {
       b \<leftarrow> mem_get (kf_buf f) (unat (kf_out f AND kf_mask f));
       let l = ucast b;
       if recsize - 1 \<noteq> 0
       then do {
         b \<leftarrow> mem_get (kf_buf f) (unat ((kf_out f + 1) AND kf_mask f));
         Some (l OR push_bit 8 (ucast b))
       }
       else Some l
     }"

definition raw_kfifo_poke_n :: "kfifo \<Rightarrow> u32 \<Rightarrow> u32 \<Rightarrow> kfifo option" where
  "raw_kfifo_poke_n f n recsize =
     do {
       d \<leftarrow> mem_set (kf_buf f) (unat (kf_in f AND kf_mask f)) (ucast n);
       d \<leftarrow> (if recsize > 1
            then mem_set d (unat ((kf_in f + 1) AND kf_mask f)) (ucast (drop_bit 8 n))
            else Some d);
       Some (f\<lparr>kf_data := map_option (\<lambda>_. d) (kf_data f)\<rparr>)
     }"

definition raw_kfifo_len_r :: "kfifo \<Rightarrow> u32 \<Rightarrow> u32 option" where
  "raw_kfifo_len_r f recsize = raw_kfifo_peek_n f recsize"

definition raw_kfifo_in_r :: "kfifo \<Rightarrow> byte list \<Rightarrow> u32 \<Rightarrow> u32 \<Rightarrow> (u32 \<times> kfifo) option" where
  "raw_kfifo_in_r f buf len recsize =
     (if len + recsize > kfifo_unused f then Some (0, f)
      else do {
        f \<leftarrow> raw_kfifo_poke_n f len recsize;
        f \<leftarrow> kfifo_copy_in f buf len (kf_in f + recsize);
        Some (len, f\<lparr>kf_in := kf_in f + (len + recsize)\<rparr>)
      })"

text \<open>Result: the length copied, the record's own length \<open>n\<close>, the bytes.\<close>

definition kfifo_out_copy_r :: "kfifo \<Rightarrow> u32 \<Rightarrow> u32 \<Rightarrow> (u32 \<times> u32 \<times> byte list) option" where
  "kfifo_out_copy_r f len recsize =
     do {
       n \<leftarrow> raw_kfifo_peek_n f recsize;
       let len = (if len > n then n else len);
       b \<leftarrow> kfifo_copy_out f len (kf_out f + recsize);
       Some (len, n, b)
     }"

definition raw_kfifo_out_peek_r :: "kfifo \<Rightarrow> u32 \<Rightarrow> u32 \<Rightarrow> (u32 \<times> byte list) option" where
  "raw_kfifo_out_peek_r f len recsize =
     (if kf_in f = kf_out f then Some (0, [])
      else do { (len, n, b) \<leftarrow> kfifo_out_copy_r f len recsize; Some (len, b) })"

definition raw_kfifo_out_r :: "kfifo \<Rightarrow> u32 \<Rightarrow> u32 \<Rightarrow> (u32 \<times> byte list \<times> kfifo) option" where
  "raw_kfifo_out_r f len recsize =
     (if kf_in f = kf_out f then Some (0, [], f)
      else do {
        (len, n, b) \<leftarrow> kfifo_out_copy_r f len recsize;
        Some (len, b, f\<lparr>kf_out := kf_out f + (n + recsize)\<rparr>)
      })"

definition raw_kfifo_skip_r :: "kfifo \<Rightarrow> u32 \<Rightarrow> kfifo option" where
  "raw_kfifo_skip_r f recsize =
     do {
       n \<leftarrow> raw_kfifo_peek_n f recsize;
       Some (f\<lparr>kf_out := kf_out f + (n + recsize)\<rparr>)
     }"

definition raw_kfifo_from_user_r ::
  "cfu \<Rightarrow> kfifo \<Rightarrow> byte list \<Rightarrow> u32 \<Rightarrow> u32 \<Rightarrow> (unit result \<times> u32 \<times> kfifo) option" where
  "raw_kfifo_from_user_r cfu f from len recsize =
     (let len = raw_kfifo_max_r len recsize in
      if len + recsize > kfifo_unused f then Some (Inr (), 0, f)
      else do {
        f \<leftarrow> raw_kfifo_poke_n f len recsize;
        (ret, copied, f) \<leftarrow> kfifo_copy_from_user cfu f from len (kf_in f + recsize);
        if ret \<noteq> 0 then Some (Inl EFAULT, 0, f)
        else Some (Inr (), copied, f\<lparr>kf_in := kf_in f + (len + recsize)\<rparr>)
      })"

definition raw_kfifo_to_user_r ::
  "ctu \<Rightarrow> kfifo \<Rightarrow> u32 \<Rightarrow> u32 \<Rightarrow> (unit result \<times> u32 \<times> byte list \<times> kfifo) option" where
  "raw_kfifo_to_user_r ctu f len recsize =
     (if kf_in f = kf_out f then Some (Inr (), 0, [], f)
      else do {
        n \<leftarrow> raw_kfifo_peek_n f recsize;
        let len = (if len > n then n else len);
        (ret, copied, bs) \<leftarrow> kfifo_copy_to_user ctu f len (kf_out f + recsize);
        if ret \<noteq> 0 then Some (Inl EFAULT, 0, bs, f)
        else Some (Inr (), copied, bs, f\<lparr>kf_out := kf_out f + (n + recsize)\<rparr>)
      })"

definition raw_kfifo_dma_in_finish_r :: "kfifo \<Rightarrow> u32 \<Rightarrow> u32 \<Rightarrow> kfifo option" where
  "raw_kfifo_dma_in_finish_r f len recsize =
     (let len = raw_kfifo_max_r len recsize in
      do {
        f \<leftarrow> raw_kfifo_poke_n f len recsize;
        Some (f\<lparr>kf_in := kf_in f + (len + recsize)\<rparr>)
      })"

definition raw_kfifo_dma_out_finish_r :: "kfifo \<Rightarrow> u32 \<Rightarrow> kfifo option" where
  "raw_kfifo_dma_out_finish_r f recsize =
     do {
       len \<leftarrow> raw_kfifo_peek_n f recsize;
       Some (f\<lparr>kf_out := kf_out f + (len + recsize)\<rparr>)
     }"

section \<open>Invariant and abstraction\<close>

definition kf_size :: "kfifo \<Rightarrow> nat" where
  "kf_size f = unat (kf_mask f) + 1"

definition kf_len :: "kfifo \<Rightarrow> nat" where
  "kf_len f = unat (kf_in f - kf_out f)"

definition kfifo_inv :: "kfifo \<Rightarrow> bool" where
  "kfifo_inv f \<longleftrightarrow>
     list_ex (\<lambda>k. kf_mask f = mask k) [1..<32] \<and> kf_esize f \<noteq> 0 \<and>
     kf_len f \<le> kf_size f \<and> kf_size f * unat (kf_esize f) < 2 ^ 32 \<and>
     kf_data f \<noteq> None \<and> length (kf_buf f) = kf_size f * unat (kf_esize f)"

text \<open>The bytes the FIFO holds, oldest first.\<close>

definition kf_view :: "kfifo \<Rightarrow> byte list" where
  "kf_view f = rotate (unat (kf_out f AND kf_mask f) * unat (kf_esize f)) (kf_buf f)"

definition kfifo_bytes :: "kfifo \<Rightarrow> byte list" where
  "kfifo_bytes f = take (kf_len f * unat (kf_esize f)) (kf_view f)"

section \<open>Index arithmetic\<close>

lemma kfifo_invE:
  assumes "kfifo_inv f"
  obtains k d where "1 \<le> k" "k < 32" "kf_mask f = mask k" "kf_size f = 2 ^ k"
    "kf_data f = Some d" "length d = kf_size f * unat (kf_esize f)"
    "0 < unat (kf_esize f)" "kf_len f \<le> kf_size f" "kf_size f * unat (kf_esize f) < 2 ^ 32"
proof -
  from assms obtain k where "1 \<le> k" "k < 32" "kf_mask f = mask k"
    by (auto simp: kfifo_inv_def list_ex_iff)
  moreover from this have "kf_size f = 2 ^ k"
    by (simp add: kf_size_def unat_mask_lt)
  moreover from assms obtain d where "kf_data f = Some d"
    by (auto simp: kfifo_inv_def)
  ultimately show thesis
    using assms that by (auto simp: kfifo_inv_def unat_gt_0)
qed

lemma kf_index:
  assumes "kfifo_inv f"
  shows "unat (x AND kf_mask f) = unat x mod kf_size f"
    and "unat (x AND kf_mask f) < kf_size f"
proof -
  obtain k where "kf_mask f = mask k" "kf_size f = 2 ^ k" by (rule kfifo_invE [OF assms])
  then show "unat (x AND kf_mask f) = unat x mod kf_size f" "unat (x AND kf_mask f) < kf_size f"
    by (simp_all add: unat_and_mask)
qed

text \<open>The indices wrap at \<open>2 ^ 32\<close>, a multiple of the buffer size, so the position of
  \<open>kf_out f + n\<close> is the position of \<open>kf_out f\<close> advanced by \<open>n\<close> around the ring.\<close>

lemma kf_index_add:
  assumes "kfifo_inv f"
  shows "unat ((x + y) AND kf_mask f) = (unat (x AND kf_mask f) + unat y) mod kf_size f"
proof -
  obtain k where k: "k < 32" "kf_mask f = mask k" "kf_size f = 2 ^ k"
    by (rule kfifo_invE [OF assms])
  have "unat ((x + y) AND mask k) = (unat x + unat y) mod 2 ^ 32 mod 2 ^ k"
    by (simp add: unat_and_mask unat_word_ariths)
  also have "\<dots> = (unat x + unat y) mod 2 ^ k"
    by (rule mod_mod_cancel, rule le_imp_power_dvd) (use k(1) in simp)
  finally show ?thesis using k by (simp add: unat_and_mask mod_simps)
qed

lemma kf_in_index:
  assumes "kfifo_inv f"
  shows "unat (kf_in f AND kf_mask f) = (unat (kf_out f AND kf_mask f) + kf_len f) mod kf_size f"
  using kf_index_add [OF assms, of "kf_out f" "kf_in f - kf_out f"] by (simp add: kf_len_def)

lemma kfifo_unused_unat:
  assumes "kfifo_inv f"
  shows "unat (kfifo_unused f) = kf_size f - kf_len f"
proof -
  obtain k where k: "k < 32" "kf_mask f = mask k" "kf_size f = 2 ^ k"
    "kf_len f \<le> kf_size f"
    by (rule kfifo_invE [OF assms])
  have lt: "(2::nat) ^ k < 2 ^ 32" using k(1) by (rule power_strict_increasing) simp
  have "unat (kf_mask f + 1) = kf_size f"
    using k lt by (subst unat_add_nowrap) (simp_all add: kf_size_def)
  then show ?thesis
    using k by (simp add: kfifo_unused_def kf_len_def unat_sub_nowrap)
qed

text \<open>The scaled offset, length and first piece, with no wrap-around under the invariant.\<close>

lemma kfifo_scale_unat:
  assumes inv: "kfifo_inv f" and len: "unat len \<le> kf_size f"
    and s: "kfifo_scale f len off = (off', len', l)"
  shows "unat off' = unat (off AND kf_mask f) * unat (kf_esize f)"
    and "unat len' = unat len * unat (kf_esize f)"
    and "unat l = min (unat len') (kf_size f * unat (kf_esize f) - unat off')"
    and "unat (len' - l) = unat len' - unat l"
    and "unat off' < kf_size f * unat (kf_esize f)"
proof -
  let ?e = "unat (kf_esize f)" and ?o = "off AND kf_mask f"
  obtain k where k: "k < 32" "kf_mask f = mask k" "kf_size f = 2 ^ k"
    and e: "0 < ?e" and N: "kf_size f * ?e < 2 ^ 32"
    by (rule kfifo_invE [OF inv])
  have o: "unat ?o < kf_size f" by (rule kf_index [OF inv])
  have lt: "(2::nat) ^ k < 2 ^ 32" using k(1) by (rule power_strict_increasing) simp
  have sz: "unat (kf_mask f + 1) = kf_size f"
    using k lt by (subst unat_add_nowrap) (simp_all add: kf_size_def)
  have oe: "unat (?o * kf_esize f) = unat ?o * ?e"
    using mult_le_lt_trans [OF less_imp_le [OF o] N] by (subst unat_mult_nowrap) auto
  have le: "unat (len * kf_esize f) = unat len * ?e"
    using mult_le_lt_trans [OF len N] by (subst unat_mult_nowrap) auto
  have se: "unat ((kf_mask f + 1) * kf_esize f) = kf_size f * ?e"
    using N sz by (subst unat_mult_nowrap) auto
  have off': "unat off' = unat ?o * ?e" and len': "unat len' = unat len * ?e"
    using s oe le by (auto simp: kfifo_scale_def Let_def split: if_splits)
  show lt': "unat off' < kf_size f * ?e" using off' o e by simp
  have "unat l = min (unat len') (unat (if kf_esize f \<noteq> 1
      then (kf_mask f + 1) * kf_esize f - ?o * kf_esize f else kf_mask f + 1 - ?o))"
    using s by (auto simp: kfifo_scale_def Let_def unat_min split: if_splits)
  also have "\<dots> = min (unat len') (kf_size f * ?e - unat off')"
    using off' lt' oe se sz o by (auto simp: unat_sub_nowrap)
  finally show l: "unat l = min (unat len') (kf_size f * ?e - unat off')" .
  show "unat off' = unat ?o * ?e" "unat len' = unat len * ?e" by (fact off' len')+
  show "unat (len' - l) = unat len' - unat l" using l by (subst unat_sub_nowrap) auto
qed

section \<open>Refinement of the copies\<close>

lemma length_kf_view: "kfifo_inv f \<Longrightarrow> length (kf_view f) = kf_size f * unat (kf_esize f)"
  by (auto simp: kf_view_def kfifo_inv_def)

text \<open>Element \<open>n\<close> after the oldest one stands at byte \<open>n * esize\<close> of the view.\<close>

lemma kf_byte_index:
  assumes "kfifo_inv f"
  shows "unat ((kf_out f + n) AND kf_mask f) * unat (kf_esize f) =
    (unat (kf_out f AND kf_mask f) * unat (kf_esize f) + unat n * unat (kf_esize f))
      mod (kf_size f * unat (kf_esize f))"
  by (simp only: kf_index_add [OF assms, of "kf_out f" n] mult_mod_left add_mult_distrib)

text \<open>The two writes of a copy, whole or cut off after the first piece.\<close>

lemma kfifo_two_writes:
  assumes inv: "kfifo_inv f" and fits: "unat n + unat len \<le> kf_size f"
    and s: "kfifo_scale f len (kf_out f + n) = (off', len', l)" and d0: "kf_data f = Some d0"
    and bs: "length bs = unat l \<or> length bs = unat len'"
  defines "c \<equiv> unat n * unat (kf_esize f)"
  shows "\<exists>d1 d2. mem_write d0 (unat off') (take (unat l) bs) = Some d1 \<and>
    mem_write d1 0 (drop (unat l) bs) = Some d2 \<and>
    length d2 = kf_size f * unat (kf_esize f) \<and>
    kf_view (f\<lparr>kf_data := Some d2\<rparr>) = take c (kf_view f) @ bs @ drop (c + length bs) (kf_view f)"
proof -
  let ?e = "unat (kf_esize f)" and ?p = "unat off'"
  let ?q = "unat (kf_out f AND kf_mask f) * ?e"
  have N: "length d0 = kf_size f * ?e" and e: "0 < ?e"
    by (rule kfifo_invE [OF inv], use d0 in simp)+
  have len: "unat len \<le> kf_size f" using fits by simp
  note sc = kfifo_scale_unat [OF inv len s]
  have le: "length bs \<le> unat len'" using bs sc by auto
  have cm: "c + unat len' \<le> length d0"
    using mult_le_mono1 [OF fits, of ?e] sc N by (simp add: c_def algebra_simps)
  have l: "unat l = min (length bs) (length d0 - ?p)" using sc bs N by auto
  have p: "?p < length d0" using sc N by simp
  obtain d1 where d1: "mem_write d0 ?p (take (unat l) bs) = Some d1" "length d1 = length d0"
    by (rule mem_write_ok [of ?p "take (unat l) bs" d0]) (use p l in auto)
  obtain d2 where d2: "mem_write d1 0 (drop (unat l) bs) = Some d2"
    by (rule mem_write_ok [of 0 "drop (unat l) bs" d1]) (use d1 cm le in auto)
  have w: "rotate ?p d2 = bs @ drop (length bs) (rotate ?p d0)" "length d2 = length d0"
    using ring_write [OF p _ l d1(1) d2] cm le by auto
  have "rotate ?q d2 = take c (rotate ?q d0) @ bs @ drop (c + length bs) (rotate ?q d0)"
  proof (rule ring_view_write)
    show "?q < length d0" using kf_index [OF inv, of "kf_out f"] e N by simp
    show "c + length bs \<le> length d0" using cm le by simp
    show "?p = (?q + c) mod length d0"
      using sc N kf_byte_index [OF inv, of n] by (simp add: c_def)
  qed (use w in auto)
  then show ?thesis using w d0 d1 d2 N by (auto simp: kf_view_def)
qed

lemma kfifo_copy_in_view:
  assumes inv: "kfifo_inv f" and fits: "unat n + unat len \<le> kf_size f"
    and src: "unat len * unat (kf_esize f) \<le> length src"
  defines "m \<equiv> unat len * unat (kf_esize f)" and "c \<equiv> unat n * unat (kf_esize f)"
  shows "\<exists>d. kfifo_copy_in f src len (kf_out f + n) = Some (f\<lparr>kf_data := Some d\<rparr>) \<and>
    length d = kf_size f * unat (kf_esize f) \<and>
    kf_view (f\<lparr>kf_data := Some d\<rparr>) = take c (kf_view f) @ take m src @ drop (c + m) (kf_view f)"
proof -
  obtain d0 where d0: "kf_data f = Some d0" by (rule kfifo_invE [OF inv])
  obtain off' len' l where s: "kfifo_scale f len (kf_out f + n) = (off', len', l)"
    by (cases "kfifo_scale f len (kf_out f + n)") auto
  have len: "unat len \<le> kf_size f" using fits by simp
  note sc = kfifo_scale_unat [OF inv len s]
  have bs: "length (take m src) = unat len'" using src sc by (simp add: m_def)
  obtain d1 d2 where d: "mem_write d0 (unat off') (take (unat l) (take m src)) = Some d1"
    "mem_write d1 0 (drop (unat l) (take m src)) = Some d2"
    "length d2 = kf_size f * unat (kf_esize f)"
    "kf_view (f\<lparr>kf_data := Some d2\<rparr>) =
       take c (kf_view f) @ take m src @ drop (c + length (take m src)) (kf_view f)"
    using kfifo_two_writes [OF inv fits s d0, of "take m src"] bs unfolding c_def by blast
  have m: "unat l \<le> m" "unat (len' - l) = m - unat l" "m \<le> length src"
    using sc src by (auto simp: m_def)
  then have "memcpy d0 (unat off') src 0 (unat l) = Some d1"
    "memcpy d1 0 src (unat l) (unat (len' - l)) = Some d2"
    using d by (simp_all add: memcpy_def mem_read_def min.absorb1 drop_take)
  then have "kfifo_copy_in f src len (kf_out f + n) = Some (f\<lparr>kf_data := Some d2\<rparr>)"
    using s d0 by (simp add: kfifo_copy_in_def)
  then show ?thesis using d bs sc by (auto simp: m_def)
qed

lemma kfifo_copy_out_view:
  assumes inv: "kfifo_inv f" and fits: "unat n + unat len \<le> kf_size f"
  shows "kfifo_copy_out f len (kf_out f + n) =
    Some (take (unat len * unat (kf_esize f)) (drop (unat n * unat (kf_esize f)) (kf_view f)))"
proof -
  let ?e = "unat (kf_esize f)" and ?off = "kf_out f + n"
  let ?q = "unat (kf_out f AND kf_mask f) * ?e"
  obtain d0 where d0: "kf_data f = Some d0" "length d0 = kf_size f * ?e" and e: "0 < ?e"
    by (rule kfifo_invE [OF inv])
  obtain off' len' l where s: "kfifo_scale f len ?off = (off', len', l)"
    by (cases "kfifo_scale f len ?off") auto
  have len: "unat len \<le> kf_size f" using fits by simp
  note sc = kfifo_scale_unat [OF inv len s]
  let ?m = "unat len * ?e" and ?c = "unat n * ?e"
  have mN: "?c + ?m \<le> length d0"
    using mult_le_mono1 [OF fits, of ?e] d0 by (simp add: algebra_simps)
  have p: "unat off' < length d0" using sc d0 by simp
  have l: "unat l = min ?m (length d0 - unat off')" using sc d0 by simp
  have "kfifo_copy_out f len ?off =
      Some (take (unat l) (drop (unat off') d0) @ take (?m - unat l) d0)"
  proof -
    have "unat off' + unat l \<le> length d0" "?m - unat l \<le> length d0" using l p mN by linarith+
    then show ?thesis using s d0(1) sc(2,4) by (simp add: kfifo_copy_out_def mem_read_def)
  qed
  also have "take (unat l) (drop (unat off') d0) @ take (?m - unat l) d0
      = take ?m (rotate (unat off') d0)"
    using ring_read [OF p, of ?m] mN l by simp
  also have "rotate (unat off') d0 = rotate ?c (kf_view f)"
    using sc d0 kf_byte_index [OF inv, of n] rotate_conv_mod [of "?q + ?c" d0]
    by (simp add: kf_view_def rotate_rotate add.commute)
  also have "take ?m (rotate ?c (kf_view f)) = take ?m (drop ?c (kf_view f))"
    using mN d0 length_kf_view [OF inv] by (intro take_rotate) simp
  finally show ?thesis .
qed

text \<open>Advancing the indices.\<close>

lemma kf_size_lt: "kfifo_inv f \<Longrightarrow> kf_size f < 2 ^ 32"
  by (rule kfifo_invE, assumption) (use power_strict_increasing [of _ 32 "2 :: nat"] in simp)

lemma kf_len_in_add:
  assumes "kf_len f + unat n < 2 ^ 32"
  shows "kf_len (f\<lparr>kf_data := d, kf_in := kf_in f + n\<rparr>) = kf_len f + unat n"
proof -
  have "kf_in f + n - kf_out f = (kf_in f - kf_out f) + n" by simp
  then have "unat (kf_in f + n - kf_out f) = unat ((kf_in f - kf_out f) + n)" by (rule arg_cong)
  also have "\<dots> = unat (kf_in f - kf_out f) + unat n"
    by (rule unat_add_nowrap) (use assms in \<open>simp add: kf_len_def\<close>)
  finally show ?thesis by (simp add: kf_len_def)
qed

lemma kfifo_advance_in:
  assumes inv: "kfifo_inv f" and fits: "kf_len f + unat n \<le> kf_size f"
    and d: "length d = kf_size f * unat (kf_esize f)"
    and v: "take (kf_len f * unat (kf_esize f)) (kf_view (f\<lparr>kf_data := Some d\<rparr>)) = kfifo_bytes f"
  defines "f' \<equiv> f\<lparr>kf_data := Some d, kf_in := kf_in f + n\<rparr>"
  shows "kfifo_inv f'" and "kf_len f' = kf_len f + unat n"
    and "kfifo_bytes f' = kfifo_bytes f @
      take (unat n * unat (kf_esize f)) (drop (kf_len f * unat (kf_esize f)) (kf_view (f\<lparr>kf_data := Some d\<rparr>)))"
proof -
  show l: "kf_len f' = kf_len f + unat n"
    using kf_len_in_add [of f n "Some d"] kf_size_lt [OF inv] fits by (simp add: f'_def)
  show "kfifo_inv f'"
    using inv l fits d by (auto simp: kfifo_inv_def f'_def kf_size_def)
  have "kf_view f' = kf_view (f\<lparr>kf_data := Some d\<rparr>)" by (simp add: kf_view_def f'_def)
  then show "kfifo_bytes f' = kfifo_bytes f @
      take (unat n * unat (kf_esize f)) (drop (kf_len f * unat (kf_esize f)) (kf_view (f\<lparr>kf_data := Some d\<rparr>)))"
    using v l by (simp add: kfifo_bytes_def f'_def add_mult_distrib take_add)
qed

lemma kfifo_advance_out:
  assumes inv: "kfifo_inv f" and n: "unat n \<le> kf_len f"
  defines "f' \<equiv> f\<lparr>kf_out := kf_out f + n\<rparr>"
  shows "kfifo_inv f'" and "kf_len f' = kf_len f - unat n"
    and "kfifo_bytes f' = drop (unat n * unat (kf_esize f)) (kfifo_bytes f)"
proof -
  let ?e = "unat (kf_esize f)"
  show l: "kf_len f' = kf_len f - unat n"
  proof -
    have "kf_in f - (kf_out f + n) = (kf_in f - kf_out f) - n" by simp
    then have "unat (kf_in f - (kf_out f + n)) = unat ((kf_in f - kf_out f) - n)" by (rule arg_cong)
    also have "\<dots> = unat (kf_in f - kf_out f) - unat n"
      by (rule unat_sub_nowrap) (use n in \<open>simp add: kf_len_def\<close>)
    finally show ?thesis by (simp add: kf_len_def f'_def)
  qed
  show "kfifo_inv f'" using inv l by (auto simp: kfifo_inv_def f'_def kf_size_def)
  obtain d0 where d0: "kf_data f = Some d0" "length d0 = kf_size f * ?e"
    and le: "kf_len f \<le> kf_size f"
    by (rule kfifo_invE [OF inv])
  have "kf_view f' = rotate (unat n * ?e) (kf_view f)"
    using d0 kf_byte_index [OF inv, of n] rotate_conv_mod
      [of "unat (kf_out f AND kf_mask f) * ?e + unat n * ?e" d0]
    by (simp add: kf_view_def f'_def rotate_rotate add.commute)
  moreover have "take ((kf_len f - unat n) * ?e) (rotate (unat n * ?e) (kf_view f))
      = take ((kf_len f - unat n) * ?e) (drop (unat n * ?e) (kf_view f))"
    using mult_le_mono1 [OF le, of ?e] mult_le_mono1 [OF n, of ?e] length_kf_view [OF inv]
    by (intro take_rotate) (simp add: diff_mult_distrib)
  ultimately show "kfifo_bytes f' = drop (unat n * ?e) (kfifo_bytes f)"
    using l by (simp add: kfifo_bytes_def f'_def drop_take diff_mult_distrib)
qed

lemma kf_view_bytes:
  assumes "kfifo_inv f"
  shows "length (kfifo_bytes f) = kf_len f * unat (kf_esize f)"
    and "take (kf_len f * unat (kf_esize f)) (kf_view f) = kfifo_bytes f"
proof -
  have "kf_len f \<le> kf_size f" by (rule kfifo_invE [OF assms])
  then show "length (kfifo_bytes f) = kf_len f * unat (kf_esize f)"
    by (simp add: kfifo_bytes_def length_kf_view [OF assms])
qed (simp add: kfifo_bytes_def)

lemma kf_in_out: "kf_out f + of_nat (kf_len f) = kf_in f"
  by (simp add: kf_len_def)

lemma unat_kf_len: "unat (of_nat (kf_len f) :: u32) = kf_len f"
  by (simp add: kf_len_def)

text \<open>The element count of \<open>__kfifo_in\<close> and \<open>__kfifo_out\<close>.\<close>

lemma clamp_unat: "unat (if len > l then l else len) = min (unat len) (unat l)" for l len :: u32
  by (auto simp: word_less_nat_alt)

lemma raw_kfifo_in_refines:
  assumes inv: "kfifo_inv f" and buf: "unat len * unat (kf_esize f) \<le> length buf"
  shows "\<exists>n f'. raw_kfifo_in f buf len = Some (n, f') \<and> kfifo_inv f' \<and>
    kf_esize f' = kf_esize f \<and> kf_size f' = kf_size f \<and>
    unat n = min (unat len) (kf_size f - kf_len f) \<and>
    kfifo_bytes f' = kfifo_bytes f @ take (unat n * unat (kf_esize f)) buf"
proof -
  let ?e = "unat (kf_esize f)" and ?l = "kfifo_unused f"
  define n where "n = (if len > ?l then ?l else len)"
  have n: "unat n = min (unat len) (kf_size f - kf_len f)"
    using kfifo_unused_unat [OF inv] by (simp add: n_def clamp_unat)
  have le: "kf_len f \<le> kf_size f" by (rule kfifo_invE [OF inv])
  have fits: "kf_len f + unat n \<le> kf_size f" using n le by linarith
  have buf': "unat n * ?e \<le> length buf"
    using n buf mult_le_mono1 [of "unat n" "unat len" ?e] by linarith
  obtain d where d: "kfifo_copy_in f buf n (kf_in f) = Some (f\<lparr>kf_data := Some d\<rparr>)"
    "length d = kf_size f * ?e"
    "kf_view (f\<lparr>kf_data := Some d\<rparr>) = take (kf_len f * ?e) (kf_view f) @
       take (unat n * ?e) buf @ drop (kf_len f * ?e + unat n * ?e) (kf_view f)"
    using kfifo_copy_in_view [OF inv, of "of_nat (kf_len f)" n buf] fits buf'
    by (auto simp: kf_in_out unat_kf_len)
  let ?f = "f\<lparr>kf_data := Some d, kf_in := kf_in f + n\<rparr>"
  have run: "raw_kfifo_in f buf len = Some (n, ?f)"
    using d(1) by (simp add: raw_kfifo_in_def n_def Let_def)
  have v: "take (kf_len f * ?e) (kf_view (f\<lparr>kf_data := Some d\<rparr>)) = kfifo_bytes f"
    using d(3) kf_view_bytes [OF inv] by simp
  note adv = kfifo_advance_in [OF inv fits d(2) v]
  have "kfifo_bytes ?f = kfifo_bytes f @ take (unat n * ?e) buf"
    using adv(3) d(3) kf_view_bytes [OF inv] buf' by simp
  then show ?thesis using run adv(1) n by (auto simp: kf_size_def)
qed

lemma raw_kfifo_out_refines:
  assumes inv: "kfifo_inv f"
  shows "\<exists>n f'. raw_kfifo_out f len = Some (n, take (unat n * unat (kf_esize f)) (kfifo_bytes f), f') \<and>
    raw_kfifo_out_peek f len = Some (n, take (unat n * unat (kf_esize f)) (kfifo_bytes f)) \<and>
    kfifo_inv f' \<and> kf_esize f' = kf_esize f \<and> kf_size f' = kf_size f \<and>
    unat n = min (unat len) (kf_len f) \<and>
    kfifo_bytes f' = drop (unat n * unat (kf_esize f)) (kfifo_bytes f)"
proof -
  let ?e = "unat (kf_esize f)" and ?l = "kf_in f - kf_out f"
  define n where "n = (if len > ?l then ?l else len)"
  have n: "unat n = min (unat len) (kf_len f)" by (simp add: n_def clamp_unat kf_len_def)
  have le: "kf_len f \<le> kf_size f" by (rule kfifo_invE [OF inv])
  have "kfifo_copy_out f n (kf_out f) = Some (take (unat n * ?e) (kf_view f))"
    using kfifo_copy_out_view [OF inv, of 0 n] n le by simp
  also have "take (unat n * ?e) (kf_view f) = take (unat n * ?e) (kfifo_bytes f)"
    using n by (simp add: kfifo_bytes_def min_def)
  finally have pk: "raw_kfifo_out_peek f len = Some (n, take (unat n * ?e) (kfifo_bytes f))"
    by (simp add: raw_kfifo_out_peek_def n_def Let_def)
  then have "raw_kfifo_out f len =
      Some (n, take (unat n * ?e) (kfifo_bytes f), f\<lparr>kf_out := kf_out f + n\<rparr>)"
    by (simp add: raw_kfifo_out_def)
  then show ?thesis
    using pk n kfifo_advance_out [OF inv, of n] by (auto simp: kf_size_def)
qed

section \<open>Refinement of the user-space transfers\<close>

lemma div_round_up_bounds:
  assumes e: "0 < unat d" and x: "unat x \<le> L * unat d" and big: "L * unat d + unat d \<le> 2 ^ 32"
  shows "unat (div_round_up x d) \<le> L" and "unat x \<le> unat (div_round_up x d) * unat d"
proof -
  let ?s = "unat x + (unat d - 1)"
  have "unat (x + d - 1) = unat (x + (d - 1))" by (simp only: add_diff_eq)
  also have "\<dots> = ?s"
  proof -
    have d1: "unat (d - 1) = unat d - 1" using e by (subst unat_sub_nowrap) auto
    then show ?thesis using x big e by (subst unat_add_nowrap) auto
  qed
  finally have q: "unat (div_round_up x d) = ?s div unat d"
    by (simp add: div_round_up_def unat_div)
  have "?s < (L + 1) * unat d" using x e by simp
  then show "unat (div_round_up x d) \<le> L" using q less_mult_imp_div_less [of ?s "L + 1" "unat d"] by simp
  have "unat x + unat d \<le> ?s div unat d * unat d + unat d"
    using div_mult_mod_eq [of ?s "unat d"] mod_less_divisor [OF e, of ?s] by linarith
  then show "unat x \<le> unat (div_round_up x d) * unat d" using q by simp
qed

lemma div_round_up_rest:
  assumes e: "0 < unat d" and x: "unat x \<le> L * unat d" and big: "L * unat d + unat d \<le> 2 ^ 32"
  shows "(L - unat (div_round_up x d)) * unat d \<le> L * unat d - unat x"
  using div_round_up_bounds [OF e x big] by (simp add: diff_mult_distrib)

lemma take_prefix_replace:
  assumes "take k bs = take k src" and "m \<le> k" and "k \<le> length bs"
  shows "bs @ r = take m src @ drop m bs @ r" and "m \<le> length src"
proof -
  show "m \<le> length src" using arg_cong [OF assms(1), of length] assms(2,3) by simp
  have "take m bs = take m src"
    using arg_cong [OF assms(1), of "take m"] assms(2) by (simp add: min_def)
  then show "bs @ r = take m src @ drop m bs @ r"
    using append_take_drop_id [of m bs] by (metis append_assoc)
qed

text \<open>
  Whatever \<open>copy_from_user\<close> manages to copy, the elements the routine reports as copied stand at
  their place in the ring, and what was there before them is unchanged.
\<close>

lemma kfifo_copy_from_user_view:
  assumes inv: "kfifo_inv f" and law: "cfu_law cfu" and fits: "unat n + unat len \<le> kf_size f"
    and big: "kf_size f * unat (kf_esize f) \<le> 2 ^ 31"
  defines "e \<equiv> unat (kf_esize f)"
  shows "\<exists>ret cp d bs. kfifo_copy_from_user cfu f src len (kf_out f + n) =
      Some (ret, cp, f\<lparr>kf_data := Some d\<rparr>) \<and>
    length d = kf_size f * e \<and> unat ret \<le> unat len \<and>
    (unat len - unat ret) * e \<le> length src \<and>
    kf_view (f\<lparr>kf_data := Some d\<rparr>) =
      take (unat n * e) (kf_view f) @ take ((unat len - unat ret) * e) src @ bs"
proof -
  obtain d0 where d0: "kf_data f = Some d0" and e0: "0 < e"
    unfolding e_def by (rule kfifo_invE [OF inv])
  obtain off' len' l where s: "kfifo_scale f len (kf_out f + n) = (off', len', l)"
    by (cases "kfifo_scale f len (kf_out f + n)") auto
  have len: "unat len \<le> kf_size f" using fits by simp
  note sc = kfifo_scale_unat [OF inv len s, folded e_def]
  have L: "unat len * e \<le> 2 ^ 31"
    using mult_le_mono1 [OF len, of e] big unfolding e_def by linarith
  have "e \<le> 2 ^ 31" using big by (simp add: kf_size_def e_def)
  then have eb: "unat len * e + e \<le> 2 ^ 32" using add_mono [OF L, of e "2 ^ 31"] by simp
  obtain b1 r1 where c1: "cfu src (unat l) = (b1, r1)" by fastforce
  obtain b2 r2 where c2: "cfu (drop (unat l) src) (unat (len' - l)) = (b2, r2)" by fastforce
  have b1: "length b1 = unat l" "r1 \<le> unat l" "take (unat l - r1) b1 = take (unat l - r1) src"
    using law c1 unfolding cfu_law_def by (metis fst_conv snd_conv)+
  have b2: "length b2 = unat (len' - l)" "r2 \<le> unat (len' - l)"
    "take (unat (len' - l) - r2) b2 = take (unat (len' - l) - r2) (drop (unat l) src)"
    using law c2 unfolding cfu_law_def by (metis fst_conv snd_conv)+
  have l: "unat l \<le> unat len'" using sc by simp
  have small: "unat (of_nat r :: u32) = r" if "r \<le> unat len'" for r
    using that unat_less_2p32 [of len'] by (simp add: unat_of_nat)
  show ?thesis
  proof (cases "r1 = 0")
    case False
    let ?x = "of_nat r1 + len' - l" and ?bs = b1
    define ret where "ret = div_round_up ?x (kf_esize f)"
    have "unat ?x = unat (of_nat r1 + (len' - l))" by (simp only: add_diff_eq)
    also have "\<dots> = r1 + (unat len' - unat l)"
      using b1(2) l sc(4) small [of r1] unat_less_2p32 [of len'] by (subst unat_add_nowrap) auto
    finally have x: "unat ?x = r1 + (unat len' - unat l)" .
    then have xL: "unat ?x \<le> unat len * unat (kf_esize f)" using b1(2) l sc(2) by (simp add: e_def)
    note dr = div_round_up_bounds(1) [OF e0 [unfolded e_def] xL eb [unfolded e_def], folded ret_def]
      div_round_up_rest [OF e0 [unfolded e_def] xL eb [unfolded e_def], folded ret_def e_def]
    then have m: "(unat len - unat ret) * e \<le> unat l - r1" using x l b1(2) sc(2) by linarith
    obtain d1 d2 where d: "mem_write d0 (unat off') b1 = Some d1" "mem_write d1 0 [] = Some d2"
      "length d2 = kf_size f * e"
      "kf_view (f\<lparr>kf_data := Some d2\<rparr>) = take (unat n * e) (kf_view f) @ b1 @
         drop (unat n * e + length b1) (kf_view f)"
      using kfifo_two_writes [OF inv fits s d0, of b1] b1(1) unfolding e_def by auto
    have "d1 = d2" using d(2) by (simp add: mem_write_Some)
    moreover have "(of_nat r1 :: u32) \<noteq> 0"
      using False b1(2) l small [of r1] by (metis le_trans unat_0)
    ultimately have "kfifo_copy_from_user cfu f src len (kf_out f + n) =
        Some (ret, len' - ret, f\<lparr>kf_data := Some d2\<rparr>)"
      using s c1 d d0 by (simp add: kfifo_copy_from_user_def ret_def Let_def)
    moreover note take_prefix_replace [OF b1(3) m]
    ultimately show ?thesis using d dr b1(1) by (metis diff_le_self)
  next
    case True
    define ret where "ret = (if of_nat r2 \<noteq> (0 :: u32) then div_round_up (of_nat r2) (kf_esize f) else of_nat r2)"
    have r2: "r2 \<le> unat len'" using b2(2) sc(4) by simp
    have x: "unat (of_nat r2 :: u32) = r2" by (rule small [OF r2])
    then have xL: "unat (of_nat r2 :: u32) \<le> unat len * unat (kf_esize f)" using r2 sc(2) by (simp add: e_def)
    have ret: "unat ret \<le> unat len" "(unat len - unat ret) * e \<le> unat len' - r2"
      using div_round_up_bounds(1) [OF e0 [unfolded e_def] xL eb [unfolded e_def]]
        div_round_up_rest [OF e0 [unfolded e_def] xL eb [unfolded e_def]] x sc(2)
      by (auto simp: ret_def e_def)
    have "take (unat len' - r2) (b1 @ b2) = take (unat l) src @ take (unat (len' - l) - r2) b2"
      using b1 True b2 sc(4) l by (simp add: add.commute)
    also have "\<dots> = take (unat l + (unat (len' - l) - r2)) src"
      by (simp only: b2(3) take_add)
    also have "unat l + (unat (len' - l) - r2) = unat len' - r2" using b2(2) sc(4) l by simp
    finally have pre: "take (unat len' - r2) (b1 @ b2) = take (unat len' - r2) src" .
    obtain d1 d2 where d: "mem_write d0 (unat off') b1 = Some d1" "mem_write d1 0 b2 = Some d2"
      "length d2 = kf_size f * e"
      "kf_view (f\<lparr>kf_data := Some d2\<rparr>) = take (unat n * e) (kf_view f) @ (b1 @ b2) @
         drop (unat n * e + length (b1 @ b2)) (kf_view f)"
      using kfifo_two_writes [OF inv fits s d0, of "b1 @ b2"] b1(1) b2(1) sc(4) l unfolding e_def by auto
    have "kfifo_copy_from_user cfu f src len (kf_out f + n) =
        Some (ret, len' - ret, f\<lparr>kf_data := Some d2\<rparr>)"
      using s c1 c2 d d0 True by (simp add: kfifo_copy_from_user_def ret_def)
    moreover have "unat len' - r2 \<le> length (b1 @ b2)" using b1(1) b2(1) sc(4) l by simp
    note take_prefix_replace [OF pre ret(2) this]
    ultimately show ?thesis using d ret by metis
  qed
qed

section \<open>Rounding down to a power of two\<close>

lemma and_high_eq_0:
  assumes "k \<le> 32"
  shows "x AND NOT (mask (32 - k)) = 0 \<longleftrightarrow> unat (x :: u32) < 2 ^ (32 - k)"
proof -
  have "x AND NOT (mask (32 - k)) = 0 \<longleftrightarrow> take_bit (32 - k) x = x"
    by (auto simp: bit_eq_iff bit_simps)
  also have "\<dots> \<longleftrightarrow> take_bit (32 - k) (unat x) = unat x"
    by (metis unsigned_take_bit_eq word_eq_iff_unsigned)
  finally show ?thesis by (simp add: take_bit_nat_eq_self_iff)
qed

text \<open>A stage keeps \<open>x = x0 * 2 ^ (32 - r)\<close> and brings a set bit into the upper \<open>k\<close> bits.\<close>

lemma fls_stage_step:
  assumes s: "fls_stage k (NOT (mask (32 - k))) (x, r) = (x', r')"
    and k: "0 < k" "2 * k \<le> 32" "k \<le> r"
    and lo: "2 ^ (32 - 2 * k) \<le> unat x" and inv: "unat x = n * 2 ^ (32 - r)" "r \<le> 32"
  shows "2 ^ (32 - k) \<le> unat x' \<and> unat x' = n * 2 ^ (32 - r') \<and> r' \<le> 32 \<and> r - k \<le> r'"
proof (cases "unat x < 2 ^ (32 - k)")
  case True
  then have x': "x' = push_bit k x" "r' = r - k"
    using s k and_high_eq_0 [of k x] by (auto simp: fls_stage_def)
  have "unat x * 2 ^ k < 2 ^ (32 - k) * 2 ^ k" using True by simp
  also have "\<dots> = 2 ^ 32" using k by (simp flip: power_add)
  finally have u: "unat x' = unat x * 2 ^ k"
    unfolding x' by (simp only: unsigned_push_bit_eq) (simp add: push_bit_eq_mult take_bit_nat_eq_self)
  have "(2::nat) ^ (32 - k) = 2 ^ (32 - 2 * k) * 2 ^ k" using k by (simp flip: power_add)
  also have "\<dots> \<le> unat x'" using lo u by simp
  finally have "2 ^ (32 - k) \<le> unat x'" .
  moreover have "unat x' = n * 2 ^ (32 - r')"
    using u inv k x' by (simp flip: power_add)
  ultimately show ?thesis using x' inv by simp
next
  case False
  then have "x' = x" "r' = r" using s k and_high_eq_0 [of k x] by (auto simp: fls_stage_def)
  then show ?thesis using False inv by simp
qed

lemma constant_fls_bounds:
  assumes "x \<noteq> 0"
  shows "0 < constant_fls x \<and> constant_fls x \<le> 32 \<and>
    2 ^ (constant_fls x - 1) \<le> unat x \<and> unat x < 2 ^ constant_fls x"
proof -
  obtain x1 r1 where s1: "fls_stage 16 0xffff0000 (x, 32) = (x1, r1)" by fastforce
  obtain x2 r2 where s2: "fls_stage 8 0xff000000 (x1, r1) = (x2, r2)" by fastforce
  obtain x3 r3 where s3: "fls_stage 4 0xf0000000 (x2, r2) = (x3, r3)" by fastforce
  obtain x4 r4 where s4: "fls_stage 2 0xc0000000 (x3, r3) = (x4, r4)" by fastforce
  obtain x5 r5 where s5: "fls_stage 1 0x80000000 (x4, r4) = (x5, r5)" by fastforce
  have m: "NOT (mask (32 - 16)) = (0xffff0000 :: u32)" "NOT (mask (32 - 8)) = (0xff000000 :: u32)"
    "NOT (mask (32 - 4)) = (0xf0000000 :: u32)" "NOT (mask (32 - 2)) = (0xc0000000 :: u32)"
    "NOT (mask (32 - 1)) = (0x80000000 :: u32)"
    by (simp_all add: mask_eq_exp_minus_1)
  have "1 \<le> unat x" using assms by (simp add: unat_gt_0 Suc_le_eq)
  with fls_stage_step [OF s1 [folded m], where n = "unat x"]
  have 1: "2 ^ 16 \<le> unat x1" "unat x1 = unat x * 2 ^ (32 - r1)" "r1 \<le> 32" "16 \<le> r1" by auto
  with fls_stage_step [OF s2 [folded m], where n = "unat x"]
  have 2: "2 ^ 24 \<le> unat x2" "unat x2 = unat x * 2 ^ (32 - r2)" "r2 \<le> 32" "8 \<le> r2" by auto
  with fls_stage_step [OF s3 [folded m], where n = "unat x"]
  have 3: "2 ^ 28 \<le> unat x3" "unat x3 = unat x * 2 ^ (32 - r3)" "r3 \<le> 32" "4 \<le> r3" by auto
  with fls_stage_step [OF s4 [folded m], where n = "unat x"]
  have 4: "2 ^ 30 \<le> unat x4" "unat x4 = unat x * 2 ^ (32 - r4)" "r4 \<le> 32" "2 \<le> r4" by auto
  with fls_stage_step [OF s5 [folded m], where n = "unat x"]
  have 5: "2 ^ 31 \<le> unat x5" "unat x5 = unat x * 2 ^ (32 - r5)" "r5 \<le> 32" "1 \<le> r5" by auto
  have r: "constant_fls x = r5"
    using assms s1 s2 s3 s4 s5 by (simp add: constant_fls_def)
  have "2 ^ (r5 - 1) * 2 ^ (32 - r5) \<le> unat x * (2::nat) ^ (32 - r5)"
    using 5 by (simp flip: power_add)
  then have lo: "2 ^ (r5 - 1) \<le> unat x" by simp
  have "unat x * 2 ^ (32 - r5) < 2 ^ 32" using unat_less_2p32 [of x5] 5(2) by simp
  also have "(2::nat) ^ 32 = 2 ^ r5 * 2 ^ (32 - r5)" using 5 by (simp flip: power_add)
  finally have "unat x < 2 ^ r5" by simp
  then show ?thesis using r lo 5 by simp
qed

lemma rounddown_pow_of_two_mask:
  assumes "n \<noteq> 0"
  shows "\<exists>k < 32. rounddown_pow_of_two n = Some (2 ^ k) \<and> 2 ^ k \<le> unat n \<and> unat n < 2 ^ Suc k"
  using constant_fls_bounds [OF assms]
  by (intro exI [of _ "constant_fls n - 1"]) (auto simp: rounddown_pow_of_two_def push_bit_eq_mult)

lemma is_power_of_2_iff: "is_power_of_2 n \<longleftrightarrow> (\<exists>k < 32. n = 2 ^ k)"
proof
  assume p: "is_power_of_2 n"
  then have "n \<noteq> 0" by (simp add: is_power_of_2_def)
  then obtain k where k: "k < 32" "2 ^ k \<le> unat n" "unat n < 2 ^ Suc k"
    using rounddown_pow_of_two_mask by blast
  have "n = 2 ^ k"
  proof (rule ccontr)
    assume ne: "n \<noteq> 2 ^ k"
    have pk: "unat (2 ^ k :: u32) = 2 ^ k" using k(1) by (simp add: unat_pow2)
    then have "2 ^ k < unat n" using k(2) ne by (metis le_neq_implies_less word_unat_eq_iff)
    then have "unat n div 2 ^ k = 1" "(unat n - 1) div 2 ^ k = 1"
      using k(3) by (auto intro!: div_nat_eqI)
    then have "bit (unat n) k" "bit (unat (n - 1)) k"
      using \<open>n \<noteq> 0\<close> by (simp_all add: bit_iff_odd unat_minus_one)
    then have "bit (n AND (n - 1)) k"
      by (simp only: bit_and_iff bit_unsigned_iff)
    then show False using p by (simp add: is_power_of_2_def)
  qed
  then show "\<exists>k < 32. n = 2 ^ k" using k by blast
next
  assume "\<exists>k < 32. n = 2 ^ k"
  then obtain k where k: "k < 32" "n = 2 ^ k" by blast
  have "2 ^ k AND (2 ^ k - 1) = (0 :: u32)"
    by (intro bit_word_eqI) (simp add: bit_simps flip: mask_eq_exp_minus_1)
  then show "is_power_of_2 n" using k by (simp add: is_power_of_2_def)
qed

text \<open>The size computed by both set-up routines: the largest power of two below the request.\<close>

lemma kfifo_round_size:
  assumes "n \<noteq> 0"
  shows "\<exists>k < 32. (if is_power_of_2 n then Some n else rounddown_pow_of_two n) = Some (2 ^ k) \<and>
    2 ^ k \<le> unat n \<and> unat n < 2 ^ Suc k"
proof (cases "is_power_of_2 n")
  case True
  then show ?thesis by (auto simp: is_power_of_2_iff unat_pow2)
next
  case False
  then show ?thesis using rounddown_pow_of_two_mask [OF assms] by simp
qed

lemma kfifo_fresh_inv:
  assumes k: "1 \<le> k" "k < 32" and e: "esize \<noteq> 0" "2 ^ k * unat esize < 2 ^ 32"
    and d: "length d = 2 ^ k * unat esize"
  shows "kfifo_inv \<lparr>kf_in = 0, kf_out = 0, kf_mask = 2 ^ k - 1, kf_esize = esize, kf_data = Some d\<rparr>"
    (is "kfifo_inv ?f")
proof -
  have m: "kf_mask ?f = mask k" by (simp add: mask_eq_exp_minus_1)
  then have "kf_size ?f = 2 ^ k" using k by (simp add: kf_size_def unat_mask_lt)
  then show ?thesis
    using m k e d by (auto simp: kfifo_inv_def kf_len_def list_ex_iff)
qed

section \<open>The byte FIFO as a queue\<close>

definition kfifo_put :: "kfifo \<Rightarrow> byte list \<times> u32 \<Rightarrow> (byte list \<times> kfifo) option" where
  "kfifo_put f = (\<lambda>(buf, len).
     do { (n, f') \<leftarrow> raw_kfifo_in f buf len; Some (take (unat n * unat (kf_esize f)) buf, f') })"

definition kfifo_get :: "kfifo \<Rightarrow> u32 \<Rightarrow> (byte list \<times> kfifo) option" where
  "kfifo_get f len = do { (n, b, f') \<leftarrow> raw_kfifo_out f len; Some (b, f') }"

interpretation kfq: fifo "\<lambda>f. kfifo_inv f \<and> kf_esize f = e" kfifo_bytes
  "\<lambda>(buf, len). unat len * unat e \<le> length buf" kfifo_put kfifo_get
  for e
proof
  fix f and i :: "byte list \<times> u32"
  assume f: "kfifo_inv f \<and> kf_esize f = e"
    and "case i of (buf, len) \<Rightarrow> unat len * unat e \<le> length buf"
  moreover obtain buf len where "i = (buf, len)" by fastforce
  ultimately show "\<exists>xs f'. kfifo_put f i = Some (xs, f') \<and> (kfifo_inv f' \<and> kf_esize f' = e) \<and>
      kfifo_bytes f' = kfifo_bytes f @ xs"
    using raw_kfifo_in_refines [of f len buf] by (auto simp: kfifo_put_def)
next
  fix f n
  assume f: "kfifo_inv f \<and> kf_esize f = e"
  then show "\<exists>xs f'. kfifo_get f n = Some (xs, f') \<and> (kfifo_inv f' \<and> kf_esize f' = e) \<and>
      kfifo_bytes f = xs @ kfifo_bytes f'"
    using raw_kfifo_out_refines [of f n] by (auto simp: kfifo_get_def)
qed

section \<open>Records\<close>

definition rec_hdr :: "nat \<Rightarrow> nat \<Rightarrow> byte list" where
  "rec_hdr rs n = (if rs = 1 then [of_nat n] else [of_nat n, of_nat (n div 256)])"

definition rec_enc :: "nat \<Rightarrow> byte list \<Rightarrow> byte list" where
  "rec_enc rs r = rec_hdr rs (length r) @ r"

definition hdr_val :: "nat \<Rightarrow> byte list \<Rightarrow> nat" where
  "hdr_val rs bs = unat (bs ! 0) + (if rs = 1 then 0 else 256 * unat (bs ! 1))"

text \<open>The records in a byte sequence, for the header sizes 1 and 2.\<close>

function rec_dec :: "nat \<Rightarrow> byte list \<Rightarrow> byte list list" where
  "rec_dec rs bs =
     (if rs = 0 \<or> length bs < rs then []
      else take (hdr_val rs bs) (drop rs bs) # rec_dec rs (drop (rs + hdr_val rs bs) bs))"
  by pat_completeness auto
termination
  by (relation "measure (\<lambda>(rs, bs). length bs)") auto

declare rec_dec.simps [simp del]

definition kfifo_records :: "nat \<Rightarrow> kfifo \<Rightarrow> byte list list" where
  "kfifo_records rs f = rec_dec rs (kfifo_bytes f)"

definition kfifo_inv_r :: "nat \<Rightarrow> kfifo \<Rightarrow> bool" where
  "kfifo_inv_r rs f \<longleftrightarrow> kfifo_inv f \<and> kf_esize f = 1 \<and> (rs = 1 \<or> rs = 2) \<and>
     kfifo_bytes f = concat (map (rec_enc rs) (kfifo_records rs f)) \<and>
     list_all (\<lambda>r. length r < 256 ^ rs) (kfifo_records rs f)"

lemma length_rec_hdr: "rs = 1 \<or> rs = 2 \<Longrightarrow> length (rec_hdr rs n) = rs"
  by (auto simp: rec_hdr_def)

lemma hdr_val_rec_hdr:
  assumes "rs = 1 \<or> rs = 2" and "n < 256 ^ rs"
  shows "hdr_val rs (rec_hdr rs n @ bs) = n"
  using assms by (auto simp: hdr_val_def rec_hdr_def unat_of_nat)

lemma rec_dec_Cons:
  assumes "rs = 1 \<or> rs = 2" and "length r < 256 ^ rs"
  shows "rec_dec rs (rec_enc rs r @ bs) = r # rec_dec rs bs"
  using assms hdr_val_rec_hdr [OF assms, of "r @ bs"]
  by (subst rec_dec.simps) (auto simp: rec_enc_def length_rec_hdr)

lemma rec_dec_Nil: "rs = 1 \<or> rs = 2 \<Longrightarrow> rec_dec rs [] = []"
  by (subst rec_dec.simps) auto

lemma rec_dec_concat:
  assumes "rs = 1 \<or> rs = 2" and "list_all (\<lambda>r. length r < 256 ^ rs) rcs"
  shows "rec_dec rs (concat (map (rec_enc rs) rcs)) = rcs"
  using assms by (induction rcs) (auto simp: rec_dec_Nil rec_dec_Cons)

text \<open>So a byte sequence made of encoded records determines them.\<close>

lemma kfifo_inv_rI:
  assumes "kfifo_inv f" "kf_esize f = 1" "rs = 1 \<or> rs = 2"
    and "kfifo_bytes f = concat (map (rec_enc rs) rcs)" "list_all (\<lambda>r. length r < 256 ^ rs) rcs"
  shows "kfifo_inv_r rs f" and "kfifo_records rs f = rcs"
  using assms by (auto simp: kfifo_inv_r_def kfifo_records_def rec_dec_concat)

section \<open>Refinement of the record operations\<close>

text \<open>With one-byte elements, cell \<open>out + n\<close> of the buffer is byte \<open>n\<close> of the view.\<close>

lemma kf_view_cell:
  assumes inv: "kfifo_inv f" and e: "kf_esize f = 1" and n: "unat n < kf_size f"
    and d: "kf_data f = Some d"
  defines "i \<equiv> unat ((kf_out f + n) AND kf_mask f)"
  shows "i < length d" and "d ! i = kf_view f ! unat n"
    and "kf_view (f\<lparr>kf_data := Some (d[i := v])\<rparr>) =
      take (unat n) (kf_view f) @ [v] @ drop (Suc (unat n)) (kf_view f)"
proof -
  let ?q = "unat (kf_out f AND kf_mask f)"
  have len: "length d = kf_size f" using inv d e by (simp add: kfifo_inv_def)
  show i: "i < length d" using kf_index(2) [OF inv] len by (simp add: i_def)
  have q: "?q < length d" using kf_index(2) [OF inv] len by simp
  have iq: "i = (?q + unat n) mod length d" using kf_index_add [OF inv] len by (simp add: i_def)
  show "d ! i = kf_view f ! unat n"
    using n len d e q by (simp add: kf_view_def nth_rotate iq add.commute)
  have "rotate ?q (d[i := v]) = take (unat n) (rotate ?q d) @ [v] @
      drop (unat n + length [v]) (rotate ?q d)"
  proof (rule ring_view_write [OF q _ iq])
    show "rotate i (d[i := v]) = [v] @ drop (length [v]) (rotate i d)"
      using i rotate_drop_take [of i d] rotate_drop_take [of i "d[i := v]"]
      by (simp add: drop_update_swap Cons_nth_drop_Suc [symmetric])
  qed (use n len in auto)
  then show "kf_view (f\<lparr>kf_data := Some (d[i := v])\<rparr>) =
      take (unat n) (kf_view f) @ [v] @ drop (Suc (unat n)) (kf_view f)"
    using d e by (simp add: kf_view_def)
qed

lemma poke_bytes:
  shows "(ucast (n :: u32) :: byte) = of_nat (unat n)"
    and "(ucast (drop_bit 8 n) :: byte) = of_nat (unat n div 256)"
  by (simp_all only: ucast_of_nat_unat unat_drop_bit_eq) (simp add: drop_bit_eq_div)

lemma peek_word:
  "unat (ucast (b0 :: byte) OR push_bit 8 (ucast (b1 :: byte)) :: u32) = unat b0 + 256 * unat b1"
proof -
  let ?h = "push_bit 8 (ucast b1) :: u32"
  have "(ucast b0 :: u32) OR ?h = ucast b0 + ?h"
    by (rule disjunctive_add [symmetric]) (auto simp: bit_simps dest: bit_imp_le_length)
  moreover have b: "unat b0 < 256" "unat b1 < 256" by (rule unat_byte_lt)+
  moreover have h: "unat ?h = 256 * unat b1"
  proof -
    have "unat ?h = take_bit 32 (push_bit 8 (unat b1))"
      using b by (simp only: unsigned_push_bit_eq unsigned_ucast_eq) (simp add: take_bit_nat_eq_self)
    then show ?thesis using b by (simp add: push_bit_eq_mult take_bit_nat_eq_self mult.commute)
  qed
  moreover have "unat (ucast b0 :: u32) = unat b0"
    using b by (simp add: unsigned_ucast_eq take_bit_nat_eq_self)
  ultimately show ?thesis by (simp add: unat_add_nowrap)
qed

lemma raw_kfifo_peek_n_view:
  assumes inv: "kfifo_inv f" and e: "kf_esize f = 1" and rs: "recsize = 1 \<or> recsize = 2"
  shows "\<exists>n. raw_kfifo_peek_n f recsize = Some n \<and> unat n = hdr_val (unat recsize) (kf_view f)"
proof -
  obtain d k where d: "kf_data f = Some d" and k: "1 \<le> k" "kf_size f = 2 ^ k"
    by (rule kfifo_invE [OF inv])
  have sz: "2 \<le> kf_size f" using power_increasing [OF k(1), of "2 :: nat"] k(2) by simp
  note c0 = kf_view_cell [OF inv e, of 0 d] and c1 = kf_view_cell [OF inv e, of 1 d]
  show ?thesis
    using rs sz d c0(1,2) c1(1,2) unat_byte_lt [of "kf_view f ! 0"]
    by (auto simp: raw_kfifo_peek_n_def mem_get_def hdr_val_def peek_word
        unsigned_ucast_eq take_bit_nat_eq_self_iff)
qed

lemma raw_kfifo_poke_n_view:
  assumes inv: "kfifo_inv f" and e: "kf_esize f = 1" and rs: "recsize = 1 \<or> recsize = 2"
    and fits: "kf_len f + unat recsize \<le> kf_size f"
  shows "\<exists>d. raw_kfifo_poke_n f n recsize = Some (f\<lparr>kf_data := Some d\<rparr>) \<and> length d = kf_size f \<and>
    kf_view (f\<lparr>kf_data := Some d\<rparr>) = take (kf_len f) (kf_view f) @
      rec_hdr (unat recsize) (unat n) @ drop (kf_len f + unat recsize) (kf_view f)"
proof -
  let ?c = "of_nat (kf_len f) :: u32" and ?v = "kf_view f"
  have c: "unat ?c = kf_len f" "kf_out f + ?c = kf_in f" by (simp_all add: kf_in_out unat_kf_len)
  obtain d0 where d0: "kf_data f = Some d0" "length d0 = kf_size f * unat (kf_esize f)"
    by (rule kfifo_invE [OF inv])
  have len: "length d0 = kf_size f" "length ?v = kf_size f"
    using d0 e length_kf_view [OF inv] by simp_all
  let ?i = "unat (kf_in f AND kf_mask f)" and ?j = "unat ((kf_in f + 1) AND kf_mask f)"
  let ?b0 = "of_nat (unat n) :: byte" and ?b1 = "of_nat (unat n div 256) :: byte"
  define d1 where "d1 = d0[?i := ?b0]"
  have "0 < unat recsize" using rs by auto
  then have lt0: "unat ?c < kf_size f" using fits c(1) by linarith
  note s0 = kf_view_cell [OF inv e lt0 d0(1), unfolded c]
  have v1: "kf_view (f\<lparr>kf_data := Some d1\<rparr>) = take (kf_len f) ?v @ [?b0] @ drop (Suc (kf_len f)) ?v"
    using s0(3) by (simp add: d1_def)
  let ?f1 = "f\<lparr>kf_data := Some d1\<rparr>"
  have inv1: "kfifo_inv ?f1" "kf_esize ?f1 = 1"
    using inv e len d0 by (simp_all add: kfifo_inv_def d1_def kf_len_def kf_size_def)
  show ?thesis
  proof (cases "recsize = 1")
    case True
    then have "raw_kfifo_poke_n f n recsize = Some ?f1"
      unfolding raw_kfifo_poke_n_def poke_bytes using d0 s0(1) by (simp add: mem_set_def d1_def)
    moreover have "rec_hdr (unat recsize) (unat n) = [?b0]"
      using True unfolding rec_hdr_def by simp
    ultimately show ?thesis
      using v1 len True by (intro exI [of _ d1]) (simp add: d1_def)
  next
    case False
    then have r2: "recsize = 2" using rs by simp
    have c1: "unat (?c + 1) = Suc (kf_len f)"
      using fits r2 c(1) kf_size_lt [OF inv] by (simp add: unat_add_nowrap)
    have "kf_out f + (?c + 1) = kf_in f + 1" using c(2) by (metis add.assoc)
    then have o1: "kf_out ?f1 + (?c + 1) = kf_in f + 1" by simp
    have lt1: "unat (?c + 1) < kf_size ?f1" using c1 fits r2 by (simp add: kf_size_def)
    have s1: "?j < length d1" "kf_view (f\<lparr>kf_data := Some (d1[?j := ?b1])\<rparr>) =
        take (Suc (kf_len f)) (kf_view ?f1) @ [?b1] @ drop (Suc (Suc (kf_len f))) (kf_view ?f1)"
      using kf_view_cell(1,3) [OF inv1 lt1, of d1] unfolding c1 o1 by simp_all
    have "kf_view (f\<lparr>kf_data := Some (d1[?j := ?b1])\<rparr>) =
        take (kf_len f) ?v @ [?b0, ?b1] @ drop (kf_len f + 2) ?v"
      using s1(2) len fits r2 unfolding v1 by simp
    moreover have "raw_kfifo_poke_n f n recsize = Some (f\<lparr>kf_data := Some (d1[?j := ?b1])\<rparr>)"
      using d0 s0(1) s1(1) r2
      by (simp add: raw_kfifo_poke_n_def mem_set_def d1_def flip: poke_bytes)
    moreover have "rec_hdr (unat recsize) (unat n) = [?b0, ?b1]"
      using r2 unfolding rec_hdr_def by simp
    ultimately show ?thesis
      using len r2 by (intro exI [of _ "d1[?j := ?b1]"]) (simp add: d1_def)
  qed
qed

lemma kfifo_record_view:
  assumes f: "kfifo_inv f" "kf_esize f = 1" and rs: "recsize = 1 \<or> recsize = 2"
    and fits: "kf_len f + unat recsize + unat len \<le> kf_size f" and buf: "unat len \<le> length buf"
  shows "\<exists>d d2 bs. raw_kfifo_poke_n f len recsize = Some (f\<lparr>kf_data := Some d\<rparr>) \<and>
    kfifo_copy_in (f\<lparr>kf_data := Some d\<rparr>) buf len (kf_in f + recsize) = Some (f\<lparr>kf_data := Some d2\<rparr>) \<and>
    length d2 = kf_size f \<and>
    kf_view (f\<lparr>kf_data := Some d2\<rparr>) =
      kfifo_bytes f @ rec_enc (unat recsize) (take (unat len) buf) @ bs"
proof -
  obtain d where d: "raw_kfifo_poke_n f len recsize = Some (f\<lparr>kf_data := Some d\<rparr>)"
    "length d = kf_size f" and v: "kf_view (f\<lparr>kf_data := Some d\<rparr>) = take (kf_len f) (kf_view f) @
      rec_hdr (unat recsize) (unat len) @ drop (kf_len f + unat recsize) (kf_view f)"
    using raw_kfifo_poke_n_view [OF f rs, of len] fits by auto
  let ?g = "f\<lparr>kf_data := Some d\<rparr>"
  have g: "kfifo_inv ?g" using f d by (auto simp: kfifo_inv_def kf_size_def kf_len_def)
  have lv: "length (kf_view f) = kf_size f" using length_kf_view [OF f(1)] f(2) by simp
  have lh: "length (rec_hdr (unat recsize) (unat len)) = unat recsize"
    using rs by (intro length_rec_hdr) auto
  have c: "unat (of_nat (kf_len f) + recsize) = kf_len f + unat recsize"
    using fits kf_size_lt [OF f(1)] by (subst unat_add_nowrap) (auto simp: unat_kf_len)
  have i: "kf_out ?g + (of_nat (kf_len f) + recsize) = kf_in f + recsize"
    using kf_in_out [of f] by (simp add: add.assoc [symmetric])
  obtain d2 where d2: "kfifo_copy_in ?g buf len (kf_in f + recsize) = Some (f\<lparr>kf_data := Some d2\<rparr>)"
    "length d2 = kf_size f" and "kf_view (f\<lparr>kf_data := Some d2\<rparr>) =
      take (kf_len f + unat recsize) (kf_view ?g) @ take (unat len) buf @
      drop (kf_len f + unat recsize + unat len) (kf_view ?g)"
    using kfifo_copy_in_view [OF g, of "of_nat (kf_len f) + recsize" len buf] fits buf f(2)
    unfolding i by (auto simp: c kf_size_def)
  then have "kf_view (f\<lparr>kf_data := Some d2\<rparr>) = kfifo_bytes f @
      rec_enc (unat recsize) (take (unat len) buf) @
      drop (kf_len f + unat recsize + unat len) (kf_view ?g)"
    using v lv lh fits f(2) buf by (simp add: kfifo_bytes_def rec_enc_def min_def)
  with d(1) d2 show ?thesis by blast
qed

text \<open>A record is stored whole or not at all.\<close>

lemma raw_kfifo_in_r_refines:
  assumes inv: "kfifo_inv_r (unat recsize) f" and buf: "unat len \<le> length buf"
    and small: "unat len < 256 ^ unat recsize"
  shows "if kf_len f + unat recsize + unat len \<le> kf_size f
    then \<exists>f'. raw_kfifo_in_r f buf len recsize = Some (len, f') \<and> kfifo_inv_r (unat recsize) f' \<and>
      kf_size f' = kf_size f \<and> kf_in f' = kf_in f + (len + recsize) \<and>
      kfifo_records (unat recsize) f' = kfifo_records (unat recsize) f @ [take (unat len) buf]
    else raw_kfifo_in_r f buf len recsize = Some (0, f)"
proof -
  have f: "kfifo_inv f" "kf_esize f = 1" and rs: "recsize = 1 \<or> recsize = 2"
    using inv by (auto simp: kfifo_inv_r_def word_unat_eq_iff)
  have "unat len < 65536" using small rs by auto
  then have sum: "unat (len + recsize) = unat len + unat recsize"
    using rs by (subst unat_add_nowrap) auto
  have le: "kf_len f \<le> kf_size f" by (rule kfifo_invE [OF f(1)])
  have full: "len + recsize > kfifo_unused f \<longleftrightarrow> \<not> kf_len f + unat recsize + unat len \<le> kf_size f"
    using sum kfifo_unused_unat [OF f(1)] le by (auto simp: word_less_nat_alt)
  show ?thesis
  proof (cases "kf_len f + unat recsize + unat len \<le> kf_size f")
    case True
    let ?r = "take (unat len) buf" and ?rs = "unat recsize"
    obtain d d2 bs where d: "raw_kfifo_poke_n f len recsize = Some (f\<lparr>kf_data := Some d\<rparr>)"
      "kfifo_copy_in (f\<lparr>kf_data := Some d\<rparr>) buf len (kf_in f + recsize) = Some (f\<lparr>kf_data := Some d2\<rparr>)"
      "length d2 = kf_size f"
      and v: "kf_view (f\<lparr>kf_data := Some d2\<rparr>) = kfifo_bytes f @ rec_enc ?rs ?r @ bs"
      using kfifo_record_view [OF f rs True buf] by blast
    have lb: "length (kfifo_bytes f) = kf_len f" using kf_view_bytes(1) [OF f(1)] f(2) by simp
    have lr: "length (rec_enc ?rs ?r) = unat len + ?rs"
      using buf inv by (simp add: rec_enc_def length_rec_hdr kfifo_inv_r_def)
    let ?h = "f\<lparr>kf_data := Some d2, kf_in := kf_in f + (len + recsize)\<rparr>"
    have v2: "take (kf_len f * unat (kf_esize f)) (kf_view (f\<lparr>kf_data := Some d2\<rparr>)) = kfifo_bytes f"
      using v lb f(2) by simp
    have fits: "kf_len f + unat (len + recsize) \<le> kf_size f" using True sum by simp
    have h: "kfifo_inv ?h" "kfifo_bytes ?h = kfifo_bytes f @ rec_enc ?rs ?r"
      using kfifo_advance_in [OF f(1) fits _ v2] d(3) f(2) v lb lr sum by auto
    have "kfifo_bytes ?h = concat (map (rec_enc ?rs) (kfifo_records ?rs f @ [?r]))"
      "list_all (\<lambda>r. length r < 256 ^ ?rs) (kfifo_records ?rs f @ [?r])"
      using h inv small buf by (auto simp: kfifo_inv_r_def)
    note kfifo_inv_rI [OF h(1) _ _ this]
    moreover have "raw_kfifo_in_r f buf len recsize = Some (len, ?h)"
      using full True d by (simp add: raw_kfifo_in_r_def)
    ultimately show ?thesis using True f(2) rs by (auto simp: kf_size_def)
  next
    case False
    then show ?thesis using full by (simp add: raw_kfifo_in_r_def)
  qed
qed

text \<open>The oldest record, seen at the front of the view.\<close>

lemma kfifo_head_record:
  assumes inv: "kfifo_inv_r (unat recsize) f" and ne: "kf_in f \<noteq> kf_out f"
  shows "\<exists>r rcs n. kfifo_records (unat recsize) f = r # rcs \<and>
    kfifo_bytes f = rec_enc (unat recsize) r @ concat (map (rec_enc (unat recsize)) rcs) \<and>
    raw_kfifo_peek_n f recsize = Some n \<and> unat n = length r \<and>
    unat (n + recsize) = unat recsize + length r \<and> unat recsize + length r \<le> kf_len f \<and>
    take (length r) (drop (unat recsize) (kf_view f)) = r"
proof -
  let ?rs = "unat recsize"
  have f: "kfifo_inv f" "kf_esize f = 1" and rs: "recsize = 1 \<or> recsize = 2" "?rs = 1 \<or> ?rs = 2"
    using inv by (auto simp: kfifo_inv_r_def word_unat_eq_iff)
  have lb: "length (kfifo_bytes f) = kf_len f" using kf_view_bytes(1) [OF f(1)] f(2) by simp
  have "kf_len f \<noteq> 0" using ne by (simp add: kf_len_def unat_eq_0)
  then obtain r rcs where r: "kfifo_records ?rs f = r # rcs"
    using inv lb by (cases "kfifo_records ?rs f") (auto simp: kfifo_inv_r_def)
  then have b: "kfifo_bytes f = rec_enc ?rs r @ concat (map (rec_enc ?rs) rcs)"
    and small: "length r < 256 ^ ?rs"
    using inv by (auto simp: kfifo_inv_r_def)
  obtain n where n: "raw_kfifo_peek_n f recsize = Some n" "unat n = hdr_val ?rs (kf_view f)"
    using raw_kfifo_peek_n_view [OF f rs(1)] by blast
  obtain bs where v: "kf_view f = rec_hdr ?rs (length r) @ r @ bs"
  proof
    show "kf_view f = rec_hdr ?rs (length r) @ r @
        concat (map (rec_enc ?rs) rcs) @ drop (kf_len f * unat (kf_esize f)) (kf_view f)"
      using append_take_drop_id [of "kf_len f * unat (kf_esize f)" "kf_view f"] b
      by (simp only: kfifo_bytes_def rec_enc_def append_assoc)
  qed
  then have nr: "unat n = length r" using n(2) hdr_val_rec_hdr [OF rs(2) small] by simp
  have le: "?rs + length r \<le> kf_len f" using b lb rs(2) by (simp add: rec_enc_def length_rec_hdr)
  have "kf_len f < 2 ^ 32" by (simp add: kf_len_def unat_less_2p32)
  then have "unat (n + recsize) = ?rs + length r" using le nr by (subst unat_add_nowrap) auto
  moreover have "take (length r) (drop ?rs (kf_view f)) = r"
    using v length_rec_hdr [OF rs(2), of "length r"] by simp
  ultimately show ?thesis using r b n(1) nr le by blast
qed

text \<open>A record is removed whole; a reader with a short buffer gets its beginning.\<close>

lemma raw_kfifo_out_r_refines:
  assumes inv: "kfifo_inv_r (unat recsize) f"
  shows "case kfifo_records (unat recsize) f of
      [] \<Rightarrow> raw_kfifo_out_r f len recsize = Some (0, [], f) \<and>
        raw_kfifo_out_peek_r f len recsize = Some (0, [])
    | r # rcs \<Rightarrow> \<exists>n f'. raw_kfifo_out_r f len recsize = Some (n, take (unat len) r, f') \<and>
        raw_kfifo_out_peek_r f len recsize = Some (n, take (unat len) r) \<and>
        raw_kfifo_skip_r f recsize = Some f' \<and> raw_kfifo_len_r f recsize = Some (of_nat (length r)) \<and>
        unat n = min (unat len) (length r) \<and> kfifo_inv_r (unat recsize) f' \<and>
        kf_size f' = kf_size f \<and> kfifo_records (unat recsize) f' = rcs"
proof (cases "kf_in f = kf_out f")
  case True
  then have "kfifo_bytes f = []" by (simp add: kfifo_bytes_def kf_len_def)
  then have "kfifo_records (unat recsize) f = []"
    using inv by (simp add: kfifo_records_def rec_dec_Nil kfifo_inv_r_def)
  with True show ?thesis by (simp add: raw_kfifo_out_r_def raw_kfifo_out_peek_r_def)
next
  case False
  let ?rs = "unat recsize"
  obtain r rcs n where r: "kfifo_records ?rs f = r # rcs"
    and b: "kfifo_bytes f = rec_enc ?rs r @ concat (map (rec_enc ?rs) rcs)"
    and n: "raw_kfifo_peek_n f recsize = Some n" "unat n = length r"
    "unat (n + recsize) = ?rs + length r" "?rs + length r \<le> kf_len f"
    and v: "take (length r) (drop ?rs (kf_view f)) = r"
    using kfifo_head_record [OF inv False] by blast
  have f: "kfifo_inv f" "kf_esize f = 1" "?rs = 1 \<or> ?rs = 2"
    using inv by (auto simp: kfifo_inv_r_def)
  define m where "m = (if len > n then n else len)"
  have m: "unat m = min (unat len) (length r)" using n(2) by (simp add: m_def clamp_unat)
  have "kf_len f \<le> kf_size f" by (rule kfifo_invE [OF f(1)])
  then have "kfifo_copy_out f m (kf_out f + recsize) = Some (take (unat m) (drop ?rs (kf_view f)))"
    using kfifo_copy_out_view [OF f(1), of recsize m] m n(4) f(2) by simp
  also have "take (unat m) (drop ?rs (kf_view f)) = take (unat len) r"
    using arg_cong [OF v, of "take (unat m)"] m by (cases "unat len \<le> length r") simp_all
  finally have cp: "kfifo_out_copy_r f len recsize = Some (m, n, take (unat len) r)"
    using n(1) by (simp add: kfifo_out_copy_r_def m_def)
  let ?f = "f\<lparr>kf_out := kf_out f + (n + recsize)\<rparr>"
  have le: "unat (n + recsize) \<le> kf_len f" using n by simp
  have "kfifo_bytes ?f = concat (map (rec_enc ?rs) rcs)"
    using kfifo_advance_out(3) [OF f(1) le] f b n(3) by (simp add: rec_enc_def length_rec_hdr)
  moreover have "list_all (\<lambda>r. length r < 256 ^ ?rs) rcs" using inv r by (simp add: kfifo_inv_r_def)
  ultimately have "kfifo_inv_r ?rs ?f" "kfifo_records ?rs ?f = rcs"
    using kfifo_inv_rI [OF kfifo_advance_out(1) [OF f(1) le]] f by auto
  moreover have "n = of_nat (length r)" by (simp flip: n(2))
  ultimately show ?thesis
    using False r cp n(1) m
    by (auto simp: raw_kfifo_out_r_def raw_kfifo_out_peek_r_def raw_kfifo_skip_r_def
        raw_kfifo_len_r_def kf_size_def)
qed

text \<open>A caller learns from \<open>kfifo_len\<close> whether the record was accepted; a reader passes a buffer
  at least as long as the largest record.\<close>

definition kfifo_put_r :: "u32 \<Rightarrow> kfifo \<Rightarrow> byte list \<Rightarrow> (byte list list \<times> kfifo) option" where
  "kfifo_put_r recsize f r =
     do {
       (n, f') \<leftarrow> raw_kfifo_in_r f r (of_nat (length r)) recsize;
       Some (if kf_in f' = kf_in f then [] else [r], f')
     }"

definition kfifo_get_r :: "u32 \<Rightarrow> kfifo \<Rightarrow> u32 \<Rightarrow> (byte list list \<times> kfifo) option" where
  "kfifo_get_r recsize f extra =
     do {
       (n, b, f') \<leftarrow> raw_kfifo_out_r f (max extra 65535) recsize;
       Some (if kf_out f' = kf_out f then [] else [b], f')
     }"

lemma kfifo_put_r_law:
  assumes inv: "kfifo_inv_r (unat recsize) f" and small: "length r < 256 ^ unat recsize"
  shows "\<exists>xs f'. kfifo_put_r recsize f r = Some (xs, f') \<and> kfifo_inv_r (unat recsize) f' \<and>
    kfifo_records (unat recsize) f' = kfifo_records (unat recsize) f @ xs"
proof -
  let ?len = "of_nat (length r) :: u32"
  have rs: "recsize = 1 \<or> recsize = 2"
    using inv by (auto simp: kfifo_inv_r_def word_unat_eq_iff)
  then have lt: "length r < 65536" using small by auto
  then have len: "unat ?len = length r" by (simp add: unat_of_nat)
  have "unat (?len + recsize) = length r + unat recsize"
    using rs lt len by (subst unat_add_nowrap) auto
  then have "?len + recsize \<noteq> 0" using rs by auto
  then have ne: "kf_in f + (?len + recsize) \<noteq> kf_in f" by simp
  note ref = raw_kfifo_in_r_refines [OF inv, of ?len r]
  show ?thesis
  proof (cases "kf_len f + unat recsize + unat ?len \<le> kf_size f")
    case True
    then obtain f' where "raw_kfifo_in_r f r ?len recsize = Some (?len, f')"
      "kfifo_inv_r (unat recsize) f'" "kf_in f' = kf_in f + (?len + recsize)"
      "kfifo_records (unat recsize) f' = kfifo_records (unat recsize) f @ [r]"
      using ref small len by auto
    then show ?thesis using ne by (simp only: kfifo_put_r_def) simp
  next
    case False
    then have "raw_kfifo_in_r f r ?len recsize = Some (0, f)"
      using ref small len by auto
    then show ?thesis using inv by (simp add: kfifo_put_r_def)
  qed
qed

lemma kfifo_get_r_law:
  assumes inv: "kfifo_inv_r (unat recsize) f"
  shows "\<exists>xs f'. kfifo_get_r recsize f extra = Some (xs, f') \<and> kfifo_inv_r (unat recsize) f' \<and>
    kfifo_records (unat recsize) f = xs @ kfifo_records (unat recsize) f' \<and>
    length xs = min 1 (length (kfifo_records (unat recsize) f))"
proof (cases "kfifo_records (unat recsize) f")
  case Nil
  then show ?thesis
    using raw_kfifo_out_r_refines [OF inv, of "max extra 65535"] inv by (simp add: kfifo_get_r_def)
next
  case (Cons r rcs)
  have "length r < 256 ^ unat recsize" "unat recsize = 1 \<or> unat recsize = 2"
    using inv Cons by (auto simp: kfifo_inv_r_def)
  then have "length r \<le> 65535" by auto
  moreover have "65535 \<le> unat (max extra 65535)"
    using word_le_nat_alt [of "65535 :: u32" "max extra 65535"] by simp
  ultimately have t: "take (unat (max extra 65535)) r = r" by simp
  obtain n f' where o: "raw_kfifo_out_r f (max extra 65535) recsize = Some (n, r, f')"
    "kfifo_inv_r (unat recsize) f'" "kfifo_records (unat recsize) f' = rcs"
    using raw_kfifo_out_r_refines [OF inv, of "max extra 65535"] Cons t by auto
  have "kf_out f' \<noteq> kf_out f"
  proof
    assume "kf_out f' = kf_out f"
    moreover have "f' = f\<lparr>kf_out := kf_out f'\<rparr>"
      using o(1) by (auto simp: raw_kfifo_out_r_def split: if_splits bind_splits)
    ultimately have "f' = f" by simp
    then show False using o(3) Cons by simp
  qed
  with o show ?thesis using Cons by (simp add: kfifo_get_r_def)
qed

interpretation krq: fifo "kfifo_inv_r (unat recsize)" "kfifo_records (unat recsize)"
  "\<lambda>r. length r < 256 ^ unat recsize" "kfifo_put_r recsize" "kfifo_get_r recsize"
  for recsize
proof
  fix f n
  assume "kfifo_inv_r (unat recsize) f"
  from kfifo_get_r_law [OF this, of n]
  show "\<exists>xs f'. kfifo_get_r recsize f n = Some (xs, f') \<and> kfifo_inv_r (unat recsize) f' \<and>
      kfifo_records (unat recsize) f = xs @ kfifo_records (unat recsize) f'" by blast
qed (rule kfifo_put_r_law)

text \<open>
  Progress.  A removal delivers as many elements as it is asked for, or all there are; a record
  removal delivers one record.
\<close>

interpretation kfl: fifo_progress "\<lambda>f. kfifo_inv f \<and> kf_esize f = e" kfifo_bytes
  "\<lambda>(buf, len). unat len * unat e \<le> length buf" kfifo_put kfifo_get "\<lambda>len. unat len * unat e"
  for e
proof
  fix f n xs f'
  assume f: "kfifo_inv f \<and> kf_esize f = e" and g: "kfifo_get f n = Some (xs, f')"
  define m where "m = min (unat n) (kf_len f)"
  have m: "xs = take (m * unat e) (kfifo_bytes f)"
    using raw_kfifo_out_refines [of f n] f g by (auto simp: kfifo_get_def m_def)
  have "length (kfifo_bytes f) = kf_len f * unat e" using kf_view_bytes(1) f by blast
  moreover have "m \<le> kf_len f" "min (unat n * k) (kf_len f * k) = m * k" for k
    by (cases "unat n \<le> kf_len f"; simp add: m_def min_def)+
  ultimately show "length xs = min (unat n * unat e) (length (kfifo_bytes f))"
    by (simp add: m)
qed

interpretation krl: fifo_progress "kfifo_inv_r (unat recsize)" "kfifo_records (unat recsize)"
  "\<lambda>r. length r < 256 ^ unat recsize" "kfifo_put_r recsize" "kfifo_get_r recsize" "\<lambda>_. 1"
  for recsize
proof
  fix f n xs f'
  assume "kfifo_inv_r (unat recsize) f" "kfifo_get_r recsize f n = Some (xs, f')"
  then show "length xs = min 1 (length (kfifo_records (unat recsize) f))"
    using kfifo_get_r_law [of recsize f n] by fastforce
qed

section \<open>Correctness\<close>

text \<open>
  C1. FIFO order.  From any well-formed FIFO, any sequence of \<open>__kfifo_in\<close> and \<open>__kfifo_out\<close>
  calls whose source buffers hold what their length argument says runs without a fault, keeps the
  invariant, and the bytes held at the start followed by all bytes accepted are the bytes
  delivered followed by the bytes held at the end, whatever the wrap-around of the indices.
\<close>

theorem kfifo_fifo_order:
  assumes "kfifo_inv f" and "puts_ok (\<lambda>(buf, len). unat len * unat (kf_esize f) \<le> length buf) ops"
  shows "\<exists>ins outs f'. fifo_run kfifo_put kfifo_get f ops = Some (ins, outs, f') \<and> kfifo_inv f' \<and>
    kf_esize f' = kf_esize f \<and> kfifo_bytes f @ ins = outs @ kfifo_bytes f'"
  using kfq.run_fifo [of f "kf_esize f" ops] assms by auto

definition kf_demo :: kfifo where
  "kf_demo = \<lparr>kf_in = 1, kf_out = 0xFFFFFFFF, kf_mask = 3, kf_esize = 2,
     kf_data = Some [3, 4, 0, 0, 0, 0, 1, 2]\<rparr>"

lemma kf_demo_inv: "kfifo_inv kf_demo"
  by (auto simp: kf_demo_def kfifo_inv_def list_ex_iff kf_len_def kf_size_def mask_eq_exp_minus_1
      intro!: bexI [of _ 2])

theorem kfifo_fifo_order_witness:
  "\<exists>ins outs f'. fifo_run kfifo_put kfifo_get kf_demo
      [Put ([5, 6, 7, 8, 9, 10], 3), Get 3, Put ([11, 12], 1)] = Some (ins, outs, f') \<and> kfifo_inv f' \<and>
    kf_esize f' = kf_esize kf_demo \<and> kfifo_bytes kf_demo @ ins = outs @ kfifo_bytes f'"
  by (rule kfifo_fifo_order) (simp_all add: kf_demo_inv, simp add: kf_demo_def)

text \<open>
  C2. \<open>__kfifo_in\<close> accepts as many elements as fit, \<open>min len (size - used)\<close>, and appends exactly
  those; the FIFO stays well-formed and keeps its size.
\<close>

theorem kfifo_in_exact:
  assumes "kfifo_inv f" and "unat len * unat (kf_esize f) \<le> length buf"
  shows "\<exists>n f'. raw_kfifo_in f buf len = Some (n, f') \<and> kfifo_inv f' \<and> kf_size f' = kf_size f \<and>
    unat n = min (unat len) (kf_size f - kf_len f) \<and> kf_len f' = kf_len f + unat n \<and>
    kfifo_bytes f' = kfifo_bytes f @ take (unat n * unat (kf_esize f)) buf"
proof -
  obtain n f' where f': "raw_kfifo_in f buf len = Some (n, f')" "kfifo_inv f'"
    "kf_esize f' = kf_esize f" "kf_size f' = kf_size f" "unat n = min (unat len) (kf_size f - kf_len f)"
    "kfifo_bytes f' = kfifo_bytes f @ take (unat n * unat (kf_esize f)) buf"
    using raw_kfifo_in_refines [OF assms] by blast
  have "kf_len f' * unat (kf_esize f) = (kf_len f + unat n) * unat (kf_esize f)"
    using arg_cong [OF f'(6), of length] kf_view_bytes(1) [OF assms(1)] kf_view_bytes(1) [OF f'(2)] f'
      order_trans [OF mult_le_mono1 assms(2), of "unat n"]
    by (simp add: add_mult_distrib)
  moreover have "0 < unat (kf_esize f)" by (rule kfifo_invE [OF assms(1)])
  ultimately show ?thesis using f' by auto
qed

theorem kfifo_in_exact_witness:
  "\<exists>n f'. raw_kfifo_in kf_demo [5, 6, 7, 8, 9, 10] 3 = Some (n, f') \<and> kfifo_inv f' \<and>
    kf_size f' = kf_size kf_demo \<and>
    unat n = min (unat (3 :: u32)) (kf_size kf_demo - kf_len kf_demo) \<and> kf_len f' = kf_len kf_demo + unat n \<and>
    kfifo_bytes f' = kfifo_bytes kf_demo @ take (unat n * unat (kf_esize kf_demo)) [5, 6, 7, 8, 9, 10]"
  by (rule kfifo_in_exact) (simp_all add: kf_demo_inv, simp add: kf_demo_def)

text \<open>
  C3. Record FIFOs.  From any well-formed record FIFO with a one- or two-byte length header, any
  sequence of record insertions below the header's limit and record removals runs without a
  fault, and the records held at the start followed by those accepted are the records delivered
  followed by those held at the end: records are never split, merged or reordered.
\<close>

theorem kfifo_record_order:
  assumes "kfifo_inv_r (unat recsize) f"
    and "puts_ok (\<lambda>r. length r < 256 ^ unat recsize) ops"
  shows "\<exists>ins outs f'. fifo_run (kfifo_put_r recsize) (kfifo_get_r recsize) f ops = Some (ins, outs, f') \<and>
    kfifo_inv_r (unat recsize) f' \<and>
    kfifo_records (unat recsize) f @ ins = outs @ kfifo_records (unat recsize) f'"
  using assms by (rule krq.run_fifo)

definition kf_demo_r :: kfifo where
  "kf_demo_r = \<lparr>kf_in = 1, kf_out = 0xFFFFFFFE, kf_mask = 7, kf_esize = 1,
     kf_data = Some [8, 0, 0, 0, 0, 0, 2, 7]\<rparr>"

lemma kf_demo_r_facts:
  "kfifo_inv kf_demo_r" "kfifo_bytes kf_demo_r = concat (map (rec_enc 1) [[7, 8]])"
proof -
  show "kfifo_inv kf_demo_r"
    by (auto simp: kf_demo_r_def kfifo_inv_def list_ex_iff kf_len_def kf_size_def
        mask_eq_exp_minus_1 intro!: bexI [of _ 3])
  show "kfifo_bytes kf_demo_r = concat (map (rec_enc 1) [[7, 8]])"
    by (simp add: kfifo_bytes_def kf_view_def kf_len_def kf_demo_r_def rec_enc_def rec_hdr_def
        rotate_drop_take)
qed

lemma kf_demo_r_inv: "kfifo_inv_r 1 kf_demo_r" "kfifo_records 1 kf_demo_r = [[7, 8]]"
  using kfifo_inv_rI [OF kf_demo_r_facts(1) _ _ kf_demo_r_facts(2)] by (simp_all add: kf_demo_r_def)

theorem kfifo_record_order_witness:
  "\<exists>ins outs f'. fifo_run (kfifo_put_r 1) (kfifo_get_r 1) kf_demo_r
      [Put [1, 2, 3], Put [4, 5], Get 0, Put [6]] = Some (ins, outs, f') \<and>
    kfifo_inv_r (unat (1 :: u32)) f' \<and>
    kfifo_records (unat (1 :: u32)) kf_demo_r @ ins = outs @ kfifo_records (unat (1 :: u32)) f'"
  by (rule kfifo_record_order) (simp_all add: kf_demo_r_inv(1) [simplified])



text \<open>
  C5. Transfers from user space.  Whatever part of its source \<open>copy_from_user\<close> manages to copy,
  \<open>__kfifo_from_user\<close> appends only whole elements that were really copied: the FIFO stays
  well-formed and grows by a prefix of the source; without \<open>EFAULT\<close> it grows by all the elements
  that fit.
\<close>

theorem kfifo_from_user_correct:
  assumes inv: "kfifo_inv f" and law: "cfu_law cfu"
    and big: "kf_size f * unat (kf_esize f) \<le> 2 ^ 31"
  shows "\<exists>err cp f' n. raw_kfifo_from_user cfu f src len = Some (err, cp, f') \<and> kfifo_inv f' \<and>
    kf_len f' = kf_len f + n \<and> n * unat (kf_esize f) \<le> length src \<and>
    kfifo_bytes f' = kfifo_bytes f @ take (n * unat (kf_esize f)) src \<and>
    (err = Inr () \<and> n = min (unat len div unat (kf_esize f)) (kf_size f - kf_len f) \<or>
     err = Inl EFAULT \<and> n < min (unat len div unat (kf_esize f)) (kf_size f - kf_len f))"
proof -
  let ?e = "unat (kf_esize f)"
  define l where "l = (if (if kf_esize f \<noteq> 1 then len div kf_esize f else len) > kfifo_unused f
    then kfifo_unused f else (if kf_esize f \<noteq> 1 then len div kf_esize f else len))"
  have l: "unat l = min (unat len div ?e) (kf_size f - kf_len f)"
    using kfifo_unused_unat [OF inv] by (simp add: l_def clamp_unat unat_div)
  have le: "kf_len f \<le> kf_size f" by (rule kfifo_invE [OF inv])
  then have fits: "unat (of_nat (kf_len f) :: u32) + unat l \<le> kf_size f"
    using l by (simp add: unat_kf_len)
  obtain ret cp d bs where d: "kfifo_copy_from_user cfu f src l (kf_in f) = Some (ret, cp, f\<lparr>kf_data := Some d\<rparr>)"
    "length d = kf_size f * ?e" "unat ret \<le> unat l" "(unat l - unat ret) * ?e \<le> length src"
    and v: "kf_view (f\<lparr>kf_data := Some d\<rparr>) =
      take (kf_len f * ?e) (kf_view f) @ take ((unat l - unat ret) * ?e) src @ bs"
    using kfifo_copy_from_user_view [OF inv law fits big, of src, unfolded kf_in_out unat_kf_len] by blast
  have n: "unat (l - ret) = unat l - unat ret" using d(3) by (rule unat_sub_nowrap)
  let ?f = "f\<lparr>kf_data := Some d, kf_in := kf_in f + (l - ret)\<rparr>"
  have run: "raw_kfifo_from_user cfu f src len =
      Some (if ret \<noteq> 0 then Inl EFAULT else Inr (), cp, ?f)"
    using d(1) by (simp add: raw_kfifo_from_user_def l_def Let_def)
  have fit2: "kf_len f + unat (l - ret) \<le> kf_size f" using l le n by simp
  have v2: "take (kf_len f * ?e) (kf_view (f\<lparr>kf_data := Some d\<rparr>)) = kfifo_bytes f"
    using v kf_view_bytes [OF inv] by simp
  note adv = kfifo_advance_in [OF inv fit2 d(2) v2]
  have b: "kfifo_bytes ?f = kfifo_bytes f @ take ((unat l - unat ret) * ?e) src"
    using adv(3) v d(4) kf_view_bytes [OF inv] n by (simp add: min_def)
  have short: "unat l - unat ret < unat l" if "ret \<noteq> 0"
    using that d(3) by (metis diff_less le_0_eq neq0_conv unat_eq_zero)
  show ?thesis
    by (rule exI, rule exI, rule exI, rule exI [of _ "unat l - unat ret"],
        intro conjI, rule run, rule adv(1), simp only: adv(2) n, rule d(4), rule b)
      (use short l in \<open>cases "ret = 0"; simp\<close>)
qed

text \<open>An access limited to the first three bytes.\<close>

definition cfu_demo :: cfu where
  "cfu_demo src n = (take (min n 3) src @ replicate (n - min (min n 3) (length src)) 0,
     n - min (min n 3) (length src))"

lemma cfu_demo_law: "cfu_law cfu_demo"
  by (auto simp: cfu_law_def cfu_demo_def min_def)

theorem kfifo_from_user_correct_witness:
  "\<exists>err cp f' n. raw_kfifo_from_user cfu_demo kf_demo [5, 6, 7, 8] 4 = Some (err, cp, f') \<and> kfifo_inv f' \<and>
    kf_len f' = kf_len kf_demo + n \<and> n * unat (kf_esize kf_demo) \<le> length ([5, 6, 7, 8] :: byte list) \<and>
    kfifo_bytes f' = kfifo_bytes kf_demo @ take (n * unat (kf_esize kf_demo)) [5, 6, 7, 8] \<and>
    (err = Inr () \<and> n = min (unat (4 :: u32) div unat (kf_esize kf_demo)) (kf_size kf_demo - kf_len kf_demo) \<or>
     err = Inl EFAULT \<and> n < min (unat (4 :: u32) div unat (kf_esize kf_demo)) (kf_size kf_demo - kf_len kf_demo))"
  by (rule kfifo_from_user_correct) (simp_all add: kf_demo_inv cfu_demo_law, simp add: kf_demo_def kf_size_def)

text \<open>
  C10. Delivery.  Whatever a FIFO holds is delivered: in any sequence of insertions and removals, as
  soon as the removals have asked for as much as the FIFO held at the start, all of that has come out,
  first and in order, however much was inserted in between; what came out after it and what is left
  are exactly the insertions.  For record FIFOs one removal asks for one record.
\<close>

theorem kfifo_delivers:
  assumes "kfifo_inv f" and "puts_ok (\<lambda>(buf, len). unat len * unat (kf_esize f) \<le> length buf) ops"
    and "length (kfifo_bytes f) \<le> asked (\<lambda>len. unat len * unat (kf_esize f)) ops"
    and "kfifo_inv_r (unat recsize) g" and "puts_ok (\<lambda>r. length r < 256 ^ unat recsize) rops"
    and "length (kfifo_records (unat recsize) g) \<le> asked (\<lambda>_. 1) rops"
  shows "(\<exists>ins rest f'. fifo_run kfifo_put kfifo_get f ops = Some (ins, kfifo_bytes f @ rest, f') \<and>
      kfifo_inv f' \<and> ins = rest @ kfifo_bytes f') \<and>
    (\<exists>ins rest g'. fifo_run (kfifo_put_r recsize) (kfifo_get_r recsize) g rops =
        Some (ins, kfifo_records (unat recsize) g @ rest, g') \<and>
      kfifo_inv_r (unat recsize) g' \<and> ins = rest @ kfifo_records (unat recsize) g')"
  using kfl.run_delivers [of f "kf_esize f" ops] krl.run_delivers [of recsize g rops] assms by blast

theorem kfifo_delivers_witness:
  "(\<exists>ins rest f'. fifo_run kfifo_put kfifo_get kf_demo [Put ([5, 6], 1), Get 1, Put ([7, 8], 1), Get 2] =
      Some (ins, kfifo_bytes kf_demo @ rest, f') \<and> kfifo_inv f' \<and> ins = rest @ kfifo_bytes f') \<and>
   (\<exists>ins rest g'. fifo_run (kfifo_put_r 1) (kfifo_get_r 1) kf_demo_r [Get 8] =
      Some (ins, kfifo_records (unat (1 :: u32)) kf_demo_r @ rest, g') \<and>
      kfifo_inv_r (unat (1 :: u32)) g' \<and> ins = rest @ kfifo_records (unat (1 :: u32)) g')"
proof (rule kfifo_delivers)
  show "length (kfifo_bytes kf_demo) \<le> asked (\<lambda>len. unat len * unat (kf_esize kf_demo))
      [Put ([5, 6 :: byte], 1 :: u32), Get (1 :: u32), Put ([7, 8], 1), Get 2]"
    using kf_view_bytes(1) [OF kf_demo_inv] by (simp add: kf_demo_def kf_len_def)
  show "length (kfifo_records (unat (1 :: u32)) kf_demo_r) \<le> asked (\<lambda>_. 1) [Get (8 :: u32) :: (byte list, u32) fifo_op]"
    using kf_demo_r_inv(2) by simp
qed (simp_all add: kf_demo_inv kf_demo_r_inv(1) [simplified], simp add: kf_demo_def)

end
