(* ===== verification/Skb.thy ===== *)
theory Skb
  imports Kernel_Prelude
begin

text \<open>
  Socket buffers (\<^verbatim>\<open>include/linux/skbuff.h\<close>, \<^verbatim>\<open>net/core/skbuff.c\<close>) and netlink
  attributes (\<^verbatim>\<open>include/net/netlink.h\<close>, \<^verbatim>\<open>lib/nlattr.c\<close>) as the packet filter uses them.

  A buffer has a linear part, page fragments and a list of further buffers.  \<open>skb_head\<close> holds
  the bytes from \<open>head\<close> to the tail pointer; pointers into it are offsets from \<open>head\<close>, and the
  two header pointers are integers because nothing bounds them.  \<open>len\<close> and \<open>data_len\<close>, which
  the kernel keeps equal to the sizes of the parts, are computed from them.  A read outside the
  bytes of a part is a fault, \<open>None\<close>.
\<close>

section \<open>Socket buffers\<close>

record net_device =
  nd_ifindex :: u32
  nd_type :: u16

record skb_meta =
  sm_protocol :: u16
  sm_pkt_type :: u8
  sm_dev :: "net_device option"
  sm_mark :: u32
  sm_queue_mapping :: u16
  sm_rxhash :: u32

datatype sk_buff =
  Sk_buff (skb_head: "byte list") (skb_data: nat) (skb_network_header: int) (skb_mac_header: int)
    (skb_frags: "byte list list") (skb_frag_list: "sk_buff list") (skb_meta: skb_meta)

definition skb_linear :: "sk_buff \<Rightarrow> byte list" where
  "skb_linear skb = drop (skb_data skb) (skb_head skb)"

definition skb_headlen :: "sk_buff \<Rightarrow> nat" where
  "skb_headlen skb = length (skb_head skb) - skb_data skb"

fun skb_len :: "sk_buff \<Rightarrow> nat" where
  "skb_len (Sk_buff hed dt nh mh frags fl m) =
     (length hed - dt) + sum_list (map length frags) + sum_list (map skb_len fl)"

definition skb_is_nonlinear :: "sk_buff \<Rightarrow> bool" where
  "skb_is_nonlinear skb \<longleftrightarrow> skb_len skb - skb_headlen skb \<noteq> 0"

text \<open>The packet as one sequence of bytes.\<close>

fun skb_bytes :: "sk_buff \<Rightarrow> byte list" where
  "skb_bytes (Sk_buff hed dt nh mh frags fl m) =
     drop dt hed @ concat frags @ concat (map skb_bytes fl)"

text \<open>
  The loop over the page fragments: \<open>Inl\<close> when the routine returns 0 inside it, otherwise what
  was copied, the position reached and the length still to copy.
\<close>

fun copy_frags ::
  "byte list list \<Rightarrow> nat \<Rightarrow> nat \<Rightarrow> nat \<Rightarrow> byte list \<Rightarrow>
    (byte list + byte list \<times> nat \<times> nat \<times> nat) option" where
  "copy_frags [] start offset len to = Some (Inr (to, start, offset, len))"
| "copy_frags (f # fs) start offset len to =
     (let e = start + length f in
      if offset < start then None
      else if e > offset
      then (let copy = min (e - offset) len in
            do {
              bs \<leftarrow> mem_read f (offset - start) copy;
              if len - copy = 0 then Some (Inl (to @ bs))
              else copy_frags fs e (offset + copy) (len - copy) (to @ bs)
            })
      else copy_frags fs e offset len to)"

text \<open>The copied bytes, or \<open>Inl EFAULT\<close>.\<close>

function skb_copy_bits :: "sk_buff \<Rightarrow> nat \<Rightarrow> nat \<Rightarrow> byte list result option"
and copy_frag_list :: "sk_buff list \<Rightarrow> nat \<Rightarrow> nat \<Rightarrow> nat \<Rightarrow> byte list \<Rightarrow> byte list result option"
where
  "skb_copy_bits (Sk_buff hed dt nh mh frags fl m) offset len =
     (let start = length hed - dt in
      if int offset > int (skb_len (Sk_buff hed dt nh mh frags fl m)) - int len then Some (Inl EFAULT)
      else (let copy = (if start > offset then min (start - offset) len else 0) in
        do {
          bs \<leftarrow> (if start > offset then mem_read hed (dt + offset) copy else Some []);
          if start > offset \<and> len - copy = 0 then Some (Inr bs)
          else do {
            r \<leftarrow> copy_frags frags start (offset + copy) (len - copy) bs;
            case r of
              Inl bs \<Rightarrow> Some (Inr bs)
            | Inr (bs, start, offset, len) \<Rightarrow> copy_frag_list fl start offset len bs
          }
        }))"
| "copy_frag_list [] start offset len to = Some (if len = 0 then Inr to else Inl EFAULT)"
| "copy_frag_list (skb # fl) start offset len to =
     (let e = start + skb_len skb in
      if offset < start then None
      else if e > offset
      then (let copy = min (e - offset) len in
            do {
              r \<leftarrow> skb_copy_bits skb (offset - start) copy;
              case r of
                Inl err \<Rightarrow> Some (Inl EFAULT)
              | Inr bs \<Rightarrow>
                  if len - copy = 0 then Some (Inr (to @ bs))
                  else copy_frag_list fl e (offset + copy) (len - copy) (to @ bs)
            })
      else copy_frag_list fl e offset len to)"
  by pat_completeness auto
termination
  by (relation "measure (case_sum (\<lambda>(skb, _). size skb) (\<lambda>(fl, _). size_list size fl))") simp_all

text \<open>
  \<open>skb_header_pointer\<close> gives a pointer at which \<open>len\<close> bytes can be read, into the linear part
  or to a copy; the model gives those bytes, \<open>Inl EFAULT\<close> for the null pointer.
\<close>

definition skb_header_pointer :: "sk_buff \<Rightarrow> nat \<Rightarrow> nat \<Rightarrow> byte list result option" where
  "skb_header_pointer skb offset len =
     (if int (skb_headlen skb) - int offset \<ge> int len
      then do { bs \<leftarrow> mem_read (skb_head skb) (skb_data skb + offset) len; Some (Inr bs) }
      else skb_copy_bits skb offset len)"

section \<open>Netlink attributes\<close>

text \<open>Fields of a \<open>struct nlattr\<close> at position \<open>pos\<close>, little-endian as on the AM335x.\<close>

definition get_le16 :: "byte list \<Rightarrow> nat \<Rightarrow> u16 option" where
  "get_le16 bs pos =
     do {
       b0 \<leftarrow> mem_get bs pos;
       b1 \<leftarrow> mem_get bs (pos + 1);
       Some (ucast b0 OR push_bit 8 (ucast b1))
     }"

definition nla_len_at :: "byte list \<Rightarrow> nat \<Rightarrow> u16 option" where
  "nla_len_at bs pos = get_le16 bs pos"

definition nla_type_at :: "byte list \<Rightarrow> nat \<Rightarrow> u16 option" where
  "nla_type_at bs pos = map_option (\<lambda>t. t AND 0x3FFF) (get_le16 bs (pos + 2))"

definition nla_align :: "nat \<Rightarrow> nat" where
  "nla_align n = (n + 3) div 4 * 4"

definition nla_ok :: "byte list \<Rightarrow> nat \<Rightarrow> int \<Rightarrow> bool option" where
  "nla_ok bs pos remaining =
     (if remaining \<ge> 4
      then do { l \<leftarrow> nla_len_at bs pos; Some (unat l \<ge> 4 \<and> int (unat l) \<le> remaining) }
      else Some False)"

definition nla_next :: "u16 \<Rightarrow> nat \<Rightarrow> int \<Rightarrow> nat \<times> int" where
  "nla_next l pos remaining = (pos + nla_align (unat l), remaining - int (nla_align (unat l)))"

text \<open>The position of the first attribute of the given type.\<close>

function nla_find :: "byte list \<Rightarrow> nat \<Rightarrow> int \<Rightarrow> int \<Rightarrow> nat option option" where
  "nla_find bs pos rem attrtype =
     do {
       ok \<leftarrow> nla_ok bs pos rem;
       if \<not> ok then Some None
       else do {
         t \<leftarrow> nla_type_at bs pos;
         if int (unat t) = attrtype then Some (Some pos)
         else do {
           l \<leftarrow> nla_len_at bs pos;
           case nla_next l pos rem of (pos, rem) \<Rightarrow> nla_find bs pos rem attrtype
         }
       }
     }"
  by pat_completeness auto
termination
  by (relation "measure (\<lambda>(bs, pos, rem, t). nat rem)") 
    (auto simp: nla_ok_def nla_next_def nla_align_def split: if_splits)

declare skb_copy_bits.simps [simp del] copy_frag_list.simps [simp del] nla_find.simps [simp del]

section \<open>Copying is reading the flattened packet\<close>

lemma length_skb_bytes [simp]: "length (skb_bytes skb) = skb_len skb"
  by (induction skb) (auto simp: length_concat comp_def intro!: arg_cong [where f = sum_list])

lemma skb_headlen_linear [simp]: "length (skb_linear skb) = skb_headlen skb"
  by (simp add: skb_linear_def skb_headlen_def)

lemma skb_linear_prefix: "\<exists>bs. skb_bytes skb = skb_linear skb @ bs"
  by (cases skb) (simp add: skb_linear_def)

text \<open>What a loop copies: the bytes from position \<open>n\<close> of the piece of the packet it walks over.\<close>

lemma copy_frags_correct:
  assumes "0 < len"
  shows "copy_frags frags start (start + n) len to =
    (let got = take len (drop n (concat frags)) in
     Some (if length got = len then Inl (to @ got)
       else Inr (to @ got, start + length (concat frags), start + n + length got, len - length got)))"
  using assms
proof (induction frags arbitrary: start n len to)
  case Nil
  then show ?case by simp
next
  case (Cons f fs)
  show ?case
  proof (cases "n < length f")
    case True
    then obtain p where p: "length f = n + p" "0 < p" by (metis less_imp_add_positive)
    show ?thesis
    proof (cases "len \<le> p")
      case True
      with p Cons.prems show ?thesis by (simp add: mem_read_def)
    next
      case False
      then obtain l where l: "len = p + l" "0 < l" by (metis less_imp_add_positive not_le)
      have "mem_read f n p = Some (drop n f)" using p by (simp add: mem_read_def)
      then show ?thesis
        using p l Cons.IH [of l "start + length f" 0 "to @ drop n f"]
        by (simp add: Let_def add.assoc)
    qed
  next
    case False
    then obtain m where m: "n = length f + m" by (metis le_iff_add not_less)
    with Cons.prems Cons.IH [of len "start + length f" m to] show ?thesis
      by (simp add: Let_def add.assoc)
  qed
qed

lemma copy_frag_list_correct:
  assumes "0 < len"
    and "\<And>skb n len. skb \<in> set fl \<Longrightarrow> 0 < len \<Longrightarrow> skb_copy_bits skb n len =
      Some (if n + len \<le> skb_len skb then Inr (take len (drop n (skb_bytes skb))) else Inl EFAULT)"
  shows "copy_frag_list fl start (start + n) len to =
    (let bs = concat (map skb_bytes fl) in
     Some (if n + len \<le> length bs then Inr (to @ take len (drop n bs)) else Inl EFAULT))"
  using assms
proof (induction fl arbitrary: start n len to)
  case Nil
  then show ?case by (simp add: copy_frag_list.simps)
next
  case (Cons skb fl)
  note unfold = copy_frag_list.simps(2)
  show ?case
  proof (cases "n < skb_len skb")
    case True
    then obtain p where p: "skb_len skb = n + p" "0 < p" by (metis less_imp_add_positive)
    have inner: "skb_copy_bits skb n k = Some (Inr (take k (drop n (skb_bytes skb))))"
      if "0 < k" "k \<le> p" for k
      using Cons.prems p that by simp
    show ?thesis
    proof (cases "len \<le> p")
      case True
      with p Cons.prems(1) inner [of len] show ?thesis by (simp add: unfold)
    next
      case False
      then obtain l where l: "len = p + l" "0 < l" by (metis less_imp_add_positive not_le)
      then show ?thesis
        using p inner [of p] Cons.prems(2)
          Cons.IH [of l "start + skb_len skb" 0 "to @ drop n (skb_bytes skb)"]
        by (simp add: unfold Let_def add.assoc)
    qed
  next
    case False
    then obtain m where m: "n = skb_len skb + m" by (metis le_iff_add not_less)
    with Cons.prems Cons.IH [of len "start + skb_len skb" m to] show ?thesis
      by (simp add: unfold Let_def add.assoc)
  qed
qed

text \<open>The loops after the linear part, from position \<open>n\<close> of what follows it.\<close>

lemma copy_rest_correct:
  assumes "0 < len" and "n + len \<le> length (concat frags @ concat (map skb_bytes fl))"
    and "\<And>skb n len. skb \<in> set fl \<Longrightarrow> 0 < len \<Longrightarrow> skb_copy_bits skb n len =
      Some (if n + len \<le> skb_len skb then Inr (take len (drop n (skb_bytes skb))) else Inl EFAULT)"
  shows "do {
      r \<leftarrow> copy_frags frags start (start + n) len to;
      case r of
        Inl bs \<Rightarrow> Some (Inr bs)
      | Inr (bs, start, offset, len) \<Rightarrow> copy_frag_list fl start offset len bs
    } = Some (Inr (to @ take len (drop n (concat frags @ concat (map skb_bytes fl)))))"
proof -
  let ?f = "concat frags" and ?g = "concat (map skb_bytes fl)"
  note cf = copy_frags_correct [OF assms(1), of frags start n to]
  show ?thesis
  proof (cases "n + len \<le> length ?f")
    case True
    then show ?thesis using cf by (simp add: Let_def)
  next
    case False
    note fl = copy_frag_list_correct [OF _ assms(3), of _ fl "start + length ?f"]
    show ?thesis
    proof (cases "n < length ?f")
      case True
      then obtain p where p: "length ?f = n + p" by (metis less_imp_add_positive)
      then obtain l where l: "len = p + l" "0 < l"
        using False by (metis add_le_cancel_left less_imp_add_positive not_le)
      then show ?thesis
        using p cf fl [of l 0] assms(2) by (simp add: Let_def add.assoc)
    next
      case False
      then obtain m where m: "n = length ?f + m" by (metis le_iff_add not_less)
      then show ?thesis
        using cf fl [of len m] assms(1,2) by (simp add: Let_def add.assoc)
    qed
  qed
qed

lemma mem_read_linear:
  assumes "offset + n \<le> skb_headlen skb" and "0 < n"
  shows "mem_read (skb_head skb) (skb_data skb + offset) n = Some (take n (drop offset (skb_linear skb)))"
  using assms by (auto simp: mem_read_def skb_headlen_def skb_linear_def add.commute)

lemma skb_copy_bits_correct:
  "0 < len \<Longrightarrow> skb_copy_bits skb offset len =
     Some (if offset + len \<le> skb_len skb then Inr (take len (drop offset (skb_bytes skb))) else Inl EFAULT)"
proof (induction skb arbitrary: offset len)
  case (Sk_buff hed dt nh mh frags fl m)
  let ?skb = "Sk_buff hed dt nh mh frags fl m" and ?start = "length hed - dt"
  let ?rest = "concat frags @ concat (map skb_bytes fl)"
  have len: "skb_len ?skb = ?start + length ?rest" using length_skb_bytes [of ?skb] by simp
  note unfold = skb_copy_bits.simps and rd = mem_read_linear [of _ _ ?skb, simplified skb_headlen_def]
  show ?case
  proof (cases "offset + len \<le> skb_len ?skb")
    case False
    then show ?thesis by (simp add: unfold Let_def)
  next
    case fits: True
    show ?thesis
    proof (cases "offset < ?start")
      case True
      then obtain p where p: "?start = offset + p" "0 < p" by (metis less_imp_add_positive)
      show ?thesis
      proof (cases "len \<le> p")
        case True
        then show ?thesis
          using p fits Sk_buff.prems rd [of offset len] by (simp add: unfold skb_linear_def)
      next
        case False
        then obtain l where l: "len = p + l" "0 < l" by (metis less_imp_add_positive not_le)
        have "mem_read hed (dt + offset) p = Some (drop (dt + offset) hed)"
          using p rd [of offset p] by (simp add: skb_linear_def add.commute)
        moreover have hl: "length hed = dt + (offset + p)" using p by simp
        ultimately show ?thesis
          using p(2) l fits len Sk_buff.IH copy_rest_correct [of l 0 frags fl ?start "drop (dt + offset) hed"]
          by (simp add: unfold Let_def add.commute)
      qed
    next
      case False
      then obtain n where n: "offset = ?start + n" by (metis le_iff_add not_less)
      then show ?thesis
        using fits len Sk_buff copy_rest_correct [of len n frags fl ?start "[]"]
        by (simp add: unfold)
    qed
  qed
qed

text \<open>\<open>skb_header_pointer\<close> finds exactly the bytes of the packet, wherever they lie.\<close>

lemma skb_header_pointer_correct:
  assumes "0 < len"
  shows "skb_header_pointer skb offset len =
    Some (if offset + len \<le> skb_len skb then Inr (take len (drop offset (skb_bytes skb))) else Inl EFAULT)"
proof (cases "offset + len \<le> skb_headlen skb")
  case True
  obtain bs where bs: "skb_bytes skb = skb_linear skb @ bs" using skb_linear_prefix by blast
  then have "skb_headlen skb \<le> skb_len skb" by (metis le_add1 length_append length_skb_bytes skb_headlen_linear)
  with True bs mem_read_linear [OF True assms] show ?thesis by (simp add: skb_header_pointer_def)
next
  case False
  then show ?thesis using skb_copy_bits_correct [OF assms] by (simp add: skb_header_pointer_def)
qed

section \<open>The attribute search stays inside the buffer\<close>

lemma nla_find_in_bounds:
  assumes "int pos + rem \<le> int (length bs)"
  shows "\<exists>r. nla_find bs pos rem t = Some r \<and> (\<forall>p. r = Some p \<longrightarrow> pos \<le> p \<and> p + 4 \<le> length bs)"
  using assms
proof (induction bs pos rem t rule: nla_find.induct)
  case (1 bs pos rem t)
  show ?case
  proof (cases "rem < 4")
    case True
    then show ?thesis by (simp add: nla_find.simps [of bs pos] nla_ok_def)
  next
    case r4: False
    then have b: "pos + 4 \<le> length bs" using "1.prems" by linarith
    then obtain l ty where l: "nla_len_at bs pos = Some l" and ty: "nla_type_at bs pos = Some ty"
      by (auto simp: nla_len_at_def nla_type_at_def get_le16_def mem_get_def)
    show ?thesis
    proof (cases "4 \<le> unat l \<and> int (unat l) \<le> rem")
      case True
      then have "4 \<le> rem" by linarith
      with True l have ok: "nla_ok bs pos rem = Some True" by (simp add: nla_ok_def)
      let ?a = "nla_align (unat l)"
      show ?thesis
      proof (cases "int (unat ty) = t")
        case True
        with ok ty b show ?thesis by (simp add: nla_find.simps [of bs pos])
      next
        case False
        have "\<exists>r. nla_find bs (pos + ?a) (rem - int ?a) t = Some r \<and>
            (\<forall>p. r = Some p \<longrightarrow> pos + ?a \<le> p \<and> p + 4 \<le> length bs)"
          using "1.IH" [OF ok _ ty False l] "1.prems" by (simp add: nla_next_def)
        then show ?thesis
          using False ok ty l by (auto simp: nla_find.simps [of bs pos] nla_next_def)
      qed
    next
      case False
      with r4 l have "nla_ok bs pos rem = Some False" by (simp add: nla_ok_def)
      then show ?thesis by (simp add: nla_find.simps [of bs pos])
    qed
  qed
qed

section \<open>Correctness\<close>


definition skb_demo_meta :: skb_meta where
  "skb_demo_meta = \<lparr>sm_protocol = 8, sm_pkt_type = 0,
     sm_dev = Some \<lparr>nd_ifindex = 2, nd_type = 1\<rparr>, sm_mark = 0, sm_queue_mapping = 0, sm_rxhash = 7\<rparr>"

definition skb_demo :: sk_buff where
  "skb_demo = Sk_buff [0, 0, 1, 2] 2 2 0 [[3, 4], [5]]
     [Sk_buff [6, 7] 0 0 0 [[8]] [] skb_demo_meta] skb_demo_meta"


end
