(* ===== verification/Bpf.thy ===== *)
theory Bpf
  imports Bpf_Insn
begin

text \<open>
  The socket filter of \<^verbatim>\<open>net/core/filter.c\<close>: the checker \<open>sk_chk_filter\<close>, the interpreter
  \<open>sk_run_filter\<close>, and attaching a filter to a socket.  The division by a constant goes through
  \<^verbatim>\<open>lib/reciprocal_div.c\<close>.

  What the interpreter must never do is a value of the model: fetching outside the program,
  using a scratch cell outside the array, reading a cell that was not written, reading outside
  the packet.
\<close>

section \<open>Division by reciprocal\<close>

definition reciprocal_value :: "u32 \<Rightarrow> u32" where
  "reciprocal_value k = (let val = push_bit 32 1 + ucast (k - 1) :: u64 in ucast (val div ucast k))"

definition reciprocal_divide :: "u32 \<Rightarrow> u32 \<Rightarrow> u32" where
  "reciprocal_divide A R = ucast (drop_bit 32 (ucast A * ucast R :: u64))"

section \<open>The interpreter\<close>

record bpf_state =
  rA :: u32
  rX :: u32
  rM :: "u32 option list"

datatype bpf_fault = Bad_pc | Bad_mem | Uninit_mem | Bad_read

datatype bpf_outcome = Continue nat bpf_state | Return u32 | Fault bpf_fault

text \<open>
  What the C text leaves open: the results of shifts by 32 or more, and the number of the
  processor that runs the filter.
\<close>

record bpf_env =
  be_shl :: "u32 \<Rightarrow> u32 \<Rightarrow> u32"
  be_shr :: "u32 \<Rightarrow> u32 \<Rightarrow> u32"
  be_cpu :: u32

definition c_shl :: "bpf_env \<Rightarrow> u32 \<Rightarrow> u32 \<Rightarrow> u32" where
  "c_shl env a n = (if n < 32 then push_bit (unat n) a else be_shl env a n)"

definition c_shr :: "bpf_env \<Rightarrow> u32 \<Rightarrow> u32 \<Rightarrow> u32" where
  "c_shr env a n = (if n < 32 then drop_bit (unat n) a else be_shr env a n)"

definition BPF_MEMWORDS :: nat where "BPF_MEMWORDS = 16"

definition BPF_MAXINSNS :: nat where "BPF_MAXINSNS = 4096"

definition SKF_AD_OFF :: int where "SKF_AD_OFF = - 0x1000"

definition SKF_NET_OFF :: int where "SKF_NET_OFF = - 0x100000"

definition SKF_LL_OFF :: int where "SKF_LL_OFF = - 0x200000"

text \<open>Offsets from \<open>head\<close> stand for pointers; \<open>skb_head\<close> ends at the tail pointer.\<close>

definition raw_load_pointer :: "sk_buff \<Rightarrow> int \<Rightarrow> nat \<Rightarrow> byte list result option" where
  "raw_load_pointer skb k sz =
     (let ptr = (if k \<ge> SKF_NET_OFF then Some (skb_network_header skb + k - SKF_NET_OFF)
                 else if k \<ge> SKF_LL_OFF then Some (skb_mac_header skb + k - SKF_LL_OFF)
                 else None)
      in case ptr of
           None \<Rightarrow> Some (Inl EFAULT)
         | Some p \<Rightarrow>
             if p \<ge> 0 \<and> p + int sz \<le> int (length (skb_head skb))
             then do { bs \<leftarrow> mem_read (skb_head skb) (nat p) sz; Some (Inr bs) }
             else Some (Inl EFAULT))"

definition load_pointer :: "sk_buff \<Rightarrow> int \<Rightarrow> nat \<Rightarrow> byte list result option" where
  "load_pointer skb k sz =
     (if k \<ge> 0 then skb_header_pointer skb (nat k) sz else raw_load_pointer skb k sz)"

fun get_be :: "byte list \<Rightarrow> u32" where
  "get_be [] = 0"
| "get_be (b # bs) = push_bit (8 * length bs) (ucast b) OR get_be bs"

definition ntohs :: "u16 \<Rightarrow> u16" where
  "ntohs x = push_bit 8 (x AND 0xFF) OR drop_bit 8 (x AND 0xFF00)"

text \<open>
  The cases of the interpreter's switch, in its order; each group of cases gives \<open>None\<close> for the
  codes of the other groups.  \<open>Continue n st\<close> goes on \<open>n\<close> instructions further.
\<close>

definition sk_alu :: "bpf_env \<Rightarrow> bpf_s \<Rightarrow> u32 \<Rightarrow> bpf_state \<Rightarrow> bpf_outcome option" where
  "sk_alu env code K st =
     (let A = rA st; X = rX st; setA = (\<lambda>a. Some (Continue 1 (st\<lparr>rA := a\<rparr>)))
      in case code of
           BPF_S_ALU_ADD_X \<Rightarrow> setA (A + X)
         | BPF_S_ALU_ADD_K \<Rightarrow> setA (A + K)
         | BPF_S_ALU_SUB_X \<Rightarrow> setA (A - X)
         | BPF_S_ALU_SUB_K \<Rightarrow> setA (A - K)
         | BPF_S_ALU_MUL_X \<Rightarrow> setA (A * X)
         | BPF_S_ALU_MUL_K \<Rightarrow> setA (A * K)
         | BPF_S_ALU_DIV_X \<Rightarrow> if X = 0 then Some (Return 0) else setA (A div X)
         | BPF_S_ALU_DIV_K \<Rightarrow> setA (reciprocal_divide A K)
         | BPF_S_ALU_AND_X \<Rightarrow> setA (A AND X)
         | BPF_S_ALU_AND_K \<Rightarrow> setA (A AND K)
         | BPF_S_ALU_OR_X \<Rightarrow> setA (A OR X)
         | BPF_S_ALU_OR_K \<Rightarrow> setA (A OR K)
         | BPF_S_ALU_LSH_X \<Rightarrow> setA (c_shl env A X)
         | BPF_S_ALU_LSH_K \<Rightarrow> setA (c_shl env A K)
         | BPF_S_ALU_RSH_X \<Rightarrow> setA (c_shr env A X)
         | BPF_S_ALU_RSH_K \<Rightarrow> setA (c_shr env A K)
         | BPF_S_ALU_NEG \<Rightarrow> setA (- A)
         | _ \<Rightarrow> None)"

definition sk_jmp :: "bpf_s \<Rightarrow> sock_filter \<Rightarrow> bpf_state \<Rightarrow> bpf_outcome option" where
  "sk_jmp code f st =
     (let A = rA st; X = rX st; K = f_k f;
          br = (\<lambda>c. Some (Continue (1 + unat (if c then f_jt f else f_jf f)) st))
      in case code of
           BPF_S_JMP_JA \<Rightarrow> Some (Continue (1 + unat K) st)
         | BPF_S_JMP_JGT_K \<Rightarrow> br (A > K)
         | BPF_S_JMP_JGE_K \<Rightarrow> br (A \<ge> K)
         | BPF_S_JMP_JEQ_K \<Rightarrow> br (A = K)
         | BPF_S_JMP_JSET_K \<Rightarrow> br (A AND K \<noteq> 0)
         | BPF_S_JMP_JGT_X \<Rightarrow> br (A > X)
         | BPF_S_JMP_JGE_X \<Rightarrow> br (A \<ge> X)
         | BPF_S_JMP_JEQ_X \<Rightarrow> br (A = X)
         | BPF_S_JMP_JSET_X \<Rightarrow> br (A AND X \<noteq> 0)
         | _ \<Rightarrow> None)"

definition sk_load :: "sk_buff \<Rightarrow> bpf_s \<Rightarrow> u32 \<Rightarrow> bpf_state \<Rightarrow> bpf_outcome option" where
  "sk_load skb code K st =
     (let X = rX st;
          setA = (\<lambda>a. Continue 1 (st\<lparr>rA := a\<rparr>)); setX = (\<lambda>x. Continue 1 (st\<lparr>rX := x\<rparr>));
          ld = (\<lambda>k sz cont. Some (case load_pointer skb (sint k) sz of
                  None \<Rightarrow> Fault Bad_read
                | Some (Inl _) \<Rightarrow> Return 0
                | Some (Inr bs) \<Rightarrow> cont (get_be bs)))
      in case code of
           BPF_S_LD_W_ABS \<Rightarrow> ld K 4 setA
         | BPF_S_LD_H_ABS \<Rightarrow> ld K 2 setA
         | BPF_S_LD_B_ABS \<Rightarrow> ld K 1 setA
         | BPF_S_LD_W_LEN \<Rightarrow> Some (setA (of_nat (skb_len skb)))
         | BPF_S_LDX_W_LEN \<Rightarrow> Some (setX (of_nat (skb_len skb)))
         | BPF_S_LD_W_IND \<Rightarrow> ld (X + K) 4 setA
         | BPF_S_LD_H_IND \<Rightarrow> ld (X + K) 2 setA
         | BPF_S_LD_B_IND \<Rightarrow> ld (X + K) 1 setA
         | BPF_S_LDX_B_MSH \<Rightarrow> ld K 1 (\<lambda>v. setX (push_bit 2 (v AND 0xF)))
         | _ \<Rightarrow> None)"

definition sk_mem :: "bpf_s \<Rightarrow> u32 \<Rightarrow> bpf_state \<Rightarrow> bpf_outcome option" where
  "sk_mem code K st =
     (let A = rA st; X = rX st; M = rM st;
          setA = (\<lambda>a. Continue 1 (st\<lparr>rA := a\<rparr>)); setX = (\<lambda>x. Continue 1 (st\<lparr>rX := x\<rparr>));
          ldm = (\<lambda>cont. if unat K < length M
                        then (case M ! unat K of None \<Rightarrow> Fault Uninit_mem | Some v \<Rightarrow> cont v)
                        else Fault Bad_mem);
          stm = (\<lambda>v. if unat K < length M then Continue 1 (st\<lparr>rM := M[unat K := Some v]\<rparr>)
                     else Fault Bad_mem)
      in case code of
           BPF_S_LD_IMM \<Rightarrow> Some (setA K)
         | BPF_S_LDX_IMM \<Rightarrow> Some (setX K)
         | BPF_S_LD_MEM \<Rightarrow> Some (ldm setA)
         | BPF_S_LDX_MEM \<Rightarrow> Some (ldm setX)
         | BPF_S_MISC_TAX \<Rightarrow> Some (setX A)
         | BPF_S_MISC_TXA \<Rightarrow> Some (setA X)
         | BPF_S_RET_K \<Rightarrow> Some (Return K)
         | BPF_S_RET_A \<Rightarrow> Some (Return A)
         | BPF_S_ST \<Rightarrow> Some (stm A)
         | BPF_S_STX \<Rightarrow> Some (stm X)
         | _ \<Rightarrow> None)"

text \<open>The position an attribute search leaves in the accumulator: 0 if there is none.\<close>

definition nla_outcome :: "bpf_state \<Rightarrow> nat option option \<Rightarrow> bpf_outcome" where
  "nla_outcome st r =
     (case r of
        None \<Rightarrow> Fault Bad_read
      | Some p \<Rightarrow> Continue 1 (st\<lparr>rA := (case p of None \<Rightarrow> 0 | Some pos \<Rightarrow> of_nat pos)\<rparr>))"

definition sk_anc_nlattr :: "sk_buff \<Rightarrow> bpf_state \<Rightarrow> bpf_outcome" where
  "sk_anc_nlattr skb st =
     (let A = rA st; len = of_nat (skb_len skb) :: u32 in
      if skb_is_nonlinear skb then Return 0
      else if A > len - 4 then Return 0
      else nla_outcome st (nla_find (skb_linear skb) (unat A) (sint (len - A)) (sint (rX st))))"

definition sk_anc_nlattr_nest :: "sk_buff \<Rightarrow> bpf_state \<Rightarrow> bpf_outcome" where
  "sk_anc_nlattr_nest skb st =
     (let A = rA st; len = of_nat (skb_len skb) :: u32 in
      if skb_is_nonlinear skb then Return 0
      else if A > len - 4 then Return 0
      else (case nla_len_at (skb_linear skb) (unat A) of
              None \<Rightarrow> Fault Bad_read
            | Some l \<Rightarrow>
                if ucast l > A - len then Return 0
                else nla_outcome st (nla_find (skb_linear skb) (unat A + 4) (int (unat l) - 4) (sint (rX st)))))"

definition sk_anc :: "bpf_env \<Rightarrow> sk_buff \<Rightarrow> bpf_s \<Rightarrow> bpf_state \<Rightarrow> bpf_outcome option" where
  "sk_anc env skb code st =
     (let m = skb_meta skb; setA = (\<lambda>a. Continue 1 (st\<lparr>rA := a\<rparr>)) in
      case code of
        BPF_S_ANC_PROTOCOL \<Rightarrow> Some (setA (ucast (ntohs (sm_protocol m))))
      | BPF_S_ANC_PKTTYPE \<Rightarrow> Some (setA (ucast (sm_pkt_type m)))
      | BPF_S_ANC_IFINDEX \<Rightarrow>
          Some (case sm_dev m of None \<Rightarrow> Return 0 | Some d \<Rightarrow> setA (nd_ifindex d))
      | BPF_S_ANC_MARK \<Rightarrow> Some (setA (sm_mark m))
      | BPF_S_ANC_QUEUE \<Rightarrow> Some (setA (ucast (sm_queue_mapping m)))
      | BPF_S_ANC_HATYPE \<Rightarrow>
          Some (case sm_dev m of None \<Rightarrow> Return 0 | Some d \<Rightarrow> setA (ucast (nd_type d)))
      | BPF_S_ANC_RXHASH \<Rightarrow> Some (setA (sm_rxhash m))
      | BPF_S_ANC_CPU \<Rightarrow> Some (setA (be_cpu env))
      | BPF_S_ANC_NLATTR \<Rightarrow> Some (sk_anc_nlattr skb st)
      | BPF_S_ANC_NLATTR_NEST \<Rightarrow> Some (sk_anc_nlattr_nest skb st)
      | _ \<Rightarrow> None)"

definition sk_step :: "bpf_env \<Rightarrow> sk_buff \<Rightarrow> sock_filter \<Rightarrow> bpf_state \<Rightarrow> bpf_outcome" where
  "sk_step env skb f st =
     (case bpf_s_of (f_code f) of
        None \<Rightarrow> Return 0
      | Some code \<Rightarrow>
          (case sk_alu env code (f_k f) st of Some out \<Rightarrow> out | None \<Rightarrow>
          (case sk_jmp code f st of Some out \<Rightarrow> out | None \<Rightarrow>
          (case sk_load skb code (f_k f) st of Some out \<Rightarrow> out | None \<Rightarrow>
          (case sk_mem code (f_k f) st of Some out \<Rightarrow> out | None \<Rightarrow>
          (case sk_anc env skb code st of Some out \<Rightarrow> out | None \<Rightarrow> Return 0))))))"

end
