(* ===== verification/Bpf_Run.thy ===== *)
theory Bpf_Run
  imports Bpf
begin

text \<open>
  The interpreter's loop over the steps of theory \<open>Bpf\<close>, and what each group of steps can do.
\<close>

lemma sk_alu_cases:
  "sk_alu env code K st = Some out \<Longrightarrow> out = Return 0 \<or> (\<exists>a. out = Continue 1 (st\<lparr>rA := a\<rparr>))"
  by (cases code) (simp_all add: sk_alu_def Let_def split: if_splits, auto)

lemma sk_jmp_cases:
  "sk_jmp code f st = Some out \<Longrightarrow>
     code = BPF_S_JMP_JA \<and> out = Continue (1 + unat (f_k f)) st \<or>
     code \<noteq> BPF_S_JMP_JA \<and> (out = Continue (1 + unat (f_jt f)) st \<or> out = Continue (1 + unat (f_jf f)) st)"
  by (cases code) (simp_all add: sk_jmp_def Let_def split: if_splits, auto?)

lemma load_pointer_no_fault: "0 < sz \<Longrightarrow> load_pointer skb k sz \<noteq> None"
  by (auto simp: load_pointer_def skb_header_pointer_correct raw_load_pointer_def mem_read_def Let_def
      nat_le_iff split: option.splits if_splits)

lemma sk_load_cases:
  "sk_load skb code K st = Some out \<Longrightarrow>
     out = Return 0 \<or> (\<exists>st'. out = Continue 1 st' \<and> rM st' = rM st)"
  by (cases code)
    (simp_all add: sk_load_def Let_def load_pointer_no_fault split: option.splits sum.splits, auto?)

lemma sk_mem_cases:
  "sk_mem code K st = Some out \<Longrightarrow>
     (\<exists>v. out = Return v) \<or> (\<exists>st'. out = Continue 1 st' \<and> rM st' = rM st) \<or>
     code \<in> {BPF_S_ST, BPF_S_STX} \<and>
       (unat K < length (rM st) \<and> (\<exists>v. out = Continue 1 (st\<lparr>rM := (rM st)[unat K := Some v]\<rparr>)) \<or>
        \<not> unat K < length (rM st)) \<or>
     code \<in> {BPF_S_LD_MEM, BPF_S_LDX_MEM} \<and> \<not> (unat K < length (rM st) \<and> rM st ! unat K \<noteq> None)"
  by (cases code) (simp_all add: sk_mem_def Let_def split: option.splits if_splits, auto?)

lemma sk_mem_advances: "sk_mem code K st = Some (Continue n st') \<Longrightarrow> n = 1"
  by (cases code) (simp_all add: sk_mem_def Let_def split: option.splits if_splits)

text \<open>The attribute searches are the only steps that can read outside the packet.\<close>

lemma sk_anc_cases:
  "sk_anc env skb code st = Some out \<Longrightarrow>
     out = Return 0 \<or> (\<exists>st'. out = Continue 1 st' \<and> rM st' = rM st) \<or>
     code \<in> {BPF_S_ANC_NLATTR, BPF_S_ANC_NLATTR_NEST} \<and> out = Fault Bad_read"
  by (cases code)
    (simp_all add: sk_anc_def sk_anc_nlattr_def sk_anc_nlattr_nest_def nla_outcome_def Let_def
      split: option.splits if_splits, auto?)

lemma sk_anc_nlattr_no_fault:
  assumes "4 \<le> skb_len skb" and "skb_len skb < 2 ^ 31"
  shows "sk_anc_nlattr skb st \<noteq> Fault e"
proof (cases "skb_is_nonlinear skb \<or> rA st > of_nat (skb_len skb) - 4")
  case True
  then show ?thesis by (auto simp: sk_anc_nlattr_def Let_def)
next
  case False
  let ?n = "skb_len skb" and ?w = "of_nat (skb_len skb) :: u32"
  have w: "unat ?w = ?n" using assms(2) by (simp add: unat_of_nat)
  have w4: "unat (?w - 4) = ?n - 4" using assms(1) w by (subst unat_sub_nowrap) simp_all
  have A: "unat (rA st) + 4 \<le> ?n"
    using False w4 assms(1) by (auto simp: word_less_nat_alt not_less)
  have r: "unat (?w - rA st) = ?n - unat (rA st)" using A w by (subst unat_sub_nowrap) simp_all
  then have "sint (?w - rA st) = int (?n - unat (rA st))"
    using assms(2) by (subst sint_eq_unat) auto
  moreover obtain bs where "skb_bytes skb = skb_linear skb @ bs" using skb_linear_prefix by blast
  then have "length (skb_linear skb) = ?n"
    using False length_skb_bytes [of skb] by (auto simp: skb_is_nonlinear_def)
  ultimately obtain p where "nla_find (skb_linear skb) (unat (rA st)) (sint (?w - rA st)) (sint (rX st)) = Some p"
    using nla_find_in_bounds [of "unat (rA st)" "sint (?w - rA st)" "skb_linear skb"] A by auto
  then show ?thesis using False by (auto simp: sk_anc_nlattr_def nla_outcome_def Let_def)
qed

section \<open>The loop\<close>

lemma sk_step_advances: "sk_step env skb f st = Continue n st' \<Longrightarrow> 0 < n"
  by (auto simp: sk_step_def split: option.splits
      dest!: sk_alu_cases sk_jmp_cases sk_load_cases sk_mem_advances sk_anc_cases)

text \<open>
  Every jump goes forward, so the loop ends.  An instruction fetched outside the array is a fault.
\<close>

function run_from :: "bpf_env \<Rightarrow> sk_buff \<Rightarrow> sock_filter list \<Rightarrow> nat \<Rightarrow> bpf_state \<Rightarrow> bpf_fault + u32" where
  "run_from env skb prog pc st =
     (if pc < length prog
      then (case sk_step env skb (prog ! pc) st of
              Continue n st \<Rightarrow> run_from env skb prog (pc + n) st
            | Return v \<Rightarrow> Inr v
            | Fault e \<Rightarrow> Inl e)
      else Inl Bad_pc)"
  by pat_completeness auto
termination
  by (relation "measure (\<lambda>(env, skb, prog, pc, st). length prog - pc)")
    (auto dest!: sk_step_advances)

declare run_from.simps [simp del]

definition sk_run_filter :: "bpf_env \<Rightarrow> sk_buff \<Rightarrow> sock_filter list \<Rightarrow> bpf_fault + u32" where
  "sk_run_filter env skb prog =
     run_from env skb prog 0 \<lparr>rA = 0, rX = 0, rM = replicate BPF_MEMWORDS None\<rparr>"

end
