(* ===== verification/Bpf_Check.thy ===== *)
theory Bpf_Check
  imports Bpf_Run
begin

text \<open>
  The checker \<open>sk_chk_filter\<close> of \<^verbatim>\<open>net/core/filter.c\<close>, which every filter passes before it is
  attached, and the proof that a filter it accepts runs without a fault.
\<close>

section \<open>The checker\<close>

text \<open>The table \<open>codes\<close>: the user's codes, built from the constants of \<^verbatim>\<open>filter.h\<close>.\<close>

definition bpf_codes :: "(u16 \<times> bpf_s) list" where
  "bpf_codes = [
     (0x04, BPF_S_ALU_ADD_K), (0x0c, BPF_S_ALU_ADD_X),
     (0x14, BPF_S_ALU_SUB_K), (0x1c, BPF_S_ALU_SUB_X),
     (0x24, BPF_S_ALU_MUL_K), (0x2c, BPF_S_ALU_MUL_X),
     (0x3c, BPF_S_ALU_DIV_X),
     (0x54, BPF_S_ALU_AND_K), (0x5c, BPF_S_ALU_AND_X),
     (0x44, BPF_S_ALU_OR_K), (0x4c, BPF_S_ALU_OR_X),
     (0x64, BPF_S_ALU_LSH_K), (0x6c, BPF_S_ALU_LSH_X),
     (0x74, BPF_S_ALU_RSH_K), (0x7c, BPF_S_ALU_RSH_X),
     (0x84, BPF_S_ALU_NEG),
     (0x20, BPF_S_LD_W_ABS), (0x28, BPF_S_LD_H_ABS), (0x30, BPF_S_LD_B_ABS),
     (0x80, BPF_S_LD_W_LEN),
     (0x40, BPF_S_LD_W_IND), (0x48, BPF_S_LD_H_IND), (0x50, BPF_S_LD_B_IND),
     (0x00, BPF_S_LD_IMM),
     (0x81, BPF_S_LDX_W_LEN), (0xb1, BPF_S_LDX_B_MSH), (0x01, BPF_S_LDX_IMM),
     (0x07, BPF_S_MISC_TAX), (0x87, BPF_S_MISC_TXA),
     (0x06, BPF_S_RET_K), (0x16, BPF_S_RET_A),
     (0x34, BPF_S_ALU_DIV_K),
     (0x60, BPF_S_LD_MEM), (0x61, BPF_S_LDX_MEM), (0x02, BPF_S_ST), (0x03, BPF_S_STX),
     (0x05, BPF_S_JMP_JA),
     (0x15, BPF_S_JMP_JEQ_K), (0x1d, BPF_S_JMP_JEQ_X),
     (0x35, BPF_S_JMP_JGE_K), (0x3d, BPF_S_JMP_JGE_X),
     (0x25, BPF_S_JMP_JGT_K), (0x2d, BPF_S_JMP_JGT_X),
     (0x45, BPF_S_JMP_JSET_K), (0x4d, BPF_S_JMP_JSET_X)]"

text \<open>The ancillary loads, by their offset from \<open>SKF_AD_OFF\<close>.\<close>

definition skf_ad_codes :: "(u32 \<times> bpf_s) list" where
  "skf_ad_codes = map (\<lambda>(n, c). (of_int (SKF_AD_OFF + n), c)) [
     (0, BPF_S_ANC_PROTOCOL), (4, BPF_S_ANC_PKTTYPE), (8, BPF_S_ANC_IFINDEX),
     (12, BPF_S_ANC_NLATTR), (16, BPF_S_ANC_NLATTR_NEST), (20, BPF_S_ANC_MARK),
     (24, BPF_S_ANC_QUEUE), (28, BPF_S_ANC_HATYPE), (32, BPF_S_ANC_RXHASH), (36, BPF_S_ANC_CPU)]"

definition cond_jumps :: "bpf_s list" where
  "cond_jumps = [BPF_S_JMP_JEQ_K, BPF_S_JMP_JEQ_X, BPF_S_JMP_JGE_K, BPF_S_JMP_JGE_X,
     BPF_S_JMP_JGT_K, BPF_S_JMP_JGT_X, BPF_S_JMP_JSET_X, BPF_S_JMP_JSET_K]"

text \<open>One round of the loop: the instruction rewritten, or the error.\<close>

definition chk_insn :: "nat \<Rightarrow> nat \<Rightarrow> sock_filter \<Rightarrow> sock_filter result" where
  "chk_insn flen pc ftest =
     (case map_of bpf_codes (f_code ftest) of
        None \<Rightarrow> Inl EINVAL
      | Some code \<Rightarrow>
          if code = BPF_S_ALU_DIV_K then
            (if f_k ftest = 0 then Inl EINVAL
             else Inr (ftest\<lparr>f_code := bpf_s_code code, f_k := reciprocal_value (f_k ftest)\<rparr>))
          else if code \<in> set [BPF_S_LD_MEM, BPF_S_LDX_MEM, BPF_S_ST, BPF_S_STX] then
            (if unat (f_k ftest) \<ge> BPF_MEMWORDS then Inl EINVAL
             else Inr (ftest\<lparr>f_code := bpf_s_code code\<rparr>))
          else if code = BPF_S_JMP_JA then
            (if unat (f_k ftest) \<ge> flen - pc - 1 then Inl EINVAL
             else Inr (ftest\<lparr>f_code := bpf_s_code code\<rparr>))
          else if code \<in> set cond_jumps then
            (if pc + unat (f_jt ftest) + 1 \<ge> flen \<or> pc + unat (f_jf ftest) + 1 \<ge> flen then Inl EINVAL
             else Inr (ftest\<lparr>f_code := bpf_s_code code\<rparr>))
          else if code \<in> set [BPF_S_LD_W_ABS, BPF_S_LD_H_ABS, BPF_S_LD_B_ABS] then
            (case map_of skf_ad_codes (f_k ftest) of
               None \<Rightarrow> Inr (ftest\<lparr>f_code := bpf_s_code code\<rparr>)
             | Some anc \<Rightarrow> Inr (ftest\<lparr>f_code := bpf_s_code anc\<rparr>))
          else Inr (ftest\<lparr>f_code := bpf_s_code code\<rparr>))"

fun chk_insns :: "nat \<Rightarrow> nat \<Rightarrow> sock_filter list \<Rightarrow> sock_filter list result" where
  "chk_insns flen pc [] = Inr []"
| "chk_insns flen pc (f # fs) =
     (case chk_insn flen pc f of
        Inl e \<Rightarrow> Inl e
      | Inr f' \<Rightarrow> (case chk_insns flen (pc + 1) fs of Inl e \<Rightarrow> Inl e | Inr fs' \<Rightarrow> Inr (f' # fs')))"

text \<open>
  The data flow check.  \<open>memvalid\<close> and the masks have one bit per scratch cell.  The model's
  \<open>None\<close> is a mask written outside the array.
\<close>

definition mask_and :: "u16 list \<Rightarrow> nat \<Rightarrow> u16 \<Rightarrow> u16 list option" where
  "mask_and masks i v = do { m \<leftarrow> mem_get masks i; mem_set masks i (m AND v) }"

function check_loop :: "sock_filter list \<Rightarrow> nat \<Rightarrow> u16 \<Rightarrow> u16 list \<Rightarrow> unit result option" where
  "check_loop prog pc memvalid masks =
     (if pc < length prog
      then do {
        m \<leftarrow> mem_get masks pc;
        let memvalid = memvalid AND m;
        let f = prog ! pc;
        case bpf_s_of (f_code f) of
          None \<Rightarrow> check_loop prog (pc + 1) memvalid masks
        | Some code \<Rightarrow>
            if code \<in> set [BPF_S_ST, BPF_S_STX] then
              check_loop prog (pc + 1) (memvalid OR push_bit (unat (f_k f)) 1) masks
            else if code \<in> set [BPF_S_LD_MEM, BPF_S_LDX_MEM] then
              (if memvalid AND push_bit (unat (f_k f)) 1 = 0 then Some (Inl EINVAL)
               else check_loop prog (pc + 1) memvalid masks)
            else if code = BPF_S_JMP_JA then do {
              masks \<leftarrow> mask_and masks (pc + 1 + unat (f_k f)) memvalid;
              check_loop prog (pc + 1) (NOT 0) masks
            }
            else if code \<in> set cond_jumps then do {
              masks \<leftarrow> mask_and masks (pc + 1 + unat (f_jt f)) memvalid;
              masks \<leftarrow> mask_and masks (pc + 1 + unat (f_jf f)) memvalid;
              check_loop prog (pc + 1) (NOT 0) masks
            }
            else check_loop prog (pc + 1) memvalid masks
      }
      else Some (Inr ()))"
  by pat_completeness auto
termination
  by (relation "measure (\<lambda>(prog, pc, mv, masks). length prog - pc)") auto

declare check_loop.simps [simp del]

text \<open>\<open>alloc_ok\<close> tells whether \<open>kmalloc\<close> gives the masks; they start with all bits set.\<close>

definition check_load_and_stores :: "bool \<Rightarrow> sock_filter list \<Rightarrow> unit result option" where
  "check_load_and_stores alloc_ok prog =
     (if \<not> alloc_ok then Some (Inl ENOMEM)
      else check_loop prog 0 0 (replicate (length prog) 0xFFFF))"

text \<open>The result is the filter as rewritten in place, or the error.\<close>

definition sk_chk_filter :: "bool \<Rightarrow> sock_filter list \<Rightarrow> sock_filter list result option" where
  "sk_chk_filter alloc_ok prog =
     (let flen = length prog in
      if flen = 0 \<or> flen > BPF_MAXINSNS then Some (Inl EINVAL)
      else (case chk_insns flen 0 prog of
              Inl e \<Rightarrow> Some (Inl e)
            | Inr prog \<Rightarrow>
                if bpf_s_of (f_code (prog ! (flen - 1))) \<in> set [Some BPF_S_RET_K, Some BPF_S_RET_A]
                then do {
                  r \<leftarrow> check_load_and_stores alloc_ok prog;
                  Some (case r of Inl e \<Rightarrow> Inl e | Inr _ \<Rightarrow> Inr prog)
                }
                else Some (Inl EINVAL)))"

section \<open>Steps by kind of instruction\<close>

lemma bpf_s_of_code [simp]: "bpf_s_of (bpf_s_code i) = Some i"
  by (cases i) (simp_all add: bpf_s_of_def bpf_s_code_def bpf_s_enum_def)

definition ret_codes :: "bpf_s set" where "ret_codes = {BPF_S_RET_K, BPF_S_RET_A}"

definition st_codes :: "bpf_s set" where "st_codes = {BPF_S_ST, BPF_S_STX}"

definition ldm_codes :: "bpf_s set" where "ldm_codes = {BPF_S_LD_MEM, BPF_S_LDX_MEM}"

lemmas code_kinds = ret_codes_def st_codes_def ldm_codes_def cond_jumps_def

lemma sk_step_cases:
  assumes "bpf_s_of (f_code f) = Some code"
  shows "(\<exists>v. sk_step env skb f st = Return v) \<or>
    code \<notin> ret_codes \<and> code \<notin> st_codes \<and> code \<notin> set (BPF_S_JMP_JA # cond_jumps) \<and>
      (\<exists>st'. sk_step env skb f st = Continue 1 st' \<and> rM st' = rM st) \<or>
    code \<in> st_codes \<and> (unat (f_k f) < length (rM st) \<longrightarrow>
      (\<exists>v. sk_step env skb f st = Continue 1 (st\<lparr>rM := (rM st)[unat (f_k f) := Some v]\<rparr>))) \<or>
    code \<in> ldm_codes \<and> \<not> (unat (f_k f) < length (rM st) \<and> rM st ! unat (f_k f) \<noteq> None) \<or>
    code = BPF_S_JMP_JA \<and> sk_step env skb f st = Continue (1 + unat (f_k f)) st \<or>
    code \<in> set cond_jumps \<and> (sk_step env skb f st = Continue (1 + unat (f_jt f)) st \<or>
      sk_step env skb f st = Continue (1 + unat (f_jf f)) st) \<or>
    code = BPF_S_ANC_NLATTR \<and> sk_anc_nlattr skb st = Fault Bad_read \<and>
      sk_step env skb f st = Fault Bad_read \<or>
    code = BPF_S_ANC_NLATTR_NEST \<and> sk_step env skb f st = Fault Bad_read"
proof -
  consider (alu) out where "sk_alu env code (f_k f) st = Some out"
    | (jmp) out where "sk_alu env code (f_k f) st = None" "sk_jmp code f st = Some out"
    | (rest) "sk_alu env code (f_k f) st = None" "sk_jmp code f st = None"
    by fastforce
  then show ?thesis
  proof cases
    case alu
    moreover have "code \<notin> ret_codes \<and> code \<notin> st_codes \<and> code \<notin> set (BPF_S_JMP_JA # cond_jumps)"
      using alu by (cases code) (simp_all add: sk_alu_def code_kinds)
    ultimately show ?thesis using sk_alu_cases [OF alu] assms by (auto simp: sk_step_def)
  next
    case jmp
    moreover have "code \<in> set (BPF_S_JMP_JA # cond_jumps)"
      using jmp by (cases code) (simp_all add: sk_jmp_def code_kinds)
    ultimately show ?thesis using sk_jmp_cases [OF jmp(2)] assms by (auto simp: sk_step_def)
  next
    case rest
    then show ?thesis
      using assms
      by (cases code)
        (simp_all add: sk_step_def sk_alu_def sk_jmp_def sk_load_def sk_mem_def sk_anc_def
          sk_anc_nlattr_def sk_anc_nlattr_nest_def nla_outcome_def code_kinds load_pointer_no_fault
          Let_def split: option.splits sum.splits if_splits, auto?)
  qed
qed

section \<open>What the checker establishes\<close>

definition wf_insn :: "nat \<Rightarrow> nat \<Rightarrow> sock_filter \<Rightarrow> bool" where
  "wf_insn flen pc f =
     (case bpf_s_of (f_code f) of
        None \<Rightarrow> False
      | Some code \<Rightarrow>
          (code \<in> st_codes \<union> ldm_codes \<longrightarrow> unat (f_k f) < BPF_MEMWORDS) \<and>
          (code = BPF_S_JMP_JA \<longrightarrow> pc + 1 + unat (f_k f) < flen) \<and>
          (code \<in> set cond_jumps \<longrightarrow> pc + 1 + unat (f_jt f) < flen \<and> pc + 1 + unat (f_jf f) < flen))"

lemma skf_ad_kind:
  assumes "map_of skf_ad_codes k = Some c"
  shows "c \<notin> st_codes \<and> c \<notin> ldm_codes \<and> c \<notin> set (BPF_S_JMP_JA # cond_jumps)"
  using map_of_SomeD [OF assms] by (auto simp: skf_ad_codes_def code_kinds)

lemma mem_kind:
  "set [BPF_S_LD_MEM, BPF_S_LDX_MEM, BPF_S_ST, BPF_S_STX] = st_codes \<union> ldm_codes"
  "c \<in> st_codes \<union> ldm_codes \<Longrightarrow> c \<noteq> BPF_S_JMP_JA \<and> c \<notin> set cond_jumps"
  "BPF_S_ALU_DIV_K \<notin> st_codes \<union> ldm_codes" "BPF_S_ALU_DIV_K \<notin> set cond_jumps"
  "BPF_S_JMP_JA \<notin> set cond_jumps"
  by (auto simp: code_kinds)

lemma chk_insn_wf:
  assumes chk: "chk_insn flen pc f = Inr f'" and "pc < flen"
  shows "wf_insn flen pc f'"
proof -
  obtain code where code: "map_of bpf_codes (f_code f) = Some code"
    using chk by (auto simp: chk_insn_def split: option.splits)
  note def = chk [unfolded chk_insn_def code option.case mem_kind(1)]
  consider (div) "code = BPF_S_ALU_DIV_K" | (mem) "code \<in> st_codes \<union> ldm_codes"
    | (ja) "code = BPF_S_JMP_JA" | (cond) "code \<in> set cond_jumps"
    | (rest) "code \<notin> st_codes \<union> ldm_codes" "code \<noteq> BPF_S_JMP_JA" "code \<notin> set cond_jumps"
        "code \<noteq> BPF_S_ALU_DIV_K"
    by blast
  then show ?thesis
  proof cases
    case div
    with def mem_kind(3,4) show ?thesis by (auto simp: wf_insn_def split: if_splits)
  next
    case mem
    with def mem_kind(2,3) show ?thesis
      by (cases "code = BPF_S_ALU_DIV_K") (auto simp: wf_insn_def split: if_splits)
  next
    case ja
    with def mem_kind(2) [of BPF_S_JMP_JA] mem_kind(5) show ?thesis
      using assms(2) by (auto simp: wf_insn_def split: if_splits)
  next
    case cond
    then have "code \<noteq> BPF_S_ALU_DIV_K" "code \<noteq> BPF_S_JMP_JA" "code \<notin> st_codes \<union> ldm_codes"
      using mem_kind by blast+
    with def cond have "f' = f\<lparr>f_code := bpf_s_code code\<rparr>"
      "pc + unat (f_jt f) + 1 < flen" "pc + unat (f_jf f) + 1 < flen"
      by (simp_all split: if_splits)
    with cond \<open>code \<noteq> BPF_S_JMP_JA\<close> \<open>code \<notin> st_codes \<union> ldm_codes\<close> show ?thesis
      by (simp add: wf_insn_def)
  next
    case rest
    with def obtain c where "f' = f\<lparr>f_code := bpf_s_code c\<rparr>"
      "c = code \<or> map_of skf_ad_codes (f_k f) = Some c"
      by (auto split: if_splits option.splits)
    with rest show ?thesis using skf_ad_kind [of "f_k f" c] by (auto simp: wf_insn_def)
  qed
qed

lemma chk_insns_wf:
  assumes "chk_insns flen pc fs = Inr fs'" and "pc + length fs = flen"
  shows "length fs' = length fs \<and> (\<forall>i < length fs. wf_insn flen (pc + i) (fs' ! i))"
  using assms
proof (induction fs arbitrary: pc fs')
  case Nil
  then show ?case by simp
next
  case (Cons f fs)
  then obtain g gs where g: "chk_insn flen pc f = Inr g" "chk_insns flen (pc + 1) fs = Inr gs"
    "fs' = g # gs" by (auto split: sum.splits)
  have "wf_insn flen pc g" using chk_insn_wf [OF g(1)] Cons.prems(2) by simp
  moreover have "length gs = length fs \<and> (\<forall>i < length fs. wf_insn flen (pc + 1 + i) (gs ! i))"
    using Cons.IH [OF g(2)] Cons.prems(2) by simp
  ultimately show ?case using g(3) by (auto simp: nth_Cons split: nat.splits)
qed

text \<open>The cells a mask promises are written.\<close>

definition cells_ok :: "u16 \<Rightarrow> u32 option list \<Rightarrow> bool" where
  "cells_ok v M \<longleftrightarrow> length M = BPF_MEMWORDS \<and> (\<forall>i < BPF_MEMWORDS. bit v i \<longrightarrow> M ! i \<noteq> None)"

text \<open>The mask the checker works with at instruction \<open>j\<close> when it has reached \<open>pc\<close>.\<close>

definition mask_at :: "nat \<Rightarrow> u16 \<Rightarrow> u16 list \<Rightarrow> nat \<Rightarrow> u16" where
  "mask_at pc mv masks j = (if j = pc then mv AND masks ! pc else masks ! j)"

definition sub_mask :: "u16 \<Rightarrow> u16 \<Rightarrow> bool" where
  "sub_mask v w \<longleftrightarrow> v AND w = v"

lemma sub_mask_bit: "sub_mask v w \<Longrightarrow> bit v i \<Longrightarrow> bit w i"
  by (metis bit_and_iff sub_mask_def)

lemma sub_mask_simps [simp]:
  "sub_mask v v" "sub_mask (v AND w) v" "sub_mask (v AND w) w"
  by (simp_all add: sub_mask_def ac_simps)

lemma sub_mask_trans: "sub_mask u v \<Longrightarrow> sub_mask v w \<Longrightarrow> sub_mask u w"
  by (metis and.assoc sub_mask_def)

lemma sub_mask_update: "j < length xs \<Longrightarrow> sub_mask (xs[i := xs ! i AND m] ! j) (xs ! j)"
  by (cases "i = j") simp_all

lemma cells_ok_sub: "cells_ok w M \<Longrightarrow> sub_mask v w \<Longrightarrow> cells_ok v M"
  by (auto simp: cells_ok_def dest: sub_mask_bit)

lemma mask_and_Some:
  "mask_and masks i v = Some masks' \<longleftrightarrow> i < length masks \<and> masks' = masks[i := masks ! i AND v]"
  by (auto simp: mask_and_def mem_get_def mem_set_def)

text \<open>One round of the data flow check on a well-formed instruction, by its kind.\<close>

lemma check_loop_round:
  assumes chk: "check_loop prog pc mv masks = Some (Inr ())" and pc: "pc < length prog"
    and masks: "length masks = length prog" and code: "bpf_s_of (f_code (prog ! pc)) = Some code"
  defines "f \<equiv> prog ! pc" and "m \<equiv> mv AND masks ! pc"
  shows "\<exists>mv' masks'. check_loop prog (pc + 1) mv' masks' = Some (Inr ()) \<and>
    length masks' = length prog \<and> (\<forall>j < length prog. sub_mask (masks' ! j) (masks ! j)) \<and>
    (if code \<in> st_codes then mv' = m OR push_bit (unat (f_k f)) 1
     else if code \<in> ldm_codes then mv' = m \<and> m AND push_bit (unat (f_k f)) 1 \<noteq> 0
     else if code = BPF_S_JMP_JA then sub_mask (masks' ! (pc + 1 + unat (f_k f))) m
     else if code \<in> set cond_jumps then
       sub_mask (masks' ! (pc + 1 + unat (f_jt f))) m \<and> sub_mask (masks' ! (pc + 1 + unat (f_jf f))) m
     else mv' = m)"
proof -
  have "mem_get masks pc = Some (masks ! pc)" using pc masks by (simp add: mem_get_def)
  note def = chk [unfolded check_loop.simps [of prog pc], simplified pc this if_True bind.simps Let_def
    code option.case, folded f_def m_def]
  have sets: "set [BPF_S_ST, BPF_S_STX] = st_codes" "set [BPF_S_LD_MEM, BPF_S_LDX_MEM] = ldm_codes"
    by (auto simp: code_kinds)
  note def = def [unfolded sets]
  consider "code \<in> st_codes" | "code \<notin> st_codes" "code \<in> ldm_codes"
    | (ja) "code \<notin> st_codes" "code \<notin> ldm_codes" "code = BPF_S_JMP_JA"
    | (cond) "code \<notin> st_codes" "code \<notin> ldm_codes" "code \<noteq> BPF_S_JMP_JA" "code \<in> set cond_jumps"
    | "code \<notin> st_codes" "code \<notin> ldm_codes" "code \<noteq> BPF_S_JMP_JA" "code \<notin> set cond_jumps"
    by blast
  then show ?thesis
  proof cases
    case ja
    let ?t = "pc + 1 + unat (f_k f)"
    from ja def have "?t < length masks"
      "check_loop prog (pc + 1) (NOT 0) (masks[?t := masks ! ?t AND m]) = Some (Inr ())"
      by (auto simp: mask_and_Some bind_eq_Some_conv)
    with ja masks show ?thesis
      by (intro exI [of _ "NOT 0"] exI [of _ "masks[?t := masks ! ?t AND m]"]) (auto simp: nth_list_update)
  next
    case cond
    let ?t = "pc + 1 + unat (f_jt f)" and ?e = "pc + 1 + unat (f_jf f)"
    let ?m1 = "masks[?t := masks ! ?t AND m]"
    let ?m2 = "?m1[?e := ?m1 ! ?e AND m]"
    from cond def have "?t < length masks" "?e < length masks"
      "check_loop prog (pc + 1) (NOT 0) ?m2 = Some (Inr ())"
      by (auto simp: mask_and_Some bind_eq_Some_conv)
    moreover have "sub_mask (?m2 ! j) (masks ! j)" if "j < length masks" for j
      by (rule sub_mask_trans [OF sub_mask_update sub_mask_update]) (use that in simp_all)
    moreover have "sub_mask (?m2 ! ?t) m" "sub_mask (?m2 ! ?e) m"
      using calculation(1,2) by (auto simp: nth_list_update intro: sub_mask_trans)
    ultimately show ?thesis
      using cond masks by (intro exI [of _ "NOT 0"] exI [of _ ?m2]) auto
  qed (use def masks in \<open>auto split: if_splits\<close>)
qed

definition is_nlattr_read :: "sk_buff \<Rightarrow> sock_filter \<Rightarrow> bool" where
  "is_nlattr_read skb f \<longleftrightarrow> bpf_s_of (f_code f) = Some BPF_S_ANC_NLATTR_NEST \<or>
     bpf_s_of (f_code f) = Some BPF_S_ANC_NLATTR \<and> skb_len skb < 4"

text \<open>
  A run started at \<open>j\<close>, with the cells written that the checker counts on there, returns, unless
  an attribute search reads outside the packet.
\<close>

definition safe_run :: "sk_buff \<Rightarrow> sock_filter list \<Rightarrow> bpf_fault + u32 \<Rightarrow> bool" where
  "safe_run skb prog r \<longleftrightarrow>
     (case r of Inr v \<Rightarrow> True | Inl e \<Rightarrow> e = Bad_read \<and> list_ex (is_nlattr_read skb) prog)"

lemma cells_ok_st:
  assumes "cells_ok m M" and "k < BPF_MEMWORDS"
  shows "cells_ok (m OR push_bit k 1) (M[k := Some v])"
  using assms by (auto simp: cells_ok_def bit_simps nth_list_update)

lemma cells_ok_ld:
  assumes "cells_ok m M" and "k < BPF_MEMWORDS" and "m AND push_bit k 1 \<noteq> 0"
  shows "k < length M \<and> M ! k \<noteq> None"
proof -
  have "bit m k"
  proof (rule ccontr)
    assume "\<not> bit m k"
    then have "m AND push_bit k 1 = 0" by (intro bit_word_eqI) (auto simp: bit_simps)
    with assms(3) show False by simp
  qed
  then show ?thesis using assms(1,2) by (auto simp: cells_ok_def)
qed

lemma safe_step:
  assumes pc: "pc < length prog" and wf: "wf_insn (length prog) pc (prog ! pc)"
    and last: "pc = length prog - 1 \<Longrightarrow> bpf_s_of (f_code (prog ! pc)) \<in> Some ` ret_codes"
    and skb: "skb_len skb < 2 ^ 31" and masks: "length masks = length prog"
    and chk: "check_loop prog pc mv masks = Some (Inr ())"
    and cells: "cells_ok (mv AND masks ! pc) (rM st)"
    and IH: "\<And>mv masks j st. check_loop prog (pc + 1) mv masks = Some (Inr ()) \<Longrightarrow>
      length masks = length prog \<Longrightarrow> pc + 1 \<le> j \<Longrightarrow> j < length prog \<Longrightarrow>
      cells_ok (mask_at (pc + 1) mv masks j) (rM st) \<Longrightarrow> safe_run skb prog (run_from env skb prog j st)"
  shows "safe_run skb prog (run_from env skb prog pc st)"
proof -
  let ?f = "prog ! pc" and ?m = "mv AND masks ! pc"
  obtain code where code: "bpf_s_of (f_code ?f) = Some code"
    using wf by (auto simp: wf_insn_def split: option.splits)
  obtain mv' masks' where c: "check_loop prog (pc + 1) mv' masks' = Some (Inr ())"
    "length masks' = length prog" and kind:
    "if code \<in> st_codes then mv' = ?m OR push_bit (unat (f_k ?f)) 1
     else if code \<in> ldm_codes then mv' = ?m \<and> ?m AND push_bit (unat (f_k ?f)) 1 \<noteq> 0
     else if code = BPF_S_JMP_JA then sub_mask (masks' ! (pc + 1 + unat (f_k ?f))) ?m
     else if code \<in> set cond_jumps then
       sub_mask (masks' ! (pc + 1 + unat (f_jt ?f))) ?m \<and> sub_mask (masks' ! (pc + 1 + unat (f_jf ?f))) ?m
     else mv' = ?m"
    using check_loop_round [OF chk pc masks code] by blast
  have run: "run_from env skb prog pc st = (case sk_step env skb ?f st of
      Continue n st \<Rightarrow> run_from env skb prog (pc + n) st | Return v \<Rightarrow> Inr v | Fault e \<Rightarrow> Inl e)"
    using pc by (subst run_from.simps) simp
  have nxt: "safe_run skb prog (run_from env skb prog (pc + 1) st')"
    if "cells_ok mv' (rM st')" "code \<notin> ret_codes" for st'
  proof -
    have "pc + 1 < length prog" using last that(2) code pc by (cases "pc = length prog - 1") auto
    then show ?thesis
      using IH [OF c, of "pc + 1" st'] cells_ok_sub [OF that(1)] by (simp add: mask_at_def)
  qed
  have jump: "safe_run skb prog (run_from env skb prog (pc + (1 + n)) st)"
    if "sub_mask (masks' ! (pc + 1 + n)) ?m" "pc + 1 + n < length prog" for n
  proof -
    have "cells_ok (masks' ! (pc + 1 + n)) (rM st)" using cells_ok_sub [OF cells that(1)] .
    then have "cells_ok (mask_at (pc + 1) mv' masks' (pc + 1 + n)) (rM st)"
      by (auto simp: mask_at_def intro: cells_ok_sub)
    then show ?thesis using IH [OF c, of "pc + 1 + n" st] that(2) by (simp add: add.assoc)
  qed
  have W: "code \<in> st_codes \<union> ldm_codes \<Longrightarrow> unat (f_k ?f) < BPF_MEMWORDS"
    "code = BPF_S_JMP_JA \<Longrightarrow> pc + 1 + unat (f_k ?f) < length prog"
    "code \<in> set cond_jumps \<Longrightarrow> pc + 1 + unat (f_jt ?f) < length prog \<and> pc + 1 + unat (f_jf ?f) < length prog"
    using wf code by (simp_all add: wf_insn_def)
  have len: "length (rM st) = BPF_MEMWORDS" using cells by (simp add: cells_ok_def)
  have read: "\<exists>f \<in> set prog. is_nlattr_read skb f" if "is_nlattr_read skb ?f" using that pc by auto
  from sk_step_cases [OF code, of env skb st] show ?thesis
  proof (elim disjE conjE exE)
    fix v assume "sk_step env skb ?f st = Return v"
    then show ?thesis by (simp add: run safe_run_def)
  next
    fix st' assume s: "code \<notin> ret_codes" "code \<notin> st_codes" "code \<notin> set (BPF_S_JMP_JA # cond_jumps)"
      "sk_step env skb ?f st = Continue 1 st'" "rM st' = rM st"
    then have "mv' = ?m" using kind by (simp split: if_splits)
    with s cells nxt [of st'] show ?thesis by (simp add: run)
  next
    assume st: "code \<in> st_codes" and s: "unat (f_k ?f) < length (rM st) \<longrightarrow>
      (\<exists>v. sk_step env skb ?f st = Continue 1 (st\<lparr>rM := (rM st)[unat (f_k ?f) := Some v]\<rparr>))"
    then obtain v where "sk_step env skb ?f st = Continue 1 (st\<lparr>rM := (rM st)[unat (f_k ?f) := Some v]\<rparr>)"
      using W(1) len by auto
    moreover have "code \<notin> ret_codes" using st by (auto simp: code_kinds)
    ultimately show ?thesis using st kind cells_ok_st [OF cells W(1)] nxt by (simp add: run)
  next
    assume ld: "code \<in> ldm_codes" and "\<not> (unat (f_k ?f) < length (rM st) \<and> rM st ! unat (f_k ?f) \<noteq> None)"
    moreover have "code \<notin> st_codes" using ld by (auto simp: code_kinds)
    ultimately show ?thesis using cells_ok_ld [OF cells W(1)] kind by simp
  next
    assume s: "code = BPF_S_JMP_JA" "sk_step env skb ?f st = Continue (1 + unat (f_k ?f)) st"
    moreover have "BPF_S_JMP_JA \<notin> st_codes" "BPF_S_JMP_JA \<notin> ldm_codes" by (auto simp: code_kinds)
    ultimately show ?thesis using jump [of "unat (f_k ?f)"] kind W(2) by (simp add: run)
  next
    assume s: "code \<in> set cond_jumps" "sk_step env skb ?f st = Continue (1 + unat (f_jt ?f)) st"
    then have "sub_mask (masks' ! (pc + 1 + unat (f_jt ?f))) ?m"
      using kind mem_kind(2) [of code] mem_kind(5) by (auto split: if_splits)
    with s show ?thesis using jump [of "unat (f_jt ?f)"] W(3) by (simp add: run)
  next
    assume s: "code \<in> set cond_jumps" "sk_step env skb ?f st = Continue (1 + unat (f_jf ?f)) st"
    then have "sub_mask (masks' ! (pc + 1 + unat (f_jf ?f))) ?m"
      using kind mem_kind(2) [of code] mem_kind(5) by (auto split: if_splits)
    with s show ?thesis using jump [of "unat (f_jf ?f)"] W(3) by (simp add: run)
  next
    assume s: "code = BPF_S_ANC_NLATTR" "sk_anc_nlattr skb st = Fault Bad_read"
      "sk_step env skb ?f st = Fault Bad_read"
    then have "skb_len skb < 4" using sk_anc_nlattr_no_fault [OF _ skb] by fastforce
    with s show ?thesis using code read by (simp add: run safe_run_def is_nlattr_read_def list_ex_iff)
  next
    assume "code = BPF_S_ANC_NLATTR_NEST" "sk_step env skb ?f st = Fault Bad_read"
    then show ?thesis using code read by (simp add: run safe_run_def is_nlattr_read_def list_ex_iff)
  qed
qed

lemma check_loop_safe:
  assumes wf: "\<And>i. i < length prog \<Longrightarrow> wf_insn (length prog) i (prog ! i)"
    and last: "prog \<noteq> []" "bpf_s_of (f_code (prog ! (length prog - 1))) \<in> Some ` ret_codes"
    and skb: "skb_len skb < 2 ^ 31"
    and "check_loop prog pc mv masks = Some (Inr ())" "length masks = length prog"
    and "pc \<le> j" "j < length prog" "cells_ok (mask_at pc mv masks j) (rM st)"
  shows "safe_run skb prog (run_from env skb prog j st)"
  using assms(5-)
proof (induction "length prog - pc" arbitrary: pc mv masks j st)
  case 0
  then show ?case by simp
next
  case (Suc n)
  have pc: "pc < length prog" using Suc.hyps(2) by simp
  have n: "n = length prog - (pc + 1)" using Suc.hyps(2) by simp
  show ?case
  proof (cases "j = pc")
    case True
    have "safe_run skb prog (run_from env skb prog pc st)"
      by (rule safe_step [OF pc wf [OF pc] _ skb Suc.prems(2,1)])
        (use last True Suc.prems Suc.hyps(1) [OF n] in \<open>auto simp: mask_at_def\<close>)
    with True show ?thesis by simp
  next
    case False
    obtain code where code: "bpf_s_of (f_code (prog ! pc)) = Some code"
      using wf [OF pc] by (auto simp: wf_insn_def split: option.splits)
    obtain mv' masks' where c: "check_loop prog (pc + 1) mv' masks' = Some (Inr ())"
      "length masks' = length prog" "\<forall>j < length prog. sub_mask (masks' ! j) (masks ! j)"
      using check_loop_round [OF Suc.prems(1) pc Suc.prems(2) code] by blast
    have "sub_mask (mask_at (pc + 1) mv' masks' j) (mask_at pc mv masks j)"
      using c(3) False Suc.prems(4) by (auto simp: mask_at_def intro: sub_mask_trans [OF sub_mask_simps(3)])
    then show ?thesis
      using Suc.hyps(1) [OF n c(1,2) _ Suc.prems(4)] False Suc.prems(3,5) cells_ok_sub by auto
  qed
qed

lemma sk_chk_filter_accepts:
  assumes "sk_chk_filter ok prog = Some (Inr prog')"
  shows "prog' \<noteq> [] \<and> length prog' = length prog \<and>
    (\<forall>i < length prog'. wf_insn (length prog') i (prog' ! i)) \<and>
    bpf_s_of (f_code (prog' ! (length prog' - 1))) \<in> Some ` ret_codes \<and>
    check_loop prog' 0 0 (replicate (length prog') 0xFFFF) = Some (Inr ())"
proof -
  obtain p r where p: "chk_insns (length prog) 0 prog = Inr p" "check_load_and_stores ok p = Some r"
    "prog \<noteq> []" "(case r of Inl e \<Rightarrow> Inl e | Inr _ \<Rightarrow> Inr p) = Inr prog'"
    "bpf_s_of (f_code (p ! (length prog - 1))) \<in> set [Some BPF_S_RET_K, Some BPF_S_RET_A]"
    using assms by (cases "chk_insns (length prog) 0 prog")
      (auto simp: sk_chk_filter_def Let_def bind_eq_Some_conv split: if_splits)
  then have c: "prog \<noteq> []" "chk_insns (length prog) 0 prog = Inr prog'"
    "bpf_s_of (f_code (prog' ! (length prog - 1))) \<in> set [Some BPF_S_RET_K, Some BPF_S_RET_A]"
    "check_load_and_stores ok prog' = Some (Inr ())"
    by (cases r; simp)+
  moreover have "length prog' = length prog" "\<forall>i < length prog. wf_insn (length prog) i (prog' ! i)"
    using chk_insns_wf [OF c(2)] by auto
  ultimately show ?thesis by (auto simp: check_load_and_stores_def ret_codes_def split: if_splits)
qed

lemma accepted_filter_safe:
  assumes chk: "sk_chk_filter ok prog = Some (Inr prog')" and skb: "skb_len skb < 2 ^ 31"
  shows "safe_run skb prog' (sk_run_filter env skb prog')"
  unfolding sk_run_filter_def
  by (rule check_loop_safe [where pc = 0 and mv = 0 and masks = "replicate (length prog') 0xFFFF"])
    (use sk_chk_filter_accepts [OF chk] skb in \<open>auto simp: mask_at_def cells_ok_def\<close>)

end
