(* ===== verification/Recip.thy ===== *)
theory Recip
  imports Bpf
begin

text \<open>
  The division by a constant of the packet filter, \<^verbatim>\<open>lib/reciprocal_div.c\<close>: the checker
  replaces the divisor by its scaled reciprocal and the interpreter multiplies.
\<close>

lemma unat_ucast_u64: "unat (ucast w :: u64) = unat w" for w :: u32
  using unat_less_2p32 [of w] by (simp add: unsigned_ucast_eq take_bit_nat_eq_self_iff)

lemma unat_ucast_u32: "unat w < 2 ^ 32 \<Longrightarrow> unat (ucast w :: u32) = unat w" for w :: u64
  by (simp add: unsigned_ucast_eq take_bit_nat_eq_self_iff)

lemma reciprocal_value_unat:
  assumes "2 \<le> unat k"
  shows "unat (reciprocal_value k) = (2 ^ 32 + (unat k - 1)) div unat k"
proof -
  have k32: "unat k < 2 ^ 32" using unat_less_2p32 [of k] by simp
  have k1: "unat (k - 1) = unat k - 1" using assms by (subst unat_sub_nowrap) auto
  let ?v = "push_bit 32 1 + ucast (k - 1) :: u64"
  have v: "unat ?v = 2 ^ 32 + (unat k - 1)"
    using k32 by (subst unat_add_nowrap) (simp_all add: unat_ucast_u64 k1)
  have "unat (?v div ucast k) = (2 ^ 32 + (unat k - 1)) div unat k"
    by (simp only: unat_div v unat_ucast_u64)
  moreover have "(2 ^ 32 + (unat k - 1)) div unat k < 2 ^ 32"
    using assms k32 by (subst div_less_iff_less_mult) (auto intro: order_less_le_trans [of _ "2 ^ 32 * 2"])
  ultimately show ?thesis
    unfolding reciprocal_value_def Let_def by (subst unat_ucast_u32) simp_all
qed

lemma reciprocal_divide_unat: "unat (reciprocal_divide A R) = unat A * unat R div 2 ^ 32"
proof -
  have a: "unat A < 2 ^ 32" "unat R < 2 ^ 32" using unat_less_2p32 [of A] unat_less_2p32 [of R] by simp_all
  have m: "unat A * unat R < 2 ^ 32 * 2 ^ 32" using a by (intro mult_strict_mono) auto
  have "unat (ucast A * ucast R :: u64) = unat A * unat R"
    using m by (subst unat_mult_nowrap) (simp_all add: unat_ucast_u64)
  then have "unat (drop_bit 32 (ucast A * ucast R :: u64)) = unat A * unat R div 2 ^ 32"
    by (simp only: unat_drop_bit_eq) (simp only: drop_bit_eq_div)
  moreover have "unat A * unat R div 2 ^ 32 < 2 ^ 32" using m by (simp add: div_less_iff_less_mult)
  ultimately show ?thesis
    unfolding reciprocal_divide_def by (subst unat_ucast_u32) simp_all
qed

text \<open>\<open>R\<close> is \<open>N / k\<close> rounded up.\<close>

lemma reciprocal_bounds:
  fixes k N :: nat
  assumes "0 < k"
  shows "N \<le> (N + (k - 1)) div k * k" and "(N + (k - 1)) div k * k \<le> N + (k - 1)"
proof -
  have "N + (k - 1) = (N + (k - 1)) div k * k + (N + (k - 1)) mod k" by simp
  moreover have "(N + (k - 1)) mod k < k" using assms by simp
  ultimately show "N \<le> (N + (k - 1)) div k * k" by linarith
qed simp

lemma reciprocal_floor:
  fixes a k N R :: nat
  assumes "0 < k" "0 < N" "N \<le> R * k" "R * k \<le> N + (k - 1)" "a < N"
  shows "a div k \<le> a * R div N" and "a * R div N \<le> a div k + 1"
    and "a * k \<le> N \<Longrightarrow> a * R div N = a div k"
proof -
  let ?q = "a div k" and ?r = "a mod k"
  have a: "a = ?q * k + ?r" "?r < k" using assms(1) by simp_all
  have lo: "?q * N \<le> a * R"
  proof -
    have "?q * N \<le> ?q * (R * k)" using assms(3) by simp
    also have "\<dots> = (?q * k) * R" by (simp add: ac_simps)
    also have "\<dots> \<le> a * R" using a(1) by (metis le_add1 mult_le_mono1)
    finally show ?thesis .
  qed
  then show "?q \<le> a * R div N" using assms(2) by (simp add: less_eq_div_iff_mult_less_eq)
  have hi: "a * R * k \<le> a * N + a * (k - 1)"
    using mult_le_mono2 [OF assms(4), of a] by (simp add: algebra_simps)
  have "a * R * k < (?q + 2) * N * k"
  proof -
    have "a < (?q + 1) * k" using dividend_less_div_times [OF assms(1), of a] by simp
    then have "a * N \<le> (?q + 1) * k * N" by simp
    moreover have "a * (k - 1) < N * k" using assms(1,5) by (intro mult_strict_mono) auto
    ultimately show ?thesis using hi by (simp add: algebra_simps)
  qed
  then have "a * R < (?q + 2) * N" by simp
  then show "a * R div N \<le> ?q + 1" using less_mult_imp_div_less [of "a * R" "?q + 2" N] by simp
  assume small: "a * k \<le> N"
  have "a * R * k < (?q + 1) * N * k"
  proof (cases "a = 0")
    case False
    have "a * (k - 1) < N" using small False assms(1) by (cases k) auto
    moreover have "a + 1 \<le> (?q + 1) * k" using dividend_less_div_times [OF assms(1), of a] by simp
    then have "(a + 1) * N \<le> (?q + 1) * k * N" by (rule mult_le_mono1)
    ultimately show ?thesis using hi by (simp add: algebra_simps)
  qed (use assms in simp)
  then have "a * R < (?q + 1) * N" by simp
  then have "a * R div N \<le> ?q" using less_mult_imp_div_less [of "a * R" "?q + 1" N] by simp
  with \<open>?q \<le> a * R div N\<close> show "a * R div N = ?q" by simp
qed

text \<open>For the divisor 1 the reciprocal does not fit into 32 bits.\<close>

lemma reciprocal_value_one: "reciprocal_value 1 = 0"
  by (simp add: reciprocal_value_def)

lemma reciprocal_divide_zero: "reciprocal_divide A 0 = 0"
  by (simp add: reciprocal_divide_def)

text \<open>
  C9. Division by a constant \<open>k\<close> of at least 2: the product with the reciprocal is the quotient
  or one more, and exactly the quotient while \<open>A * k\<close> is at most \<open>2 ^ 32\<close>.  Division by 1 yields 0
  for every dividend, because the reciprocal of 1 is \<open>2 ^ 32\<close> cut to 32 bits.
\<close>

theorem reciprocal_divide_error:
  assumes "2 \<le> unat k"
  shows "unat (reciprocal_divide A (reciprocal_value k)) \<in> {unat (A div k), unat (A div k) + 1} \<and>
    (unat A * unat k \<le> 2 ^ 32 \<longrightarrow> reciprocal_divide A (reciprocal_value k) = A div k) \<and>
    reciprocal_divide A (reciprocal_value 1) = 0"
proof -
  have k: "0 < unat k" using assms by simp
  have A: "unat A < 2 ^ 32" using unat_less_2p32 [of A] by simp
  note f = reciprocal_floor [OF k _ reciprocal_bounds [OF k] A]
  have "unat (reciprocal_divide A (reciprocal_value k)) =
      unat A * ((2 ^ 32 + (unat k - 1)) div unat k) div 2 ^ 32"
    by (simp only: reciprocal_divide_unat reciprocal_value_unat [OF assms])
  with f show ?thesis
    by (auto simp: unat_div word_unat_eq_iff reciprocal_value_one reciprocal_divide_zero)
qed

theorem reciprocal_divide_error_witness:
  "reciprocal_divide 1000 (reciprocal_value 7) = 1000 div 7"
  using reciprocal_divide_error [of 7 1000] by simp

end
