(* ===== verification/Skb_Trim.thy ===== *)
theory Skb_Trim
  imports Skb
begin

text \<open>
  Cutting a socket buffer to a length: \<open>pskb_trim\<close> (\<^verbatim>\<open>include/linux/skbuff.h\<close>) with \<open>___pskb_trim\<close>
  (\<^verbatim>\<open>net/core/skbuff.c\<close>).

  Reference counts and the allocator are not in the model.  Whether a buffer is cloned or shared, and
  whether \<open>pskb_expand_head\<close> and \<open>skb_clone\<close> get their memory, are answers of a \<open>trim_env\<close> for the
  buffer's place: the empty path for the packet, \<open>p @ [i]\<close> for the entry \<open>i\<close> of the list of
  fragments of the buffer at \<open>p\<close>.  A private copy has the bytes of the original, so taking one
  does not show in the model.
\<close>

section \<open>The code\<close>

record trim_env =
  te_cloned :: "nat list \<Rightarrow> bool"
  te_expand_ok :: "nat list \<Rightarrow> bool"
  te_shared :: "nat list \<Rightarrow> bool"
  te_clone_ok :: "nat list \<Rightarrow> bool"

text \<open>
  The linear part holds the bytes up to the tail pointer, so to set the tail pointer back is to drop
  the bytes behind it.
\<close>

definition skb_set_tail_pointer :: "sk_buff \<Rightarrow> nat \<Rightarrow> sk_buff" where
  "skb_set_tail_pointer skb offset =
     Sk_buff (take (skb_data skb + offset) (skb_head skb)) (skb_data skb) (skb_network_header skb)
       (skb_mac_header skb) (skb_frags skb) (skb_frag_list skb) (skb_meta skb)"

definition raw_skb_trim :: "sk_buff \<Rightarrow> nat \<Rightarrow> sk_buff" where
  "raw_skb_trim skb len = (if skb_is_nonlinear skb then skb else skb_set_tail_pointer skb len)"

text \<open>The page fragments and the list of buffers are given up.\<close>

definition skb_drop_pages :: "sk_buff \<Rightarrow> sk_buff" where
  "skb_drop_pages skb =
     Sk_buff (skb_head skb) (skb_data skb) (skb_network_header skb) (skb_mac_header skb) [] [] (skb_meta skb)"

text \<open>The loop over the page fragments: the fragments kept, or the offset reached behind all of them.\<close>

fun trim_frags :: "byte list list \<Rightarrow> nat \<Rightarrow> nat \<Rightarrow> byte list list + nat" where
  "trim_frags [] offset len = Inr offset"
| "trim_frags (f # fs) offset len =
     (let e = offset + length f
      in if e < len
         then (case trim_frags fs e len of Inl fs' \<Rightarrow> Inl (f # fs') | Inr offset \<Rightarrow> Inr offset)
         else Inl [take (len - offset) f])"

function pskb_trim :: "trim_env \<Rightarrow> nat list \<Rightarrow> sk_buff \<Rightarrow> nat \<Rightarrow> unit result \<times> sk_buff"
and trim_frag_list ::
  "trim_env \<Rightarrow> nat list \<Rightarrow> nat \<Rightarrow> sk_buff list \<Rightarrow> nat \<Rightarrow> nat \<Rightarrow> unit result \<times> sk_buff list"
where
  "pskb_trim env p (Sk_buff hed dt nh mh frags fl m) len =
     (let skb = Sk_buff hed dt nh mh frags fl m; offset = skb_headlen skb
      in if \<not> len < skb_len skb then (Inr (), skb)
         else if \<not> skb_is_nonlinear skb then (Inr (), raw_skb_trim skb len)
         else if te_cloned env p \<and> \<not> te_expand_ok env p then (Inl ENOMEM, skb)
         else if offset \<ge> len then (Inr (), skb_set_tail_pointer (skb_drop_pages skb) len)
         else case trim_frags frags offset len of
                Inl frags' \<Rightarrow> (Inr (), Sk_buff hed dt nh mh frags' [] m)
              | Inr offset \<Rightarrow>
                  (case trim_frag_list env p 0 fl offset len of
                     (r, fl') \<Rightarrow> (r, Sk_buff hed dt nh mh frags fl' m)))"
| "trim_frag_list env p i [] offset len = (Inr (), [])"
| "trim_frag_list env p i (frag # fl) offset len =
     (let e = offset + skb_len frag
      in if te_shared env (p @ [i]) \<and> \<not> te_clone_ok env (p @ [i]) then (Inl ENOMEM, frag # fl)
         else if e < len
         then (case trim_frag_list env p (i + 1) fl e len of (r, fl') \<Rightarrow> (r, frag # fl'))
         else if e > len
         then (case pskb_trim env (p @ [i]) frag (len - offset) of
                 (Inl err, frag') \<Rightarrow> (Inl err, frag' # fl)
               | (Inr _, frag') \<Rightarrow> (Inr (), [frag']))
         else (Inr (), [frag]))"
  by pat_completeness auto
termination
  by (relation "measure (case_sum (\<lambda>(_, _, skb, _). size skb) (\<lambda>(_, _, _, fl, _). size_list size fl))")
    simp_all

declare pskb_trim.simps [simp del] trim_frag_list.simps [simp del]

section \<open>Trimming keeps a prefix\<close>

lemma trim_frags_prefix:
  "offset < len \<Longrightarrow>
   (case trim_frags fs offset len of
      Inl fs' \<Rightarrow> len \<le> offset + length (concat fs) \<and> concat fs' = take (len - offset) (concat fs)
    | Inr e \<Rightarrow> e = offset + length (concat fs) \<and> e < len)"
proof (induction fs arbitrary: offset)
  case (Cons f fs)
  show ?case
  proof (cases "offset + length f < len")
    case True
    with Cons.IH [of "offset + length f"] show ?thesis
      by (auto simp: Let_def split: sum.splits)
  next
    case False
    then show ?thesis using Cons.prems by (simp add: Let_def)
  qed
qed simp

lemma skb_drop_pages_cut:
  "len \<le> skb_headlen skb \<Longrightarrow>
   skb_bytes (skb_set_tail_pointer (skb_drop_pages skb) len) = take len (skb_bytes skb)"
  by (cases skb) (simp add: skb_drop_pages_def skb_set_tail_pointer_def skb_headlen_def drop_take)

lemma raw_skb_trim_cut:
  "\<not> skb_is_nonlinear skb \<Longrightarrow> skb_bytes (raw_skb_trim skb len) = take len (skb_bytes skb)"
proof (cases skb)
  case (Sk_buff hed dt nh mh frags fl m)
  assume "\<not> skb_is_nonlinear skb"
  moreover from this have "length (concat frags) + length (concat (map skb_bytes fl)) = 0"
    using Sk_buff length_skb_bytes [of skb]
    by (simp add: skb_is_nonlinear_def skb_headlen_def del: length_concat)
  then have "concat frags = []" "concat (map skb_bytes fl) = []" by (simp_all del: concat_eq_Nil_conv)
  ultimately show ?thesis
    using Sk_buff
    by (simp add: raw_skb_trim_def skb_set_tail_pointer_def drop_take del: concat_eq_Nil_conv)
qed

lemma trim_prefix:
  "case pskb_trim env p skb len of
     (Inr _, skb') \<Rightarrow> skb_bytes skb' = take len (skb_bytes skb)
   | (Inl e, skb') \<Rightarrow> e = ENOMEM \<and> skb' = skb"
  "offset < len \<Longrightarrow> len \<le> offset + length (concat (map skb_bytes fl)) \<Longrightarrow>
   case trim_frag_list env p i fl offset len of
     (Inr _, fl') \<Rightarrow> concat (map skb_bytes fl') = take (len - offset) (concat (map skb_bytes fl))
   | (Inl e, fl') \<Rightarrow> e = ENOMEM \<and> fl' = fl"
proof (induction env p skb len and env p i fl offset len rule: pskb_trim_trim_frag_list.induct)
  case (1 env p hed dt nh mh frags fl m len)
  define skb where "skb = Sk_buff hed dt nh mh frags fl m"
  have h: "skb_headlen skb = length hed - dt" by (simp add: skb_def skb_headlen_def)
  note step = pskb_trim.simps [of env p hed dt nh mh frags fl m len, folded skb_def]
  show ?case unfolding skb_def [symmetric]
  proof (cases "len < skb_len skb \<and> skb_is_nonlinear skb \<and> (te_cloned env p \<longrightarrow> te_expand_ok env p) \<and>
      skb_headlen skb < len")
    case False
    then show "case pskb_trim env p skb len of
        (Inr _, skb') \<Rightarrow> skb_bytes skb' = take len (skb_bytes skb) | (Inl e, skb') \<Rightarrow> e = ENOMEM \<and> skb' = skb"
      unfolding step by (auto simp: Let_def skb_drop_pages_cut raw_skb_trim_cut)
  next
    case True
    note tf = trim_frags_prefix [of "skb_headlen skb" len frags]
    show "case pskb_trim env p skb len of
        (Inr _, skb') \<Rightarrow> skb_bytes skb' = take len (skb_bytes skb) | (Inl e, skb') \<Rightarrow> e = ENOMEM \<and> skb' = skb"
    proof (cases "trim_frags frags (skb_headlen skb) len")
      case (Inl frags')
      then show ?thesis using True tf h unfolding step by (simp add: Let_def skb_def)
    next
      case (Inr e)
      then have e: "e = skb_headlen skb + length (concat frags)" "e < len" using tf True by auto
      have l: "len \<le> e + length (concat (map skb_bytes fl))"
        using True e(1) length_skb_bytes [of skb] h by (simp add: skb_def)
      have "case trim_frag_list env p 0 fl e len of
          (Inr _, fl') \<Rightarrow> concat (map skb_bytes fl') = take (len - e) (concat (map skb_bytes fl))
        | (Inl e, fl') \<Rightarrow> e = ENOMEM \<and> fl' = fl"
        using "1.IH" [OF refl refl] True Inr e(2) l unfolding skb_def by auto
      then show ?thesis
        using True Inr e h unfolding step
        by (auto simp: Let_def skb_def split: prod.splits sum.splits)
    qed
  qed
next
  case (2 env p i offset len)
  then show ?case by simp
next
  case (3 env p i frag fl offset len)
  then show ?case
    by (auto simp: trim_frag_list.simps Let_def split: prod.splits sum.splits if_splits)
qed

lemma pskb_trim_cases:
  assumes "pskb_trim env p skb len = (r, skb')"
  shows "r = Inr () \<and> skb_bytes skb' = take len (skb_bytes skb) \<or> r = Inl ENOMEM \<and> skb' = skb"
  using trim_prefix(1) [where env = env and p = p and skb = skb and len = len] assms
  by (cases r) simp_all

end
