(* ===== verification/Bpf_Sock.thy ===== *)
theory Bpf_Sock
  imports Bpf_Check Recip Skb_Trim
begin

text \<open>
  Attaching a filter to a socket, detaching it and running it on a packet received, with the socket's
  account of option memory
  (\<^verbatim>\<open>net/core/filter.c\<close>, \<^verbatim>\<open>net/core/sock.c\<close>, \<^verbatim>\<open>include/net/sock.h\<close>), and the
  correctness of the packet filter as a whole.
\<close>

section \<open>Sockets and their filters\<close>

record sk_filter =
  fp_refcnt :: u32
  fp_len :: u32
  fp_insns :: "sock_filter list"

record sock =
  sk_omem_alloc :: u32
  sk_filter_of :: "sk_filter option"

record sock_fprog =
  fprog_len :: u16
  fprog_filter :: "sock_filter list option"

text \<open>Sizes of \<open>struct sock_filter\<close> and, with 32-bit pointers, of \<open>struct sk_filter\<close>.\<close>

definition sizeof_sock_filter :: u32 where "sizeof_sock_filter = 8"

definition sizeof_sk_filter :: u32 where "sizeof_sk_filter = 20"

definition sk_filter_len :: "sk_filter \<Rightarrow> u32" where
  "sk_filter_len fp = fp_len fp * sizeof_sock_filter + sizeof_sk_filter"

text \<open>\<open>km\<close> tells whether \<open>kmalloc\<close> succeeds for a size; a refused request leaves the account as
  it was.\<close>

definition sock_kmalloc :: "(u32 \<Rightarrow> bool) \<Rightarrow> u32 \<Rightarrow> sock \<Rightarrow> u32 \<Rightarrow> sock option" where
  "sock_kmalloc km optmem_max sk sz =
     (if sz \<le> optmem_max \<and> sk_omem_alloc sk + sz < optmem_max
      then (if km sz then Some (sk\<lparr>sk_omem_alloc := sk_omem_alloc sk + sz\<rparr>) else None)
      else None)"

definition sock_kfree_s :: "sock \<Rightarrow> u32 \<Rightarrow> sock" where
  "sock_kfree_s sk sz = sk\<lparr>sk_omem_alloc := sk_omem_alloc sk - sz\<rparr>"

text \<open>\<open>None\<close> when the last reference is gone and the filter is freed.\<close>

definition sk_filter_release :: "sk_filter \<Rightarrow> sk_filter option" where
  "sk_filter_release fp =
     (if fp_refcnt fp - 1 = 0 then None else Some (fp\<lparr>fp_refcnt := fp_refcnt fp - 1\<rparr>))"

definition sk_filter_uncharge :: "sock \<Rightarrow> sk_filter \<Rightarrow> sock \<times> sk_filter option" where
  "sk_filter_uncharge sk fp =
     (sk\<lparr>sk_omem_alloc := sk_omem_alloc sk - sk_filter_len fp\<rparr>, sk_filter_release fp)"

definition sk_filter_charge :: "sock \<Rightarrow> sk_filter \<Rightarrow> sock \<times> sk_filter" where
  "sk_filter_charge sk fp =
     (sk\<lparr>sk_omem_alloc := sk_omem_alloc sk + sk_filter_len fp\<rparr>, fp\<lparr>fp_refcnt := fp_refcnt fp + 1\<rparr>)"

text \<open>
  \<open>km\<close> and \<open>chk_ok\<close> are the answers of \<open>kmalloc\<close> for the filter and for the checker's masks.
  \<open>copy u n\<close> is \<open>copy_from_user\<close> for \<open>n\<close> instructions: \<open>None\<close> if some byte could not be read.
\<close>

type_synonym insn_copy = "sock_filter list \<Rightarrow> nat \<Rightarrow> sock_filter list option"

definition sk_attach_filter ::
  "(u32 \<Rightarrow> bool) \<Rightarrow> bool \<Rightarrow> insn_copy \<Rightarrow> u32 \<Rightarrow> sock_fprog \<Rightarrow> sock \<Rightarrow> (unit result \<times> sock) option" where
  "sk_attach_filter km chk_ok copy optmem_max fprog sk =
     (let fsize = sizeof_sock_filter * ucast (fprog_len fprog) in
      case fprog_filter fprog of
        None \<Rightarrow> Some (Inl EINVAL, sk)
      | Some user \<Rightarrow>
          (case sock_kmalloc km optmem_max sk (fsize + sizeof_sk_filter) of
             None \<Rightarrow> Some (Inl ENOMEM, sk)
           | Some sk \<Rightarrow>
               (case copy user (unat (fprog_len fprog)) of
                  None \<Rightarrow> Some (Inl EFAULT, sock_kfree_s sk (fsize + sizeof_sk_filter))
                | Some insns \<Rightarrow>
                    (let fp = \<lparr>fp_refcnt = 1, fp_len = ucast (fprog_len fprog), fp_insns = insns\<rparr> in
                     do {
                       r \<leftarrow> sk_chk_filter chk_ok insns;
                       case r of
                         Inl err \<Rightarrow> Some (Inl err, fst (sk_filter_uncharge sk fp))
                       | Inr insns \<Rightarrow>
                           (let old_fp = sk_filter_of sk;
                                sk = sk\<lparr>sk_filter_of := Some (fp\<lparr>fp_insns := insns\<rparr>)\<rparr>
                            in Some (Inr (), (case old_fp of
                                 None \<Rightarrow> sk
                               | Some old \<Rightarrow> fst (sk_filter_uncharge sk old))))
                     }))))"

definition sk_detach_filter :: "sock \<Rightarrow> unit result \<times> sock" where
  "sk_detach_filter sk =
     (case sk_filter_of sk of
        None \<Rightarrow> (Inl ENOENT, sk)
      | Some fp \<Rightarrow> (Inr (), fst (sk_filter_uncharge (sk\<lparr>sk_filter_of := None\<rparr>) fp)))"

text \<open>
  \<open>sk_filter\<close>, named apart from the structure: \<open>sec\<close> is the answer of the security module's hook
  \<open>security_sock_rcv_skb\<close>, \<open>tenv\<close> what trimming needs.  The result and the packet after the call, or the
  filter's fault.
\<close>

definition sk_filter_packet ::
  "bpf_env \<Rightarrow> trim_env \<Rightarrow> unit result \<Rightarrow> sock \<Rightarrow> sk_buff \<Rightarrow> bpf_fault + unit result \<times> sk_buff" where
  "sk_filter_packet env tenv sec sk skb =
     (case sec of
        Inl err \<Rightarrow> Inr (Inl err, skb)
      | Inr _ \<Rightarrow>
          (case sk_filter_of sk of
             None \<Rightarrow> Inr (Inr (), skb)
           | Some fp \<Rightarrow>
               (case sk_run_filter env skb (fp_insns fp) of
                  Inl fault \<Rightarrow> Inl fault
                | Inr pkt_len \<Rightarrow>
                    Inr (if pkt_len \<noteq> 0 then pskb_trim tenv [] skb (unat pkt_len) else (Inl EPERM, skb)))))"

section \<open>The checker never writes outside its masks\<close>

lemma check_loop_total:
  assumes wf: "\<And>i. i < length prog \<Longrightarrow> wf_insn (length prog) i (prog ! i)"
    and "length masks = length prog"
  shows "check_loop prog pc mv masks \<in> {Some (Inr ()), Some (Inl EINVAL)}"
  using assms(2)
proof (induction "length prog - pc" arbitrary: pc mv masks)
  case 0
  then show ?case by (simp add: check_loop.simps [of prog pc])
next
  case (Suc n)
  have pc: "pc < length prog" and n: "n = length prog - (pc + 1)" using Suc.hyps(2) by simp_all
  have g: "mem_get masks pc = Some (masks ! pc)" using pc Suc.prems by (simp add: mem_get_def)
  obtain code where code: "bpf_s_of (f_code (prog ! pc)) = Some code"
    using wf [OF pc] by (auto simp: wf_insn_def split: option.splits)
  have upd: "mask_and ms i v = Some (ms[i := ms ! i AND v])"
    if "i < length prog" "length ms = length prog" for ms i v
    using that by (simp add: mask_and_Some)
  define S :: "unit result option set" where "S = {Some (Inr ()), Some (Inl EINVAL)}"
  have IH: "check_loop prog (pc + 1) v ms \<in> S" if "length ms = length prog" for v ms
    using Suc.hyps(1) [OF n that] by (simp add: S_def)
  have S: "Some (Inl EINVAL) \<in> S" by (simp add: S_def)
  have "check_loop prog pc mv masks \<in> S"
  proof (cases "code = BPF_S_JMP_JA \<or> code \<in> set cond_jumps")
    case True
    then have k: "code \<notin> st_codes" "code \<notin> ldm_codes" using mem_kind(2) by blast+
    show ?thesis
      using True k wf [OF pc] pc g code Suc.prems
      by (subst check_loop.simps)
        (auto simp: wf_insn_def upd IH [simplified] Let_def st_codes_def ldm_codes_def mem_kind(5))
  next
    case False
    then show ?thesis
      using pc g code S Suc.prems by (subst check_loop.simps) (simp add: IH [simplified] Let_def)
  qed
  then show ?case by (simp add: S_def)
qed

lemma chk_insn_error: "chk_insn flen pc f = Inl e \<Longrightarrow> e = EINVAL"
  by (simp add: chk_insn_def split: option.splits if_splits)

lemma chk_insns_error: "chk_insns flen pc fs = Inl e \<Longrightarrow> e = EINVAL"
  by (induction fs arbitrary: pc) (auto split: sum.splits dest: chk_insn_error)

lemma sk_chk_filter_total:
  "\<exists>r. sk_chk_filter ok prog = Some r \<and> (\<forall>e. r = Inl e \<longrightarrow> e = EINVAL \<or> e = ENOMEM \<and> \<not> ok)"
proof (cases "chk_insns (length prog) 0 prog")
  case (Inl e)
  then have "e = EINVAL"
    using chk_insns_error by blast
  with Inl show ?thesis by (simp add: sk_chk_filter_def Let_def)
next
  case (Inr prog')
  have "length prog' = length prog" "\<And>i. i < length prog' \<Longrightarrow> wf_insn (length prog') i (prog' ! i)"
    using chk_insns_wf [OF Inr] by auto
  then have "check_load_and_stores ok prog' \<in> {Some (Inr ()), Some (Inl EINVAL), Some (Inl ENOMEM)}"
    "check_load_and_stores ok prog' = Some (Inl ENOMEM) \<Longrightarrow> \<not> ok"
    using check_loop_total [of prog' "replicate (length prog') 0xFFFF" 0 0]
    by (auto simp: check_load_and_stores_def)
  with Inr show ?thesis by (auto simp: sk_chk_filter_def Let_def)
qed

section \<open>Correctness of the packet filter\<close>

definition bpf_insn :: "u16 \<Rightarrow> u8 \<Rightarrow> u8 \<Rightarrow> u32 \<Rightarrow> sock_filter" where
  "bpf_insn c jt jf k = \<lparr>f_code = c, f_jt = jt, f_jf = jf, f_k = k\<rparr>"

definition bpf_env_demo :: bpf_env where
  "bpf_env_demo = \<lparr>be_shl = (\<lambda>a n. 0), be_shr = (\<lambda>a n. 0), be_cpu = 0\<rparr>"

text \<open>A filter that keeps IP packets whole: the length passes through scratch cell 3.\<close>

definition bpf_demo :: "sock_filter list" where
  "bpf_demo = [bpf_insn 0x28 0 0 12, bpf_insn 0x15 0 4 0x800, bpf_insn 0x80 0 0 0,
     bpf_insn 0x02 0 0 3, bpf_insn 0x60 0 0 3, bpf_insn 0x16 0 0 0, bpf_insn 0x06 0 0 0]"

definition bpf_demo_checked :: "sock_filter list" where
  "bpf_demo_checked = [bpf_insn 20 0 0 12, bpf_insn 38 0 4 0x800, bpf_insn 22 0 0 0,
     bpf_insn 35 0 0 3, bpf_insn 33 0 0 3, bpf_insn 2 0 0 0, bpf_insn 1 0 0 0]"

lemma bpf_demo_accepted: "sk_chk_filter True bpf_demo = Some (Inr bpf_demo_checked)"
  by code_simp

text \<open>
  C7. The checker is total, and what it accepts is safe.  On every program \<open>sk_chk_filter\<close> ends
  without writing outside its array of masks; it refuses only with \<open>EINVAL\<close>, or with \<open>ENOMEM\<close> when the
  masks cannot be allocated.  A filter it accepts returns a verdict on every packet, for every outcome
  of the operations C leaves open: it never fetches an instruction outside the program, never
  uses a scratch cell outside the array and never reads one that was not written.  The only
  fault left is a read outside the packet by an attribute search, of a nested attribute or in a
  packet shorter than an attribute header.
\<close>

theorem bpf_accepted_filter_safe:
  assumes "skb_len skb < 2 ^ 31"
  shows "case sk_chk_filter ok prog of
      None \<Rightarrow> False
    | Some (Inl e) \<Rightarrow> e \<in> (if ok then {EINVAL} else {EINVAL, ENOMEM})
    | Some (Inr prog') \<Rightarrow> length prog' = length prog \<and>
        ((\<exists>v. sk_run_filter env skb prog' = Inr v) \<or>
         sk_run_filter env skb prog' = Inl Bad_read \<and> list_ex (is_nlattr_read skb) prog')"
proof -
  obtain r where r: "sk_chk_filter ok prog = Some r" "\<forall>e. r = Inl e \<longrightarrow> e = EINVAL \<or> e = ENOMEM \<and> \<not> ok"
    using sk_chk_filter_total by blast
  show ?thesis
  proof (cases r)
    case (Inr prog')
    then have a: "sk_chk_filter ok prog = Some (Inr prog')" using r(1) by simp
    show ?thesis
      using accepted_filter_safe [OF a assms, of env] sk_chk_filter_accepts [of ok prog] a
      by (auto simp: safe_run_def split: sum.splits)
  qed (use r in auto)
qed

theorem bpf_accepted_filter_safe_witness:
  "(\<exists>v. sk_run_filter bpf_env_demo skb_demo bpf_demo_checked = Inr v) \<or>
    sk_run_filter bpf_env_demo skb_demo bpf_demo_checked = Inl Bad_read \<and>
    list_ex (is_nlattr_read skb_demo) bpf_demo_checked"
  using bpf_accepted_filter_safe [of skb_demo True bpf_demo bpf_env_demo] bpf_demo_accepted
  by (simp add: skb_demo_def)

lemmas bpf_eval_simps = sk_run_filter_def run_from.simps sk_step_def bpf_s_of_def bpf_s_enum_def
  bpf_insn_def sk_alu_def sk_jmp_def sk_load_def sk_mem_def sk_anc_def

lemma bpf_div_accepted:
  "sk_chk_filter True [bpf_insn 0x80 0 0 0, bpf_insn 0x34 0 0 1, bpf_insn 0x16 0 0 0] =
     Some (Inr [bpf_insn 22 0 0 0, bpf_insn 32 0 0 0, bpf_insn 2 0 0 0])"
  by code_simp

text \<open>
  Dividing by the constant 1 yields 0: the filter that returns the packet length divided by
  1 is accepted, and drops every packet, because the reciprocal of 1 is \<open>2 ^ 32\<close> cut to 32 bits.
\<close>

lemma bpf_div_by_one_drops:
  "\<exists>prog'. sk_chk_filter True [bpf_insn 0x80 0 0 0, bpf_insn 0x34 0 0 1, bpf_insn 0x16 0 0 0] =
     Some (Inr prog') \<and> sk_run_filter env skb prog' = Inr 0"
  by (intro exI conjI, rule bpf_div_accepted) (simp add: bpf_eval_simps reciprocal_divide_zero)

lemma bpf_nest_accepted:
  "sk_chk_filter True [bpf_insn 0x30 0 0 0xFFFFF010, bpf_insn 0x06 0 0 0] =
     Some (Inr [bpf_insn 50 0 0 0xFFFFF010, bpf_insn 1 0 0 0])"
  by code_simp

definition skb_nest :: sk_buff where
  "skb_nest = Sk_buff [0xFF, 0xFF, 0, 0] 0 0 0 [] [] skb_demo_meta"

lemma sk_anc_nest_fault: "sk_anc_nlattr_nest skb_nest \<lparr>rA = 0, rX = 0, rM = m\<rparr> = Fault Bad_read"
proof -
  have "nla_len_at (skb_linear skb_nest) 0 = Some 0xFFFF"
    by (simp add: nla_len_at_def get_le16_def mem_get_def skb_linear_def skb_nest_def)
  moreover have "nla_find (skb_linear skb_nest) 4 65531 0 = None"
    by (simp add: nla_find.simps nla_ok_def nla_len_at_def get_le16_def mem_get_def skb_linear_def
        skb_nest_def)
  ultimately show ?thesis
    by (simp add: sk_anc_nlattr_nest_def Let_def nla_outcome_def skb_is_nonlinear_def skb_nest_def
        skb_headlen_def)
qed


section \<open>Sockets\<close>

text \<open>The states of a socket without other option memory, over any sequence of calls.\<close>

inductive sock_reach :: "insn_copy \<Rightarrow> u32 \<Rightarrow> sock \<Rightarrow> bool" for copy optmem_max where
  fresh: "sock_reach copy optmem_max \<lparr>sk_omem_alloc = 0, sk_filter_of = None\<rparr>"
| attach: "sock_reach copy optmem_max sk \<Longrightarrow>
    sk_attach_filter km ok copy optmem_max fprog sk = Some (r, sk') \<Longrightarrow> sock_reach copy optmem_max sk'"
| detach: "sock_reach copy optmem_max sk \<Longrightarrow> sock_reach copy optmem_max (snd (sk_detach_filter sk))"

definition sock_charge :: "sock \<Rightarrow> u32" where
  "sock_charge sk = (case sk_filter_of sk of None \<Rightarrow> 0 | Some fp \<Rightarrow> sk_filter_len fp)"

definition sock_checked :: "sock \<Rightarrow> bool" where
  "sock_checked sk \<longleftrightarrow>
     (\<forall>fp. sk_filter_of sk = Some fp \<longrightarrow> (\<exists>ok prog. sk_chk_filter ok prog = Some (Inr (fp_insns fp))))"

text \<open>The outcomes of an attach: an error and the socket as before, or the new filter charged and
  the old one uncharged.\<close>

lemma sk_attach_filter_cases:
  assumes "sk_attach_filter km ok copy optmem_max fprog sk = Some (r, sk')"
  shows "(\<exists>e. r = Inl e \<and> sk' = sk) \<or>
    (\<exists>fp insns. r = Inr () \<and> sk_chk_filter ok insns = Some (Inr (fp_insns fp)) \<and>
      sk' = \<lparr>sk_omem_alloc = sk_omem_alloc sk + sk_filter_len fp - sock_charge sk, sk_filter_of = Some fp\<rparr>)"
proof -
  let ?n = "unat (fprog_len fprog)" and ?sz = "sizeof_sock_filter * ucast (fprog_len fprog) + sizeof_sk_filter"
  consider "fprog_filter fprog = None"
    | "\<exists>u. fprog_filter fprog = Some u" "sock_kmalloc km optmem_max sk ?sz = None"
    | u where "fprog_filter fprog = Some u"
        "sock_kmalloc km optmem_max sk ?sz = Some (sk\<lparr>sk_omem_alloc := sk_omem_alloc sk + ?sz\<rparr>)"
    by (cases "fprog_filter fprog"; cases "sock_kmalloc km optmem_max sk ?sz")
      (auto simp: sock_kmalloc_def split: if_splits)
  then show ?thesis
  proof cases
    case 3
    show ?thesis
    proof (cases "copy u ?n")
      case None
      with 3 assms show ?thesis by (auto simp: sk_attach_filter_def sock_kfree_s_def)
    next
      case (Some insns)
      obtain r' where r': "sk_chk_filter ok insns = Some r'" using sk_chk_filter_total by blast
      show ?thesis
      proof (cases r')
        case (Inl e)
        with 3 Some r' assms show ?thesis
          by (auto simp: sk_attach_filter_def sk_filter_uncharge_def sk_filter_len_def mult.commute)
      next
        case (Inr p)
        let ?fp = "\<lparr>fp_refcnt = 1, fp_len = ucast (fprog_len fprog), fp_insns = p\<rparr>"
        have "r = Inr ()" "sk' = \<lparr>sk_omem_alloc = sk_omem_alloc sk + sk_filter_len ?fp - sock_charge sk,
            sk_filter_of = Some ?fp\<rparr>"
          using 3 Some r' Inr assms
          by (cases sk; auto simp: sk_attach_filter_def sk_filter_uncharge_def sk_filter_len_def
              sock_charge_def Let_def mult.commute split: option.splits)+
        with r' Inr show ?thesis by (intro disjI2 exI [of _ ?fp] exI [of _ insns]) simp
      qed
    qed
  qed (use assms in \<open>auto simp: sk_attach_filter_def\<close>)
qed

lemma sk_attach_filter_total: "\<exists>r sk'. sk_attach_filter km ok copy optmem_max fprog sk = Some (r, sk')"
proof -
  have "\<exists>r. sk_chk_filter ok insns = Some r" for insns using sk_chk_filter_total by blast
  then obtain chk where "\<And>insns. sk_chk_filter ok insns = Some (chk insns)" by metis
  then show ?thesis
    by (auto simp: sk_attach_filter_def Let_def split: option.split sum.split)
qed

lemma sock_reach_inv:
  "sock_reach copy optmem_max sk \<Longrightarrow> sk_omem_alloc sk = sock_charge sk \<and> sock_checked sk"
proof (induction rule: sock_reach.induct)
  case fresh
  then show ?case by (simp add: sock_charge_def sock_checked_def)
next
  case (attach sk km ok fprog r sk')
  from sk_attach_filter_cases [OF attach.hyps(2)] show ?case
    using attach.IH by (auto simp: sock_charge_def sock_checked_def) blast
next
  case (detach sk)
  then show ?case
    by (auto simp: sk_detach_filter_def sk_filter_uncharge_def sock_charge_def sock_checked_def
        split: option.splits)
qed

text \<open>
  What a packet received can expect, by the verdict of the filter: the whole packet, a prefix of it,
  or the packet untouched and an error.
\<close>

definition filter_outcome ::
  "bpf_env \<Rightarrow> unit result \<Rightarrow> sock \<Rightarrow> sk_buff \<Rightarrow> unit result \<Rightarrow> sk_buff \<Rightarrow> bool" where
  "filter_outcome env sec sk skb r skb' \<longleftrightarrow>
     (case (sec, sk_filter_of sk) of
        (Inl e, _) \<Rightarrow> r = Inl e \<and> skb' = skb
      | (Inr _, None) \<Rightarrow> r = Inr () \<and> skb' = skb
      | (Inr _, Some fp) \<Rightarrow>
          (case sk_run_filter env skb (fp_insns fp) of
             Inl _ \<Rightarrow> False
           | Inr v \<Rightarrow>
               if v = 0 then r = Inl EPERM \<and> skb' = skb
               else r = Inr () \<and> skb_bytes skb' = take (unat v) (skb_bytes skb) \<or>
                 r = Inl ENOMEM \<and> skb' = skb))"

lemma sk_filter_packet_outcome:
  "sk_filter_packet env tenv sec sk skb = Inr (r, skb') \<Longrightarrow> filter_outcome env sec sk skb r skb'"
  by (auto simp: sk_filter_packet_def filter_outcome_def split: sum.splits option.splits if_splits
      dest: pskb_trim_cases)

lemma sk_filter_packet_fault:
  assumes "sock_checked sk" "skb_len skb < 2 ^ 31" "sk_filter_packet env tenv sec sk skb = Inl fault"
  shows "fault = Bad_read \<and> (\<exists>fp. sk_filter_of sk = Some fp \<and> list_ex (is_nlattr_read skb) (fp_insns fp))"
proof -
  from assms(3) obtain fp where fp: "sk_filter_of sk = Some fp"
    and run: "sk_run_filter env skb (fp_insns fp) = Inl fault"
    by (auto simp: sk_filter_packet_def split: sum.splits option.splits)
  then obtain ok prog where "sk_chk_filter ok prog = Some (Inr (fp_insns fp))"
    using assms(1) by (auto simp: sock_checked_def)
  from accepted_filter_safe [OF this assms(2), of env] fp run show ?thesis
    by (simp add: safe_run_def)
qed

text \<open>
  C12. Whatever filters have been attached to a socket and detached from it: its account is the
  size of the filter now attached, and \<open>sk_filter\<close> on any packet ends without a fault other than an
  attribute search reading outside the packet.  An error of the security module is passed on, a
  verdict of 0 gives \<open>EPERM\<close>, and any other verdict \<open>v\<close> leaves exactly the first \<open>v\<close> bytes of the packet,
  however they are spread over pages and fragments; short of memory, the packet is as it was.
\<close>

theorem sock_filter_invariant:
  assumes "sock_reach copy optmem_max sk" and "skb_len skb < 2 ^ 31"
  shows "sk_omem_alloc sk = sock_charge sk \<and>
    (case sk_filter_packet env tenv sec sk skb of
       Inr (r, skb') \<Rightarrow> filter_outcome env sec sk skb r skb'
     | Inl fault \<Rightarrow> fault = Bad_read \<and>
         (\<exists>fp. sk_filter_of sk = Some fp \<and> list_ex (is_nlattr_read skb) (fp_insns fp)))"
  using sock_reach_inv [OF assms(1)] sk_filter_packet_outcome sk_filter_packet_fault [OF _ assms(2)]
  by (auto split: sum.split)

definition copy_demo :: insn_copy where
  "copy_demo u n = (if n \<le> length u then Some (take n u) else None)"

definition fprog_demo :: sock_fprog where
  "fprog_demo = \<lparr>fprog_len = 7, fprog_filter = Some bpf_demo\<rparr>"

definition sock_demo :: sock where
  "sock_demo = \<lparr>sk_omem_alloc = 76, sk_filter_of =
     Some \<lparr>fp_refcnt = 1, fp_len = 7, fp_insns = bpf_demo_checked\<rparr>\<rparr>"

lemma sock_demo_attach:
  "sk_attach_filter (\<lambda>n. True) True copy_demo 10240 fprog_demo \<lparr>sk_omem_alloc = 0, sk_filter_of = None\<rparr> =
     Some (Inr (), sock_demo)"
proof -
  have "copy_demo bpf_demo 7 = Some bpf_demo" by (simp add: copy_demo_def bpf_demo_def)
  then show ?thesis
    by (simp add: sk_attach_filter_def fprog_demo_def sock_kmalloc_def sizeof_sock_filter_def
        sizeof_sk_filter_def bpf_demo_accepted sock_demo_def)
qed

definition trim_env_demo :: trim_env where
  "trim_env_demo = \<lparr>te_cloned = (\<lambda>p. True), te_expand_ok = (\<lambda>p. True), te_shared = (\<lambda>p. True),
     te_clone_ok = (\<lambda>p. True)\<rparr>"

theorem sock_filter_invariant_witness:
  "sk_omem_alloc sock_demo = sock_charge sock_demo \<and>
    (case sk_filter_packet bpf_env_demo trim_env_demo (Inr ()) sock_demo skb_demo of
       Inr (r, skb') \<Rightarrow> filter_outcome bpf_env_demo (Inr ()) sock_demo skb_demo r skb'
     | Inl fault \<Rightarrow> fault = Bad_read \<and>
         (\<exists>fp. sk_filter_of sock_demo = Some fp \<and> list_ex (is_nlattr_read skb_demo) (fp_insns fp)))"
  by (rule sock_filter_invariant [OF sock_reach.attach [OF sock_reach.fresh sock_demo_attach]])
    (simp add: skb_demo_def)

text \<open>
  C13. Attaching is all or nothing: it always ends, an error leaves the socket as it was, the
  filter attached before included, and success replaces the filter by one the checker accepted.
  A detach after it succeeds and leaves no filter.
\<close>

theorem sk_attach_filter_atomic:
  "\<exists>r sk'. sk_attach_filter km ok copy optmem_max fprog sk = Some (r, sk') \<and>
    (case r of
       Inl e \<Rightarrow> sk' = sk
     | Inr _ \<Rightarrow> (\<exists>fp insns. sk_filter_of sk' = Some fp \<and> sk_chk_filter ok insns = Some (Inr (fp_insns fp)) \<and>
         sk_omem_alloc sk' = sk_omem_alloc sk + sk_filter_len fp - sock_charge sk \<and>
         sk_detach_filter sk' = (Inr (), \<lparr>sk_omem_alloc = sk_omem_alloc sk - sock_charge sk,
           sk_filter_of = None\<rparr>)))"
proof -
  obtain r sk' where a: "sk_attach_filter km ok copy optmem_max fprog sk = Some (r, sk')"
    using sk_attach_filter_total by blast
  from sk_attach_filter_cases [OF a] show ?thesis
    unfolding a by (auto simp: sk_detach_filter_def sk_filter_uncharge_def)
qed

end
