(* ===== verification/Klist.thy ===== *)
theory Klist
  imports Kernel_Prelude
begin

text \<open>
  The circular doubly linked lists of \<^verbatim>\<open>include/linux/list.h\<close> on an explicit store: a
  \<open>struct list_head\<close> is an address, the store maps addresses to their \<open>next\<close> and \<open>prev\<close> links,
  and every function is the sequence of its assignments.  \<open>dlist s h xs\<close> says that the list with
  head \<open>h\<close> holds the entries \<open>xs\<close>; the lemmas give the effect of each function on \<open>xs\<close>.
\<close>

section \<open>The store and the list functions\<close>

type_synonym addr = nat

record links =
  l_next :: "addr \<Rightarrow> addr"
  l_prev :: "addr \<Rightarrow> addr"

definition set_next :: "addr \<Rightarrow> addr \<Rightarrow> links \<Rightarrow> links" where
  "set_next a v s = s\<lparr>l_next := (l_next s)(a := v)\<rparr>"

definition set_prev :: "addr \<Rightarrow> addr \<Rightarrow> links \<Rightarrow> links" where
  "set_prev a v s = s\<lparr>l_prev := (l_prev s)(a := v)\<rparr>"

definition INIT_LIST_HEAD :: "addr \<Rightarrow> links \<Rightarrow> links" where
  "INIT_LIST_HEAD list s = set_prev list list (set_next list list s)"

definition raw_list_add :: "addr \<Rightarrow> addr \<Rightarrow> addr \<Rightarrow> links \<Rightarrow> links" where
  "raw_list_add new prev next s =
     set_next prev new (set_prev new prev (set_next new next (set_prev next new s)))"

definition list_add :: "addr \<Rightarrow> addr \<Rightarrow> links \<Rightarrow> links" where
  "list_add new head s = raw_list_add new head (l_next s head) s"

definition list_add_tail :: "addr \<Rightarrow> addr \<Rightarrow> links \<Rightarrow> links" where
  "list_add_tail new head s = raw_list_add new (l_prev s head) head s"

definition raw_list_del :: "addr \<Rightarrow> addr \<Rightarrow> links \<Rightarrow> links" where
  "raw_list_del prev next s = set_next prev next (set_prev next prev s)"

definition raw_list_del_entry :: "addr \<Rightarrow> links \<Rightarrow> links" where
  "raw_list_del_entry entry s = raw_list_del (l_prev s entry) (l_next s entry) s"

definition LIST_POISON1 :: addr where "LIST_POISON1 = 0x00100100"

definition LIST_POISON2 :: addr where "LIST_POISON2 = 0x00200200"

definition list_del :: "addr \<Rightarrow> links \<Rightarrow> links" where
  "list_del entry s =
     set_prev entry LIST_POISON2 (set_next entry LIST_POISON1
       (raw_list_del (l_prev s entry) (l_next s entry) s))"

definition list_replace :: "addr \<Rightarrow> addr \<Rightarrow> links \<Rightarrow> links" where
  "list_replace old new s =
     (let s = set_next new (l_next s old) s;
          s = set_prev (l_next s new) new s;
          s = set_prev new (l_prev s old) s
      in set_next (l_prev s new) new s)"

definition list_replace_init :: "addr \<Rightarrow> addr \<Rightarrow> links \<Rightarrow> links" where
  "list_replace_init old new s = INIT_LIST_HEAD old (list_replace old new s)"

definition list_del_init :: "addr \<Rightarrow> links \<Rightarrow> links" where
  "list_del_init entry s = INIT_LIST_HEAD entry (raw_list_del_entry entry s)"

definition list_move :: "addr \<Rightarrow> addr \<Rightarrow> links \<Rightarrow> links" where
  "list_move list head s = list_add list head (raw_list_del_entry list s)"

definition list_move_tail :: "addr \<Rightarrow> addr \<Rightarrow> links \<Rightarrow> links" where
  "list_move_tail list head s = list_add_tail list head (raw_list_del_entry list s)"

definition list_is_last :: "addr \<Rightarrow> addr \<Rightarrow> links \<Rightarrow> bool" where
  "list_is_last list head s \<longleftrightarrow> l_next s list = head"

definition list_empty :: "addr \<Rightarrow> links \<Rightarrow> bool" where
  "list_empty head s \<longleftrightarrow> l_next s head = head"

definition list_empty_careful :: "addr \<Rightarrow> links \<Rightarrow> bool" where
  "list_empty_careful head s \<longleftrightarrow> (let next = l_next s head in next = head \<and> next = l_prev s head)"

definition list_rotate_left :: "addr \<Rightarrow> links \<Rightarrow> links" where
  "list_rotate_left head s =
     (if \<not> list_empty head s then list_move_tail (l_next s head) head s else s)"

definition list_is_singular :: "addr \<Rightarrow> links \<Rightarrow> bool" where
  "list_is_singular head s \<longleftrightarrow> \<not> list_empty head s \<and> l_next s head = l_prev s head"

definition raw_list_cut_position :: "addr \<Rightarrow> addr \<Rightarrow> addr \<Rightarrow> links \<Rightarrow> links" where
  "raw_list_cut_position list head entry s =
     (let new_first = l_next s entry;
          s = set_next list (l_next s head) s;
          s = set_prev (l_next s list) list s;
          s = set_prev list entry s;
          s = set_next entry list s;
          s = set_next head new_first s
      in set_prev new_first head s)"

definition list_cut_position :: "addr \<Rightarrow> addr \<Rightarrow> addr \<Rightarrow> links \<Rightarrow> links" where
  "list_cut_position list head entry s =
     (if list_empty head s then s
      else if list_is_singular head s \<and> l_next s head \<noteq> entry \<and> head \<noteq> entry then s
      else if entry = head then INIT_LIST_HEAD list s
      else raw_list_cut_position list head entry s)"

definition raw_list_splice :: "addr \<Rightarrow> addr \<Rightarrow> addr \<Rightarrow> links \<Rightarrow> links" where
  "raw_list_splice list prev next s =
     (let first = l_next s list; last = l_prev s list
      in set_prev next last (set_next last next (set_next prev first (set_prev first prev s))))"

definition list_splice :: "addr \<Rightarrow> addr \<Rightarrow> links \<Rightarrow> links" where
  "list_splice list head s =
     (if \<not> list_empty list s then raw_list_splice list head (l_next s head) s else s)"

definition list_splice_tail :: "addr \<Rightarrow> addr \<Rightarrow> links \<Rightarrow> links" where
  "list_splice_tail list head s =
     (if \<not> list_empty list s then raw_list_splice list (l_prev s head) head s else s)"

definition list_splice_init :: "addr \<Rightarrow> addr \<Rightarrow> links \<Rightarrow> links" where
  "list_splice_init list head s =
     (if \<not> list_empty list s
      then INIT_LIST_HEAD list (raw_list_splice list head (l_next s head) s) else s)"

definition list_splice_tail_init :: "addr \<Rightarrow> addr \<Rightarrow> links \<Rightarrow> links" where
  "list_splice_tail_init list head s =
     (if \<not> list_empty list s
      then INIT_LIST_HEAD list (raw_list_splice list (l_prev s head) head s) else s)"

section \<open>Representation\<close>

text \<open>Consecutive members are linked both ways.\<close>

fun linked :: "links \<Rightarrow> addr list \<Rightarrow> bool" where
  "linked s (a # b # xs) \<longleftrightarrow> l_next s a = b \<and> l_prev s b = a \<and> linked s (b # xs)"
| "linked s xs \<longleftrightarrow> True"

definition dlist :: "links \<Rightarrow> addr \<Rightarrow> addr list \<Rightarrow> bool" where
  "dlist s h xs \<longleftrightarrow> distinct (h # xs) \<and> linked s (h # xs @ [h])"

lemma links_simps [simp]:
  "l_next (set_next a v s) x = (if x = a then v else l_next s x)"
  "l_prev (set_next a v s) x = l_prev s x"
  "l_prev (set_prev a v s) x = (if x = a then v else l_prev s x)"
  "l_next (set_prev a v s) x = l_next s x"
  by (simp_all add: set_next_def set_prev_def)

lemma linked_append:
  "linked s (us @ [a] @ [b] @ vs) \<longleftrightarrow>
     linked s (us @ [a]) \<and> l_next s a = b \<and> l_prev s b = a \<and> linked s (b # vs)"
  by (induction s us rule: linked.induct) auto

lemma linked_cong:
  assumes "\<And>x. x \<in> set (butlast xs) \<Longrightarrow> l_next s' x = l_next s x"
    and "\<And>x. x \<in> set (tl xs) \<Longrightarrow> l_prev s' x = l_prev s x"
  shows "linked s' xs \<longleftrightarrow> linked s xs"
  using assms by (induction s xs rule: linked.induct) auto

lemma linked_set [simp]:
  "a \<notin> set (butlast xs) \<Longrightarrow> linked (set_next a v s) xs \<longleftrightarrow> linked s xs"
  "a \<notin> set (tl xs) \<Longrightarrow> linked (set_prev a v s) xs \<longleftrightarrow> linked s xs"
  by (rule linked_cong; auto)+

text \<open>A list is not touched by stores outside it.\<close>

lemma dlist_frame:
  assumes "\<And>x. x \<in> set (h # xs) \<Longrightarrow> l_next s' x = l_next s x \<and> l_prev s' x = l_prev s x"
  shows "dlist s' h xs \<longleftrightarrow> dlist s h xs"
  using assms linked_cong [of "h # xs @ [h]" s' s] by (auto simp: dlist_def butlast_append dest!: in_set_butlastD)

section \<open>Insertion and deletion\<close>

lemma last_notin_butlast: "distinct zs \<Longrightarrow> last zs \<notin> set (butlast zs)"
  by (cases zs rule: rev_cases) auto

lemma hd_notin_tl: "distinct zs \<Longrightarrow> hd zs \<notin> set (tl zs)"
  by (cases zs) auto

lemma notin_parts:
  assumes "x \<notin> set zs"
  shows "x \<notin> set (tl zs)" and "x \<notin> set (butlast zs)"
  using assms by (cases zs; simp) (use assms in_set_butlastD in fast)

lemma linked_join:
  assumes "us \<noteq> []" and "vs \<noteq> []"
  shows "linked s (us @ vs) \<longleftrightarrow>
    linked s us \<and> l_next s (last us) = hd vs \<and> l_prev s (hd vs) = last us \<and> linked s vs"
  using assms linked_append by (cases us rule: rev_cases; cases vs) auto

lemma dlist_split:
  "dlist s h (xs @ ys) \<longleftrightarrow> distinct (h # xs @ ys) \<and> linked s (h # xs) \<and>
     l_next s (last (h # xs)) = hd (ys @ [h]) \<and> l_prev s (hd (ys @ [h])) = last (h # xs) \<and>
     linked s (ys @ [h])"
  using linked_join [of "h # xs" "ys @ [h]" s] by (auto simp: dlist_def)

lemma dlist_head:
  assumes "dlist s h xs"
  shows "l_next s h = hd (xs @ [h])" and "l_prev s h = last (h # xs)"
  using dlist_split [of s h "[]" xs] dlist_split [of s h xs "[]"] assms by auto

text \<open>The two parts of a list on either side of a gap do not see stores to the links across it.\<close>

lemma gap_facts:
  assumes "distinct (h # xs @ ys)"
  shows "last (h # xs) \<notin> set (butlast (h # xs))" "hd (ys @ [h]) \<notin> set (tl (h # xs))"
    "last (h # xs) \<notin> set (butlast (ys @ [h]))" "hd (ys @ [h]) \<notin> set (tl (ys @ [h]))"
proof -
  show "last (h # xs) \<notin> set (butlast (h # xs))"
    using assms by (intro last_notin_butlast) auto
  show "hd (ys @ [h]) \<notin> set (tl (ys @ [h]))" using assms by (intro hd_notin_tl) auto
  show "hd (ys @ [h]) \<notin> set (tl (h # xs))" using assms by (cases ys) auto
  show "last (h # xs) \<notin> set (butlast (ys @ [h]))" 
    using assms by (auto simp: butlast_append disjoint_iff)
qed

lemma raw_list_add_dlist:
  assumes d: "dlist s h (xs @ ys)" and new: "new \<notin> set (h # xs @ ys)"
    and p: "p = last (h # xs)" and n: "n = hd (ys @ [h])"
  shows "dlist (raw_list_add new p n s) h (xs @ new # ys)"
proof -
  let ?s = "raw_list_add new p n s"
  have dist: "distinct (h # xs @ ys)" using d by (simp add: dlist_def)
  note gap = gap_facts [OF dist, folded p n]
  have mem: "p \<in> set (h # xs)" "n \<in> set (ys @ [h])" unfolding p n by (auto simp: hd_append)
  have neq: "new \<noteq> p" "new \<noteq> n" using mem new by auto
  have "new \<notin> set (butlast (h # xs))" "new \<notin> set (tl (h # xs))"
    "new \<notin> set (butlast (ys @ [h]))" "new \<notin> set (tl (ys @ [h]))"
    using new by (auto simp: tl_append dest: in_set_butlastD list.set_sel(2) split: list.splits)
  then have "linked ?s (h # xs)" "linked ?s (ys @ [h])"
    using d gap by (simp_all only: dlist_split raw_list_add_def linked_set simp_thms)
  moreover have "l_next ?s p = new" "l_prev ?s new = p" "l_next ?s new = n" "l_prev ?s n = new"
    using neq by (simp_all add: raw_list_add_def)
  moreover have "linked ?s (new # ys @ [h])"
    using calculation linked_join [of "[new]" "ys @ [h]" ?s] n by simp
  ultimately show ?thesis using dist new p by (simp add: dlist_split)
qed

lemma list_add_dlist:
  "dlist s h xs \<Longrightarrow> new \<notin> set (h # xs) \<Longrightarrow> dlist (list_add new h s) h (new # xs)"
  using raw_list_add_dlist [of s h "[]" xs new h] dlist_head [of s h xs] by (simp add: list_add_def)

lemma list_add_tail_dlist:
  "dlist s h xs \<Longrightarrow> new \<notin> set (h # xs) \<Longrightarrow> dlist (list_add_tail new h s) h (xs @ [new])"
  using raw_list_add_dlist [of s h xs "[]" new _ h] dlist_head [of s h xs] by (simp add: list_add_tail_def)

lemma dlist_entry:
  assumes "dlist s h (xs @ e # ys)"
  shows "l_prev s e = last (h # xs)" and "l_next s e = hd (ys @ [h])"
    and "linked s (h # xs)" and "linked s (ys @ [h])"
  using assms dlist_split [of s h xs "e # ys"] dlist_split [of s h "xs @ [e]" ys] by auto

lemma raw_list_del_entry_dlist:
  assumes d: "dlist s h (xs @ e # ys)"
  shows "dlist (raw_list_del_entry e s) h (xs @ ys)"
proof -
  note e = dlist_entry [OF d]
  have dist: "distinct (h # xs @ ys)" using d by (simp add: dlist_def)
  note gap = gap_facts [OF dist]
  show ?thesis
    unfolding dlist_split raw_list_del_entry_def raw_list_del_def e(1,2)
    using dist gap e(3,4) by simp
qed

lemma raw_list_del_entry_frame:
  assumes "dlist s h xs" and "e \<in> set xs" and "x \<notin> set (h # xs) \<or> x = e"
  shows "l_next (raw_list_del_entry e s) x = l_next s x" "l_prev (raw_list_del_entry e s) x = l_prev s x"
proof -
  obtain us vs where xs: "xs = us @ e # vs" using assms(2) by (meson split_list)
  have "last (h # us) \<in> set (h # us)" "hd (vs @ [h]) \<in> set (vs @ [h])" by (auto simp: hd_append)
  then show "l_next (raw_list_del_entry e s) x = l_next s x" "l_prev (raw_list_del_entry e s) x = l_prev s x"
    using assms dlist_entry [of s h us e vs] xs
    by (auto simp: raw_list_del_entry_def raw_list_del_def dlist_def simp del: last.simps)
qed

lemma INIT_LIST_HEAD_dlist: "dlist (INIT_LIST_HEAD l s) l []"
  by (simp add: dlist_def INIT_LIST_HEAD_def)

lemma INIT_LIST_HEAD_frame: "l \<notin> set (h # xs) \<Longrightarrow> dlist (INIT_LIST_HEAD l s) h xs \<longleftrightarrow> dlist s h xs"
  by (rule dlist_frame) (auto simp: INIT_LIST_HEAD_def)

lemma list_empty_dlist: "dlist s h xs \<Longrightarrow> list_empty h s \<longleftrightarrow> xs = []"
  using dlist_head(1) [of s h xs] by (cases xs) (auto simp: list_empty_def dlist_def)

lemma list_is_singular_dlist:
  assumes d: "dlist s h xs"
  shows "list_is_singular h s \<longleftrightarrow> length xs = 1"
proof (cases xs)
  case Nil
  then show ?thesis using list_empty_dlist [OF d] by (simp add: list_is_singular_def)
next
  case (Cons y ys)
  have "last (y # ys) = y \<longleftrightarrow> ys = []" 
    using d Cons by (cases ys rule: rev_cases) (auto simp: dlist_def)
  then show ?thesis
    using Cons dlist_head [OF d] list_empty_dlist [OF d] by (auto simp: list_is_singular_def)
qed

lemma list_del_dlist:
  assumes d: "dlist s h (xs @ e # ys)"
  shows "dlist (list_del e s) h (xs @ ys)"
proof -
  have "list_del e s = set_prev e LIST_POISON2 (set_next e LIST_POISON1 (raw_list_del_entry e s))"
    by (simp add: list_del_def raw_list_del_entry_def)
  moreover have "e \<notin> set (h # xs @ ys)" using d by (auto simp: dlist_def)
  ultimately have "dlist (list_del e s) h (xs @ ys) \<longleftrightarrow> dlist (raw_list_del_entry e s) h (xs @ ys)"
    by (intro dlist_frame) auto
  then show ?thesis using raw_list_del_entry_dlist [OF d] by simp
qed

lemma list_del_init_dlist:
  assumes d: "dlist s h (xs @ e # ys)"
  shows "dlist (list_del_init e s) h (xs @ ys)" and "dlist (list_del_init e s) e []"
proof -
  have "e \<notin> set (h # xs @ ys)" using d by (auto simp: dlist_def)
  then show "dlist (list_del_init e s) h (xs @ ys)"
    using raw_list_del_entry_dlist [OF d] by (simp add: list_del_init_def INIT_LIST_HEAD_frame)
  show "dlist (list_del_init e s) e []" by (simp add: list_del_init_def INIT_LIST_HEAD_dlist)
qed

lemma list_move_tail_dlist:
  assumes d: "dlist s h (xs @ e # ys)"
  shows "dlist (list_move_tail e h s) h (xs @ ys @ [e])"
  using list_add_tail_dlist [OF raw_list_del_entry_dlist [OF d], of e] d
  by (auto simp: list_move_tail_def dlist_def)

lemma list_move_dlist:
  assumes d: "dlist s h (xs @ e # ys)"
  shows "dlist (list_move e h s) h (e # xs @ ys)"
  using list_add_dlist [OF raw_list_del_entry_dlist [OF d], of e] d
  by (auto simp: list_move_def dlist_def)

lemma list_rotate_left_dlist: "dlist s h xs \<Longrightarrow> dlist (list_rotate_left h s) h (rotate1 xs)"
  using list_move_tail_dlist [of s h "[]" "hd xs" "tl xs"] dlist_head [of s h xs] list_empty_dlist [of s h xs]
  by (cases xs) (auto simp: list_rotate_left_def)

lemma list_replace_add:
  assumes d: "dlist s h (xs @ old # ys)" and new: "new \<notin> set (h # xs @ old # ys)"
  shows "list_replace old new s =
    raw_list_add new (last (h # xs)) (hd (ys @ [h])) (raw_list_del_entry old s)"
proof -
  let ?p = "last (h # xs)" and ?n = "hd (ys @ [h])"
  have "?p \<in> set (h # xs)" "?n \<in> set (ys @ [h])" by (auto simp: hd_append)
  then have neq: "?p \<noteq> new" "?n \<noteq> new" "?p \<noteq> old" "?n \<noteq> old"
    using new d by (auto simp: dlist_def simp del: last.simps)
  then show ?thesis
    unfolding list_replace_def raw_list_add_def raw_list_del_entry_def raw_list_del_def Let_def
    using dlist_entry(1,2) [OF d] new
    by (auto simp: set_next_def set_prev_def fun_upd_twist fun_eq_iff simp del: last.simps)
qed

lemma list_replace_dlist:
  assumes d: "dlist s h (xs @ old # ys)" and new: "new \<notin> set (h # xs @ old # ys)"
  shows "dlist (list_replace old new s) h (xs @ new # ys)"
  unfolding list_replace_add [OF assms]
  by (rule raw_list_add_dlist [OF raw_list_del_entry_dlist [OF d]]) (use new in auto)

section \<open>Splicing and cutting\<close>

lemma raw_list_splice_dlist:
  assumes d: "dlist s h (us @ vs)" and l: "dlist s l xs" "xs \<noteq> []"
    and disj: "set (h # us @ vs) \<inter> set (l # xs) = {}"
    and p: "p = last (h # us)" and n: "n = hd (vs @ [h])"
  shows "dlist (raw_list_splice l p n s) h (us @ xs @ vs)"
proof -
  let ?s = "raw_list_splice l p n s" and ?f = "hd xs" and ?t = "last xs"
  have dist: "distinct (h # us @ vs)" "distinct xs" using d l by (auto simp: dlist_def)
  note gap = gap_facts [OF dist(1), folded p n]
  have mem: "p \<in> set (h # us)" "n \<in> set (vs @ [h])" "?f \<in> set xs" "?t \<in> set xs"
    unfolding p n using l(2) by (auto simp: hd_append)
  have ft: "l_next s l = ?f" "l_prev s l = ?t" and lx: "linked s xs"
    using dlist_head [OF l(1)] dlist_split [of s l "[]" xs] l linked_join [of xs "[l]" s]
    by (auto simp: hd_append)
  have s: "?s = set_prev n ?t (set_next ?t n (set_next p ?f (set_prev ?f p s)))"
    by (simp add: raw_list_splice_def ft Let_def)
  have out: "?f \<notin> set (h # us @ vs)" "?t \<notin> set (h # us @ vs)" "p \<notin> set xs" "n \<notin> set xs"
    using mem disj by auto
  have fr: "?f \<notin> set (tl (h # us))" "?t \<notin> set (butlast (h # us))"
    "?f \<notin> set (tl (vs @ [h]))" "?t \<notin> set (butlast (vs @ [h]))"
    "?f \<notin> set (tl xs)" "?t \<notin> set (butlast xs)" "p \<notin> set (butlast xs)" "n \<notin> set (tl xs)"
    using out hd_notin_tl [OF dist(2)] last_notin_butlast [OF dist(2)] l(2)
    by (auto simp: tl_append dest: in_set_butlastD list.set_sel(2) split: list.splits)
  have lk: "linked ?s (h # us)" "linked ?s (vs @ [h])" "linked ?s xs"
    unfolding s using d lx fr gap by (simp_all only: dlist_split linked_set simp_thms)
  have lnk: "l_next ?s p = ?f" "l_prev ?s ?f = p" "l_next ?s ?t = n" "l_prev ?s n = ?t"
    unfolding s using mem out by (auto simp del: last.simps)
  have "linked ?s (xs @ vs @ [h])"
    using linked_join [of xs "vs @ [h]" ?s] lk lnk l(2) n by simp
  then show ?thesis
    using lk lnk dist disj p l(2) by (auto simp: dlist_split hd_append)
qed

text \<open>The functions that join two lists, and cutting a list after an entry.\<close>

lemma list_splice_dlist:
  assumes "dlist s h ys" "dlist s l xs" "set (h # ys) \<inter> set (l # xs) = {}"
  shows "dlist (list_splice l h s) h (xs @ ys)" and "dlist (list_splice_tail l h s) h (ys @ xs)"
    and "dlist (list_splice_init l h s) h (xs @ ys)" "dlist (list_splice_init l h s) l []"
    and "dlist (list_splice_tail_init l h s) h (ys @ xs)" "dlist (list_splice_tail_init l h s) l []"
proof -
  note e = list_empty_dlist [OF assms(2)] and hd = dlist_head [OF assms(1)]
  have a: "dlist (raw_list_splice l h (l_next s h) s) h (xs @ ys)" if "xs \<noteq> []"
    using raw_list_splice_dlist [of s h "[]" ys l xs h] assms that hd by simp
  have t: "dlist (raw_list_splice l (l_prev s h) h s) h (ys @ xs)" if "xs \<noteq> []"
    using raw_list_splice_dlist [of s h ys "[]" l xs _ h] assms that hd by simp
  have fr: "l \<notin> set (h # xs @ ys)" "l \<notin> set (h # ys @ xs)" using assms by (auto simp: dlist_def)
  show "dlist (list_splice l h s) h (xs @ ys)" "dlist (list_splice_tail l h s) h (ys @ xs)"
    using assms(1) e a t by (auto simp: list_splice_def list_splice_tail_def)
  show "dlist (list_splice_init l h s) h (xs @ ys)" "dlist (list_splice_tail_init l h s) h (ys @ xs)"
    using assms(1) e a t INIT_LIST_HEAD_frame [OF fr(1)] INIT_LIST_HEAD_frame [OF fr(2)]
    by (auto simp: list_splice_init_def list_splice_tail_init_def)
  show "dlist (list_splice_init l h s) l []" "dlist (list_splice_tail_init l h s) l []"
    using assms(2) e by (auto simp: list_splice_init_def list_splice_tail_init_def INIT_LIST_HEAD_dlist)
qed

lemma raw_list_cut_dlist:
  assumes d: "dlist s h (xs @ e # ys)" and l: "l \<notin> set (h # xs @ e # ys)"
  shows "dlist (raw_list_cut_position l h e s) l (xs @ [e])"
    and "dlist (raw_list_cut_position l h e s) h ys"
proof -
  let ?n = "hd (ys @ [h])" and ?f = "hd (xs @ [e])" and ?s = "raw_list_cut_position l h e s"
  have dist: "distinct (h # xs @ e # ys)" using d by (simp add: dlist_def)
  have mem: "?n \<in> set (ys @ [h])" "?f \<in> set (xs @ [e])" by (auto simp: hd_append)
  have ne: "?n \<noteq> l" "?f \<noteq> l" "?f \<noteq> h" "?n \<noteq> ?f" "e \<noteq> h" "e \<noteq> l" "h \<noteq> l" "?n \<noteq> e"
    using mem dist l by auto
  have f: "l_next s h = ?f" using dlist_head(1) [OF d] by (cases xs) auto
  have s: "?s = set_prev ?n h (set_next h ?n (set_next e l (set_prev l e (set_prev ?f l (set_next l ?f s)))))"
    using f dlist_entry(2) [OF d] by (simp add: raw_list_cut_position_def Let_def)
  have lx: "linked s (xs @ [e])" and ly: "linked s (ys @ [h])"
    using dlist_split [of s h "[]" "xs @ e # ys"] d linked_join [of "xs @ [e]" "ys @ [h]" s]
    by (auto simp: dlist_entry(4) [OF d])
  have o1: "?n \<notin> set (xs @ [e])" "h \<notin> set (xs @ [e])" "l \<notin> set (xs @ [e])" "distinct (xs @ [e])"
    and o2: "?f \<notin> set (ys @ [h])" "e \<notin> set (ys @ [h])" "l \<notin> set (ys @ [h])" "distinct (ys @ [h])"
    using mem dist l by auto
  have "linked ?s (xs @ [e])" unfolding s
    using lx o1(1-3) [THEN notin_parts(1)] o1(1-3) [THEN notin_parts(2)] hd_notin_tl [OF o1(4)]
      last_notin_butlast [OF o1(4)] by (simp only: linked_set simp_thms last_snoc)
  moreover have "linked ?s (ys @ [h])" unfolding s
    using ly o2(1-3) [THEN notin_parts(1)] o2(1-3) [THEN notin_parts(2)] hd_notin_tl [OF o2(4)]
      last_notin_butlast [OF o2(4)] by (simp only: linked_set simp_thms last_snoc)
  moreover have "l_next ?s l = ?f" "l_prev ?s ?f = l" "l_prev ?s l = e" "l_next ?s e = l"
    "l_next ?s h = ?n" "l_prev ?s ?n = h"
    unfolding s using ne by auto
  ultimately show "dlist ?s l (xs @ [e])" "dlist ?s h ys"
    using dist l linked_join [of "[l]" "(xs @ [e]) @ [l]" ?s] linked_join [of "xs @ [e]" "[l]" ?s]
      linked_join [of "[h]" "ys @ [h]" ?s]
    by (auto simp: dlist_def hd_append)
qed

lemma list_cut_position_dlist:
  assumes d: "dlist s h (xs @ e # ys)" and l: "l \<notin> set (h # xs @ e # ys)"
  shows "dlist (list_cut_position l h e s) l (xs @ [e]) \<and> dlist (list_cut_position l h e s) h ys"
proof -
  have "e \<noteq> h" using d by (auto simp: dlist_def)
  moreover have "l_next s h = e" if "list_is_singular h s"
    using that list_is_singular_dlist [OF d] dlist_head(1) [OF d] by (cases xs) auto
  ultimately have "list_cut_position l h e s = raw_list_cut_position l h e s"
    using list_empty_dlist [OF d] by (auto simp: list_cut_position_def)
  then show ?thesis using raw_list_cut_dlist [OF d l] by simp
qed

section \<open>Correctness\<close>

text \<open>Calls on one list, their effect on the store and on the abstract list.\<close>

datatype list_op =
    Op_add addr | Op_add_tail addr | Op_del addr | Op_del_init addr | Op_move addr | Op_move_tail addr
  | Op_rotate | Op_replace addr addr

fun list_op_run :: "addr \<Rightarrow> list_op \<Rightarrow> links \<Rightarrow> links" where
  "list_op_run h (Op_add n) s = list_add n h s"
| "list_op_run h (Op_add_tail n) s = list_add_tail n h s"
| "list_op_run h (Op_del e) s = list_del e s"
| "list_op_run h (Op_del_init e) s = list_del_init e s"
| "list_op_run h (Op_move e) s = list_move e h s"
| "list_op_run h (Op_move_tail e) s = list_move_tail e h s"
| "list_op_run h Op_rotate s = list_rotate_left h s"
| "list_op_run h (Op_replace old new) s = list_replace old new s"

text \<open>\<open>None\<close> where the caller breaks the rules: a new entry must not be on the list, an entry to
  take off must be.\<close>

fun list_op_spec :: "addr \<Rightarrow> list_op \<Rightarrow> addr list \<Rightarrow> addr list option" where
  "list_op_spec h (Op_add n) xs = (if n \<in> set (h # xs) then None else Some (n # xs))"
| "list_op_spec h (Op_add_tail n) xs = (if n \<in> set (h # xs) then None else Some (xs @ [n]))"
| "list_op_spec h (Op_del e) xs = (if e \<in> set xs then Some (remove1 e xs) else None)"
| "list_op_spec h (Op_del_init e) xs = (if e \<in> set xs then Some (remove1 e xs) else None)"
| "list_op_spec h (Op_move e) xs = (if e \<in> set xs then Some (e # remove1 e xs) else None)"
| "list_op_spec h (Op_move_tail e) xs = (if e \<in> set xs then Some (remove1 e xs @ [e]) else None)"
| "list_op_spec h Op_rotate xs = Some (rotate1 xs)"
| "list_op_spec h (Op_replace old new) xs =
     (if old \<in> set xs \<and> new \<notin> set (h # xs) then Some (map (\<lambda>x. if x = old then new else x) xs) else None)"

fun list_ops_spec :: "addr \<Rightarrow> list_op list \<Rightarrow> addr list \<Rightarrow> addr list option" where
  "list_ops_spec h [] xs = Some xs"
| "list_ops_spec h (p # ps) xs = do { ys \<leftarrow> list_op_spec h p xs; list_ops_spec h ps ys }"

lemma list_op_refines:
  assumes d: "dlist s h xs" and spec: "list_op_spec h p xs = Some ys"
  shows "dlist (list_op_run h p s) h ys"
proof -
  have del: "\<exists>us vs. xs = us @ e # vs \<and> remove1 e xs = us @ vs \<and> dlist s h (us @ e # vs)" if "e \<in> set xs" for e
    using that d by (metis remove1_split)
  show ?thesis
  proof (cases p)
    case (Op_replace old new)
    then obtain us vs where xs: "xs = us @ old # vs" using spec by (auto split: if_splits dest: split_list)
    moreover have "map (\<lambda>x. if x = old then new else x) us = us"
      "map (\<lambda>x. if x = old then new else x) vs = vs"
      using d xs by (auto simp: dlist_def intro!: map_idI)
    ultimately show ?thesis
      using Op_replace spec d list_replace_dlist [of s h us old vs new]
      by (auto split: if_splits)
  qed (use d spec del list_add_dlist list_add_tail_dlist list_rotate_left_dlist in
      \<open>auto split: if_splits dest!: del intro: list_del_dlist list_del_init_dlist
        list_move_dlist list_move_tail_dlist [simplified]\<close>)
qed

text \<open>
  C14. The list functions refine the obvious operations on sequences: after any sequence of calls
  whose arguments follow the rules, the links form a circular list of exactly the entries the
  abstract operations give, in their order.
\<close>

theorem list_ops_refine:
  assumes "dlist s h xs" and "list_ops_spec h ops xs = Some ys"
  shows "dlist (fold (list_op_run h) ops s) h ys"
  using assms
proof (induction ops arbitrary: s xs)
  case Nil
  then show ?case by simp
next
  case (Cons p ops)
  then obtain zs where "list_op_spec h p xs = Some zs" "list_ops_spec h ops zs = Some ys"
    by (auto simp: bind_eq_Some_conv)
  then show ?case using Cons.IH [OF list_op_refines [OF Cons.prems(1)]] by simp
qed

definition links_zero :: links where "links_zero = \<lparr>l_next = \<lambda>_. 0, l_prev = \<lambda>_. 0\<rparr>"

theorem list_ops_refine_witness:
  "dlist (fold (list_op_run 1) [Op_add 2, Op_add_tail 3, Op_add 4, Op_rotate, Op_replace 2 5, Op_del 3]
     (INIT_LIST_HEAD 1 links_zero)) 1 [5, 4]"
  by (rule list_ops_refine [OF INIT_LIST_HEAD_dlist]) simp



end
