(* ===== verification/Ale_Entry.thy ===== *)
theory Ale_Entry
  imports Kernel_Prelude
begin

text \<open>
  The entries of the address lookup engine's table (\<^verbatim>\<open>drivers/net/ethernet/ti/cpsw_ale.c\<close>): three
  32-bit words, most significant first, with the fields of \<open>DEFINE_ALE_FIELD\<close>.  The lemmas read an
  entry as a string of bits and derive what each setter does to each getter.
\<close>

section \<open>Table entries\<close>

type_synonym ale_entry = "u32 list"

definition BITMASK :: "nat \<Rightarrow> u32" where "BITMASK bits = push_bit bits 1 - 1"

definition cpsw_ale_get_field :: "ale_entry \<Rightarrow> nat \<Rightarrow> nat \<Rightarrow> u32" where
  "cpsw_ale_get_field e start bits =
     (let idx = start div 32; start = start - idx * 32; idx = 2 - idx
      in drop_bit start (e ! idx) AND BITMASK bits)"

definition cpsw_ale_set_field :: "nat \<Rightarrow> nat \<Rightarrow> u32 \<Rightarrow> ale_entry \<Rightarrow> ale_entry" where
  "cpsw_ale_set_field start bits value e =
     (let value = value AND BITMASK bits;
          idx = start div 32; start = start - idx * 32; idx = 2 - idx;
          e = e[idx := e ! idx AND NOT (push_bit start (BITMASK bits))]
      in e[idx := e ! idx OR push_bit start value])"

text \<open>The fields \<open>DEFINE_ALE_FIELD\<close> declares: first bit and width.\<close>

datatype ale_field =
    Entry_type | Vlan_id | Mcast_state | Port_mask | Super | Ucast_type | Port_num | Blocked
  | Secure | Vlan_untag_force | Vlan_reg_mcast | Vlan_unreg_mcast | Vlan_member_list | Mcast

fun ale_field_pos :: "ale_field \<Rightarrow> nat \<times> nat" where
  "ale_field_pos Entry_type = (60, 2)"
| "ale_field_pos Vlan_id = (48, 12)"
| "ale_field_pos Mcast_state = (62, 2)"
| "ale_field_pos Port_mask = (66, 3)"
| "ale_field_pos Super = (65, 1)"
| "ale_field_pos Ucast_type = (62, 2)"
| "ale_field_pos Port_num = (66, 2)"
| "ale_field_pos Blocked = (65, 1)"
| "ale_field_pos Secure = (64, 1)"
| "ale_field_pos Vlan_untag_force = (24, 3)"
| "ale_field_pos Vlan_reg_mcast = (16, 3)"
| "ale_field_pos Vlan_unreg_mcast = (8, 3)"
| "ale_field_pos Vlan_member_list = (0, 3)"
| "ale_field_pos Mcast = (40, 1)"

definition ale_get :: "ale_field \<Rightarrow> ale_entry \<Rightarrow> u32" where
  "ale_get f e = (case ale_field_pos f of (start, bits) \<Rightarrow> cpsw_ale_get_field e start bits)"

definition ale_set :: "ale_field \<Rightarrow> u32 \<Rightarrow> ale_entry \<Rightarrow> ale_entry" where
  "ale_set f value e = (case ale_field_pos f of (start, bits) \<Rightarrow> cpsw_ale_set_field start bits value e)"

definition cpsw_ale_get_addr :: "ale_entry \<Rightarrow> byte list" where
  "cpsw_ale_get_addr e = map (\<lambda>i. ucast (cpsw_ale_get_field e (40 - 8 * i) 8)) [0..<6]"

definition cpsw_ale_set_addr :: "byte list \<Rightarrow> ale_entry \<Rightarrow> ale_entry" where
  "cpsw_ale_set_addr addr e =
     fold (\<lambda>i. cpsw_ale_set_field (40 - 8 * i) 8 (ucast (addr ! i))) [0..<6] e"

definition ALE_TYPE_FREE :: u32 where "ALE_TYPE_FREE = 0"
definition ALE_TYPE_ADDR :: u32 where "ALE_TYPE_ADDR = 1"
definition ALE_TYPE_VLAN :: u32 where "ALE_TYPE_VLAN = 2"
definition ALE_TYPE_VLAN_ADDR :: u32 where "ALE_TYPE_VLAN_ADDR = 3"
definition ALE_UCAST_PERSISTANT :: u32 where "ALE_UCAST_PERSISTANT = 0"
definition ALE_UCAST_OUI :: u32 where "ALE_UCAST_OUI = 2"
definition ALE_MCAST_FWD_2 :: u32 where "ALE_MCAST_FWD_2 = 3"
definition ALE_SECURE :: u32 where "ALE_SECURE = 1"
definition ALE_BLOCKED :: u32 where "ALE_BLOCKED = 2"

lemmas ale_consts = ALE_TYPE_FREE_def ALE_TYPE_ADDR_def ALE_TYPE_VLAN_def ALE_TYPE_VLAN_ADDR_def
  ALE_UCAST_PERSISTANT_def ALE_UCAST_OUI_def ALE_MCAST_FWD_2_def ALE_SECURE_def ALE_BLOCKED_def

section \<open>Fields of an entry, bit by bit\<close>

definition entry_bit :: "ale_entry \<Rightarrow> nat \<Rightarrow> bool" where
  "entry_bit e j \<longleftrightarrow> bit (e ! (2 - j div 32)) (j mod 32)"

definition in_one_word :: "nat \<Rightarrow> nat \<Rightarrow> bool" where
  "in_one_word start bits \<longleftrightarrow> start mod 32 + bits \<le> 32 \<and> start < 96"

lemma BITMASK_mask: "BITMASK bits = mask bits"
  by (simp add: BITMASK_def mask_eq_exp_minus_1 push_bit_eq_mult)

lemma in_one_word_div:
  assumes "in_one_word start bits" "n < bits"
  shows "(start + n) div 32 = start div 32" "(start + n) mod 32 = start mod 32 + n"
proof -
  have *: "start mod 32 + n < 32" using assms by (simp add: in_one_word_def)
  have eq: "start + n = (start mod 32 + n) + 32 * (start div 32)" by simp
  show "(start + n) div 32 = start div 32" by (subst eq, subst div_mult_self2) (use * in simp_all)
  show "(start + n) mod 32 = start mod 32 + n" by (subst eq, subst mod_mult_self2) (use * in simp)
qed

lemma start_mod: "start - start div 32 * 32 = start mod (32::nat)"
  by (simp add: minus_div_mult_eq_mod)

lemma bit_get_field:
  assumes "in_one_word start bits"
  shows "bit (cpsw_ale_get_field e start bits) n \<longleftrightarrow> n < bits \<and> entry_bit e (start + n)"
proof (cases "n < bits")
  case True
  then have "n < 32" using assms by (simp add: in_one_word_def)
  then show ?thesis using True in_one_word_div [OF assms True]
    by (simp add: cpsw_ale_get_field_def entry_bit_def BITMASK_mask start_mod Let_def
        bit_and_iff bit_drop_bit_eq bit_mask_iff)
qed (simp add: cpsw_ale_get_field_def BITMASK_mask Let_def bit_and_iff bit_mask_iff)

lemma length_set_field [simp]: "length (cpsw_ale_set_field start bits v e) = length e"
  by (simp add: cpsw_ale_set_field_def Let_def)

lemma set_field_word:
  assumes "length e = 3" "i < 3"
  shows "cpsw_ale_set_field start bits v e ! i =
    (if i = 2 - start div 32
     then (e ! i AND NOT (push_bit (start mod 32) (mask bits))) OR
          push_bit (start mod 32) (v AND mask bits) else e ! i)"
  using assms by (simp add: cpsw_ale_set_field_def Let_def BITMASK_mask start_mod)

lemma in_one_word_end:
  assumes "in_one_word start bits" "n < bits"
  shows "start + n < 96"
proof -
  have "start div 32 < 3" using assms(1) by (simp add: in_one_word_def div_less_iff_less_mult)
  then have "(start + n) div 32 < 3" using in_one_word_div(1) [OF assms] by simp
  then show ?thesis by (simp add: div_less_iff_less_mult)
qed

lemma entry_bit_set_field_word:
  assumes "length e = 3" "q < 3" "s + bits \<le> 32" "s < 32" "k < 32"
  shows "entry_bit (cpsw_ale_set_field (s + 32 * q) bits v e) (k + 32 * q) =
    (if s \<le> k \<and> k < s + bits then bit v (k - s) else entry_bit e (k + 32 * q))"
  using assms
  by (simp add: entry_bit_def set_field_word bit_or_iff bit_and_iff bit_not_iff bit_push_bit_iff
      bit_mask_iff) auto

lemma entry_bit_set_field:
  assumes "length e = 3" "in_one_word start bits" "j < 96"
  shows "entry_bit (cpsw_ale_set_field start bits v e) j =
    (if start \<le> j \<and> j < start + bits then bit v (j - start) else entry_bit e j)"
proof -
  define q s k where d: "q = start div 32" "s = start mod 32" "k = j mod 32"
  have start: "start = s + 32 * q" and s: "s + bits \<le> 32" "s < 32" "k < 32"
    and q: "q < 3" and j: "j div 32 < 3"
    using assms by (auto simp: d in_one_word_def div_less_iff_less_mult)
  show ?thesis
  proof (cases "j div 32 = q")
    case True
    then have "j = k + 32 * q" unfolding d by (metis mod_mult_div_eq)
    then show ?thesis using entry_bit_set_field_word [OF assms(1) q s] by (auto simp: start)
  next
    case False
    have "\<not> (start \<le> j \<and> j < start + bits)"
    proof
      assume a: "start \<le> j \<and> j < start + bits"
      then have "j - start < bits" by arith
      with a False in_one_word_div(1) [OF assms(2), of "j - start"] show False by (simp add: d)
    qed
    moreover have "2 - j div 32 \<noteq> 2 - q" using False j q by linarith
    ultimately show ?thesis using assms(1) by (auto simp: entry_bit_def set_field_word d)
  qed
qed

lemma get_set_field:
  assumes "length e = 3" "in_one_word start bits"
  shows "cpsw_ale_get_field (cpsw_ale_set_field start bits v e) start bits = v AND mask bits"
proof (rule bit_word_eqI)
  fix n :: nat
  have "start + n < 96" if "n < bits"
    using in_one_word_end [OF assms(2) that] .
  then show "bit (cpsw_ale_get_field (cpsw_ale_set_field start bits v e) start bits) n =
             bit (v AND mask bits) n" if "n < LENGTH(32)"
    using assms that by (auto simp: bit_get_field entry_bit_set_field bit_and_iff bit_mask_iff)
qed

lemma get_set_field_other:
  assumes "length e = 3" "in_one_word start bits" "in_one_word s b" "s + b \<le> start \<or> start + bits \<le> s"
  shows "cpsw_ale_get_field (cpsw_ale_set_field start bits v e) s b = cpsw_ale_get_field e s b"
proof (rule bit_word_eqI)
  fix n :: nat
  have "s + n < 96" if "n < b"
    using in_one_word_end [OF assms(3) that] .
  then show "bit (cpsw_ale_get_field (cpsw_ale_set_field start bits v e) s b) n =
             bit (cpsw_ale_get_field e s b) n" if "n < LENGTH(32)"
    using assms that by (auto simp: bit_get_field entry_bit_set_field)
qed

subsection \<open>The named fields\<close>

definition field_first :: "ale_field \<Rightarrow> nat" where "field_first f = fst (ale_field_pos f)"
definition field_bits :: "ale_field \<Rightarrow> nat" where "field_bits f = snd (ale_field_pos f)"

definition field_disjoint :: "ale_field \<Rightarrow> ale_field \<Rightarrow> bool" where
  "field_disjoint f g \<longleftrightarrow> field_first f + field_bits f \<le> field_first g
                      \<or> field_first g + field_bits g \<le> field_first f"

lemma ale_field_one_word [simp]: "in_one_word (field_first f) (field_bits f)"
  by (cases f) (simp_all add: in_one_word_def field_first_def field_bits_def)

lemma ale_get_field: "ale_get f e = cpsw_ale_get_field e (field_first f) (field_bits f)"
  by (simp add: ale_get_def field_first_def field_bits_def split: prod.splits)

lemma ale_set_field: "ale_set f v e = cpsw_ale_set_field (field_first f) (field_bits f) v e"
  by (simp add: ale_set_def field_first_def field_bits_def split: prod.splits)

lemma length_ale_set [simp]: "length (ale_set f v e) = length e"
  by (simp add: ale_set_field)

lemma ale_get_set:
  "length e = 3 \<Longrightarrow> ale_get f (ale_set f v e) = v AND mask (field_bits f)"
  by (simp add: ale_get_field ale_set_field get_set_field)

lemma ale_get_set_other:
  "length e = 3 \<Longrightarrow> field_disjoint f g \<Longrightarrow> ale_get f (ale_set g v e) = ale_get f e"
  by (auto simp: ale_get_field ale_set_field field_disjoint_def intro!: get_set_field_other)

lemma ale_get_mask: "ale_get f e AND mask (field_bits f) = ale_get f e"
  by (rule bit_word_eqI) (auto simp: ale_get_field bit_get_field bit_and_iff bit_mask_iff)

subsection \<open>The address\<close>

lemma upt_0_6: "[0..<6] = [0, 1, 2, 3, 4, 5]"
  by (simp add: upt_rec)

lemma set_addr_unfold:
  "cpsw_ale_set_addr addr e =
     cpsw_ale_set_field 0 8 (ucast (addr ! 5)) (cpsw_ale_set_field 8 8 (ucast (addr ! 4))
     (cpsw_ale_set_field 16 8 (ucast (addr ! 3)) (cpsw_ale_set_field 24 8 (ucast (addr ! 2))
     (cpsw_ale_set_field 32 8 (ucast (addr ! 1)) (cpsw_ale_set_field 40 8 (ucast (addr ! 0)) e)))))"
  by (simp add: cpsw_ale_set_addr_def upt_0_6)

lemma length_set_addr [simp]: "length (cpsw_ale_set_addr addr e) = length e"
  by (simp add: set_addr_unfold)

lemma ucast_byte: "ucast ((ucast (b :: byte) :: u32) AND mask 8) = b"
  by (rule bit_word_eqI) (simp add: bit_simps)

lemma get_addr_unfold:
  "cpsw_ale_get_addr e =
     [ucast (cpsw_ale_get_field e 40 8), ucast (cpsw_ale_get_field e 32 8),
      ucast (cpsw_ale_get_field e 24 8), ucast (cpsw_ale_get_field e 16 8),
      ucast (cpsw_ale_get_field e 8 8), ucast (cpsw_ale_get_field e 0 8)]"
  by (simp add: cpsw_ale_get_addr_def upt_0_6)

lemma list6: "length xs = 6 \<Longrightarrow> [xs ! 0, xs ! 1, xs ! 2, xs ! 3, xs ! 4, xs ! 5] = xs"
  by (auto simp: length_Suc_conv numeral_eq_Suc)

lemma get_set_addr:
  assumes "length e = 3" "length addr = 6"
  shows "cpsw_ale_get_addr (cpsw_ale_set_addr addr e) = addr"
proof -
  have "cpsw_ale_get_addr (cpsw_ale_set_addr addr e) =
        [addr ! 0, addr ! 1, addr ! 2, addr ! 3, addr ! 4, addr ! 5]"
    using assms(1)
    by (simp add: get_addr_unfold set_addr_unfold get_set_field get_set_field_other in_one_word_def
        ucast_byte)
  then show ?thesis using list6 [OF assms(2)] by simp
qed

lemma ale_get_set_addr:
  assumes "length e = 3" "48 \<le> field_first f"
  shows "ale_get f (cpsw_ale_set_addr addr e) = ale_get f e"
proof -
  have *: "ale_get f (cpsw_ale_set_field a 8 v e') = ale_get f e'"
    if "length e' = 3" "in_one_word a 8" "a \<le> 40" for a v e'
    unfolding ale_get_field using that assms(2) by (intro get_set_field_other) auto
  show ?thesis using assms(1) by (simp add: set_addr_unfold * in_one_word_def)
qed

lemma get_addr_ale_set:
  assumes "length e = 3" "48 \<le> field_first f"
  shows "cpsw_ale_get_addr (ale_set f v e) = cpsw_ale_get_addr e"
proof -
  have *: "cpsw_ale_get_field (ale_set f v e) a 8 = cpsw_ale_get_field e a 8"
    if "in_one_word a 8" "a \<le> 40" for a
    unfolding ale_set_field using that assms by (intro get_set_field_other) auto
  show ?thesis by (simp add: get_addr_unfold * in_one_word_def)
qed

lemma mcast_is_group_bit: "ale_get Mcast e \<noteq> 0 \<longleftrightarrow> bit (hd (cpsw_ale_get_addr e)) 0"
proof -
  have "ale_get Mcast e \<noteq> 0 \<longleftrightarrow> bit (ale_get Mcast e) 0"
  proof
    assume "ale_get Mcast e \<noteq> 0"
    then obtain n where "bit (ale_get Mcast e) n" using bit_word_eqI [of "ale_get Mcast e" 0] by auto
    then show "bit (ale_get Mcast e) 0"
      by (auto simp: ale_get_field bit_get_field field_bits_def in_one_word_def field_first_def)
  qed auto
  also have "\<dots> \<longleftrightarrow> bit (hd (cpsw_ale_get_addr e)) 0"
    by (simp add: get_addr_unfold ale_get_field bit_get_field in_one_word_def bit_simps
        field_bits_def field_first_def)
  finally show ?thesis .
qed

end
