(* ===== verification/Cpsw_Ale.thy ===== *)
theory Cpsw_Ale
  imports Ale_Entry
begin

text \<open>
  The driver of the address lookup engine in the AM335x Ethernet switch,
  \<^verbatim>\<open>drivers/net/ethernet/ti/cpsw_ale.c\<close>.  The device is a parameter: a read and a write
  function for its registers on a state of unknown type.  What its manual promises of the table
  registers is the locale \<open>ale_device\<close>.
\<close>

section \<open>Device and driver state\<close>

definition ALE_CONTROL :: u32 where "ALE_CONTROL = 0x08"
definition ALE_UNKNOWNVLAN :: u32 where "ALE_UNKNOWNVLAN = 0x18"
definition ALE_TABLE_CONTROL :: u32 where "ALE_TABLE_CONTROL = 0x20"
definition ALE_TABLE :: u32 where "ALE_TABLE = 0x34"
definition ALE_PORTCTL :: u32 where "ALE_PORTCTL = 0x40"
definition ALE_TABLE_WRITE :: u32 where "ALE_TABLE_WRITE = push_bit 31 1"

record 'h ale_dev =
  raw_readl :: "u32 \<Rightarrow> 'h \<Rightarrow> u32"
  raw_writel :: "u32 \<Rightarrow> u32 \<Rightarrow> 'h \<Rightarrow> 'h"

text \<open>\<open>ale_timer\<close> is the expiry of the ageing timer while it is pending.\<close>

record 'h cpsw_ale =
  ale_entries :: nat
  ale_ports :: nat
  ale_ageout :: u32
  ale_timer :: "u32 option"
  ale_hw :: 'h

definition cpsw_ale_read :: "'h ale_dev \<Rightarrow> nat \<Rightarrow> 'h \<Rightarrow> ale_entry \<times> 'h" where
  "cpsw_ale_read dev idx h =
     (let h = raw_writel dev ALE_TABLE_CONTROL (of_nat idx) h
      in (map (\<lambda>i. raw_readl dev (ALE_TABLE + 4 * of_nat i) h) [0..<3], h))"

definition cpsw_ale_write :: "'h ale_dev \<Rightarrow> nat \<Rightarrow> ale_entry \<Rightarrow> 'h \<Rightarrow> 'h" where
  "cpsw_ale_write dev idx e h =
     raw_writel dev ALE_TABLE_CONTROL (of_nat idx OR ALE_TABLE_WRITE)
       (fold (\<lambda>i. raw_writel dev (ALE_TABLE + 4 * of_nat i) (e ! i)) [0..<3] h)"

text \<open>The loops over the table: the first entry that satisfies a test, and rewriting entries
  (\<open>None\<close>: the entry is not written back).\<close>

fun ale_find :: "'h ale_dev \<Rightarrow> (ale_entry \<Rightarrow> bool) \<Rightarrow> nat list \<Rightarrow> 'h \<Rightarrow> nat result \<times> 'h" where
  "ale_find dev P [] h = (Inl ENOENT, h)"
| "ale_find dev P (idx # is) h =
     (case cpsw_ale_read dev idx h of (e, h) \<Rightarrow> if P e then (Inr idx, h) else ale_find dev P is h)"

fun ale_walk :: "'h ale_dev \<Rightarrow> (ale_entry \<Rightarrow> ale_entry option) \<Rightarrow> nat list \<Rightarrow> 'h \<Rightarrow> 'h" where
  "ale_walk dev f [] h = h"
| "ale_walk dev f (idx # is) h =
     (case cpsw_ale_read dev idx h of (e, h) \<Rightarrow>
        ale_walk dev f is (case f e of None \<Rightarrow> h | Some e' \<Rightarrow> cpsw_ale_write dev idx e' h))"

section \<open>Searching the table\<close>

definition is_addr_entry :: "ale_entry \<Rightarrow> bool" where
  "is_addr_entry e \<longleftrightarrow>
     ale_get Entry_type e = ALE_TYPE_ADDR \<or> ale_get Entry_type e = ALE_TYPE_VLAN_ADDR"

definition matches_addr :: "byte list \<Rightarrow> u16 \<Rightarrow> ale_entry \<Rightarrow> bool" where
  "matches_addr addr vid e \<longleftrightarrow>
     is_addr_entry e \<and> ale_get Vlan_id e = ucast vid \<and> cpsw_ale_get_addr e = take 6 addr"

definition cpsw_ale_match_addr ::
  "'h ale_dev \<Rightarrow> 'h cpsw_ale \<Rightarrow> byte list \<Rightarrow> u16 \<Rightarrow> nat result \<times> 'h cpsw_ale" where
  "cpsw_ale_match_addr dev ale addr vid =
     (case ale_find dev (matches_addr addr vid) [0..<ale_entries ale] (ale_hw ale) of
        (r, h) \<Rightarrow> (r, ale\<lparr>ale_hw := h\<rparr>))"

definition matches_vlan :: "u16 \<Rightarrow> ale_entry \<Rightarrow> bool" where
  "matches_vlan vid e \<longleftrightarrow> ale_get Entry_type e = ALE_TYPE_VLAN \<and> ale_get Vlan_id e = ucast vid"

definition cpsw_ale_match_vlan ::
  "'h ale_dev \<Rightarrow> 'h cpsw_ale \<Rightarrow> u16 \<Rightarrow> nat result \<times> 'h cpsw_ale" where
  "cpsw_ale_match_vlan dev ale vid =
     (case ale_find dev (matches_vlan vid) [0..<ale_entries ale] (ale_hw ale) of
        (r, h) \<Rightarrow> (r, ale\<lparr>ale_hw := h\<rparr>))"

definition is_free_entry :: "ale_entry \<Rightarrow> bool" where
  "is_free_entry e \<longleftrightarrow> ale_get Entry_type e = ALE_TYPE_FREE"

definition cpsw_ale_match_free :: "'h ale_dev \<Rightarrow> 'h cpsw_ale \<Rightarrow> nat result \<times> 'h cpsw_ale" where
  "cpsw_ale_match_free dev ale =
     (case ale_find dev is_free_entry [0..<ale_entries ale] (ale_hw ale) of
        (r, h) \<Rightarrow> (r, ale\<lparr>ale_hw := h\<rparr>))"

definition is_ageable :: "ale_entry \<Rightarrow> bool" where
  "is_ageable e \<longleftrightarrow> is_addr_entry e \<and> ale_get Mcast e = 0 \<and>
     ale_get Ucast_type e \<noteq> ALE_UCAST_PERSISTANT \<and> ale_get Ucast_type e \<noteq> ALE_UCAST_OUI"

definition cpsw_ale_find_ageable :: "'h ale_dev \<Rightarrow> 'h cpsw_ale \<Rightarrow> nat result \<times> 'h cpsw_ale" where
  "cpsw_ale_find_ageable dev ale =
     (case ale_find dev is_ageable [0..<ale_entries ale] (ale_hw ale) of
        (r, h) \<Rightarrow> (r, ale\<lparr>ale_hw := h\<rparr>))"

section \<open>Flushing ports\<close>

definition cpsw_ale_flush_mcast :: "u32 \<Rightarrow> ale_entry \<Rightarrow> ale_entry" where
  "cpsw_ale_flush_mcast port_mask e =
     (let mask = ale_get Port_mask e
      in if mask AND port_mask = 0 then e
         else let mask = mask AND NOT port_mask
              in if mask \<noteq> 0 then ale_set Port_mask mask e
                 else ale_set Entry_type ALE_TYPE_FREE e)"

definition is_broadcast_ether_addr :: "byte list \<Rightarrow> bool" where
  "is_broadcast_ether_addr addr \<longleftrightarrow>
     addr ! 0 AND addr ! 1 AND addr ! 2 AND addr ! 3 AND addr ! 4 AND addr ! 5 = 0xff"

definition flush_multicast_entry :: "u32 \<Rightarrow> ale_entry \<Rightarrow> ale_entry option" where
  "flush_multicast_entry port_mask e =
     (if \<not> is_addr_entry e then None
      else Some (if ale_get Mcast e \<noteq> 0 \<and> \<not> is_broadcast_ether_addr (cpsw_ale_get_addr e)
                 then cpsw_ale_flush_mcast port_mask e else e))"

definition cpsw_ale_flush_multicast :: "'h ale_dev \<Rightarrow> u32 \<Rightarrow> 'h cpsw_ale \<Rightarrow> 'h cpsw_ale" where
  "cpsw_ale_flush_multicast dev port_mask ale =
     ale\<lparr>ale_hw := ale_walk dev (flush_multicast_entry port_mask) [0..<ale_entries ale] (ale_hw ale)\<rparr>"

definition flush_vlan_multicast_entry :: "u16 \<Rightarrow> u32 \<Rightarrow> ale_entry \<Rightarrow> ale_entry option" where
  "flush_vlan_multicast_entry vid port_mask e =
     (if ale_get Entry_type e \<noteq> ALE_TYPE_VLAN_ADDR then None
      else if ale_get Vlan_id e \<noteq> ucast vid then None
      else if ale_get Mcast e \<noteq> 0 \<and> \<not> is_broadcast_ether_addr (cpsw_ale_get_addr e)
      then Some (cpsw_ale_flush_mcast port_mask e) else None)"

definition cpsw_ale_flush_vlan_multicast ::
  "'h ale_dev \<Rightarrow> u16 \<Rightarrow> u32 \<Rightarrow> 'h cpsw_ale \<Rightarrow> 'h cpsw_ale" where
  "cpsw_ale_flush_vlan_multicast dev vid port_mask ale =
     ale\<lparr>ale_hw :=
       ale_walk dev (flush_vlan_multicast_entry vid port_mask) [0..<ale_entries ale] (ale_hw ale)\<rparr>"

definition cpsw_ale_flush_ucast :: "u32 \<Rightarrow> ale_entry \<Rightarrow> ale_entry" where
  "cpsw_ale_flush_ucast port_mask e =
     (let port = ale_get Port_num e
      in if push_bit (unat port) 1 AND port_mask = 0 then e
         else ale_set Entry_type ALE_TYPE_FREE e)"

definition flush_entry :: "u32 \<Rightarrow> ale_entry \<Rightarrow> ale_entry option" where
  "flush_entry port_mask e =
     (if \<not> is_addr_entry e then None
      else Some (if ale_get Mcast e \<noteq> 0 then cpsw_ale_flush_mcast port_mask e
                 else cpsw_ale_flush_ucast port_mask e))"

definition cpsw_ale_flush :: "'h ale_dev \<Rightarrow> u32 \<Rightarrow> 'h cpsw_ale \<Rightarrow> 'h cpsw_ale" where
  "cpsw_ale_flush dev port_mask ale =
     ale\<lparr>ale_hw := ale_walk dev (flush_entry port_mask) [0..<ale_entries ale] (ale_hw ale)\<rparr>"

section \<open>Adding and deleting entries\<close>

definition ale_free_entry :: ale_entry where "ale_free_entry = [0, 0, 0]"

definition ale_write_idx :: "'h ale_dev \<Rightarrow> nat \<Rightarrow> ale_entry \<Rightarrow> 'h cpsw_ale \<Rightarrow> 'h cpsw_ale" where
  "ale_write_idx dev idx e ale = ale\<lparr>ale_hw := cpsw_ale_write dev idx e (ale_hw ale)\<rparr>"

definition ale_read_idx :: "'h ale_dev \<Rightarrow> nat \<Rightarrow> 'h cpsw_ale \<Rightarrow> ale_entry \<times> 'h cpsw_ale" where
  "ale_read_idx dev idx ale =
     (case cpsw_ale_read dev idx (ale_hw ale) of (e, h) \<Rightarrow> (e, ale\<lparr>ale_hw := h\<rparr>))"

text \<open>The common end of the add operations: where no entry matched, a free slot, else a slot that
  may age out, else \<open>ENOMEM\<close>; then the write.\<close>

definition ale_place ::
  "'h ale_dev \<Rightarrow> nat result \<Rightarrow> ale_entry \<Rightarrow> 'h cpsw_ale \<Rightarrow> unit result \<times> 'h cpsw_ale" where
  "ale_place dev idx e ale =
     (let (idx, ale) = (case idx of Inr i \<Rightarrow> (Inr i, ale) | Inl _ \<Rightarrow> cpsw_ale_match_free dev ale);
          (idx, ale) = (case idx of Inr i \<Rightarrow> (Inr i, ale) | Inl _ \<Rightarrow> cpsw_ale_find_ageable dev ale)
      in case idx of Inl _ \<Rightarrow> (Inl ENOMEM, ale) | Inr i \<Rightarrow> (Inr (), ale_write_idx dev i e ale))"

text \<open>The entries the add operations build, in the order of the source's assignments.\<close>

definition ucast_entry :: "u32 \<Rightarrow> byte list \<Rightarrow> u32 \<Rightarrow> u32 \<Rightarrow> ale_entry" where
  "ucast_entry type addr port flags =
     (let e = ale_free_entry;
          e = ale_set Entry_type type e;
          e = cpsw_ale_set_addr addr e;
          e = ale_set Ucast_type ALE_UCAST_PERSISTANT e;
          e = ale_set Secure (if flags AND ALE_SECURE \<noteq> 0 then 1 else 0) e;
          e = ale_set Blocked (if flags AND ALE_BLOCKED \<noteq> 0 then 1 else 0) e
      in ale_set Port_num port e)"

definition oui_entry :: "byte list \<Rightarrow> ale_entry" where
  "oui_entry addr =
     (let e = ale_free_entry;
          e = ale_set Entry_type ALE_TYPE_ADDR e;
          e = cpsw_ale_set_addr addr e
      in ale_set Ucast_type ALE_UCAST_OUI e)"

definition mcast_entry :: "byte list \<Rightarrow> u32 \<Rightarrow> u32 \<Rightarrow> u32 \<Rightarrow> ale_entry \<Rightarrow> ale_entry" where
  "mcast_entry addr port_mask super mcast_state e =
     (let e = ale_set Entry_type ALE_TYPE_ADDR e;
          e = cpsw_ale_set_addr addr e;
          e = ale_set Mcast_state ALE_MCAST_FWD_2 e;
          e = ale_set Super super e;
          e = ale_set Mcast_state mcast_state e;
          mask = ale_get Port_mask e
      in ale_set Port_mask (port_mask OR mask) e)"

definition vlan_entry :: "u16 \<Rightarrow> u32 \<Rightarrow> u32 \<Rightarrow> u32 \<Rightarrow> u32 \<Rightarrow> ale_entry \<Rightarrow> ale_entry" where
  "vlan_entry vid port untag reg_mcast unreg_mcast e =
     (let e = ale_set Entry_type ALE_TYPE_VLAN e;
          e = ale_set Vlan_id (ucast vid) e;
          e = ale_set Vlan_untag_force untag e;
          e = ale_set Vlan_reg_mcast reg_mcast e;
          e = ale_set Vlan_unreg_mcast unreg_mcast e
      in ale_set Vlan_member_list port e)"

definition vlan_mcast_entry ::
  "byte list \<Rightarrow> u32 \<Rightarrow> u16 \<Rightarrow> u32 \<Rightarrow> u32 \<Rightarrow> ale_entry \<Rightarrow> ale_entry" where
  "vlan_mcast_entry addr port_mask vid super mcast_state e =
     (let e = ale_set Entry_type ALE_TYPE_VLAN_ADDR e;
          e = cpsw_ale_set_addr addr e;
          e = ale_set Mcast_state ALE_MCAST_FWD_2 e;
          e = ale_set Vlan_id (ucast vid) e;
          e = ale_set Super super e;
          e = ale_set Mcast_state mcast_state e;
          mask = ale_get Port_mask e
      in ale_set Port_mask (port_mask OR mask) e)"

definition cpsw_ale_add_ucast ::
  "'h ale_dev \<Rightarrow> byte list \<Rightarrow> u32 \<Rightarrow> u32 \<Rightarrow> 'h cpsw_ale \<Rightarrow> unit result \<times> 'h cpsw_ale" where
  "cpsw_ale_add_ucast dev addr port flags ale =
     (let e = ucast_entry ALE_TYPE_ADDR addr port flags;
          (idx, ale) = cpsw_ale_match_addr dev ale addr 0
      in ale_place dev idx e ale)"

definition cpsw_ale_add_oui ::
  "'h ale_dev \<Rightarrow> byte list \<Rightarrow> 'h cpsw_ale \<Rightarrow> unit result \<times> 'h cpsw_ale" where
  "cpsw_ale_add_oui dev addr ale =
     (let e = oui_entry addr;
          (idx, ale) = cpsw_ale_match_addr dev ale addr 0
      in ale_place dev idx e ale)"

definition cpsw_ale_del_ucast ::
  "'h ale_dev \<Rightarrow> byte list \<Rightarrow> u32 \<Rightarrow> 'h cpsw_ale \<Rightarrow> unit result \<times> 'h cpsw_ale" where
  "cpsw_ale_del_ucast dev addr port ale =
     (case cpsw_ale_match_addr dev ale addr 0 of
        (Inl _, ale) \<Rightarrow> (Inl ENOENT, ale)
      | (Inr idx, ale) \<Rightarrow>
          (Inr (), ale_write_idx dev idx (ale_set Entry_type ALE_TYPE_FREE ale_free_entry) ale))"

text \<open>Where an entry matched, the add operations for multicast and VLAN start from it.\<close>

definition ale_read_match ::
  "'h ale_dev \<Rightarrow> nat result \<Rightarrow> 'h cpsw_ale \<Rightarrow> ale_entry \<times> 'h cpsw_ale" where
  "ale_read_match dev idx ale =
     (case idx of Inr i \<Rightarrow> ale_read_idx dev i ale | Inl _ \<Rightarrow> (ale_free_entry, ale))"

definition cpsw_ale_add_mcast ::
  "'h ale_dev \<Rightarrow> byte list \<Rightarrow> u32 \<Rightarrow> u32 \<Rightarrow> u32 \<Rightarrow> 'h cpsw_ale \<Rightarrow> unit result \<times> 'h cpsw_ale" where
  "cpsw_ale_add_mcast dev addr port_mask super mcast_state ale =
     (let (idx, ale) = cpsw_ale_match_addr dev ale addr 0;
          (e, ale) = ale_read_match dev idx ale;
          e = mcast_entry addr port_mask super mcast_state e
      in ale_place dev idx e ale)"

definition ale_del_mcast_entry :: "u32 \<Rightarrow> ale_entry \<Rightarrow> ale_entry" where
  "ale_del_mcast_entry port_mask e =
     (if port_mask \<noteq> 0 then ale_set Port_mask port_mask e else ale_set Entry_type ALE_TYPE_FREE e)"

definition cpsw_ale_del_mcast ::
  "'h ale_dev \<Rightarrow> byte list \<Rightarrow> u32 \<Rightarrow> 'h cpsw_ale \<Rightarrow> unit result \<times> 'h cpsw_ale" where
  "cpsw_ale_del_mcast dev addr port_mask ale =
     (case cpsw_ale_match_addr dev ale addr 0 of
        (Inl _, ale) \<Rightarrow> (Inl EINVAL, ale)
      | (Inr idx, ale) \<Rightarrow>
          (case ale_read_idx dev idx ale of (e, ale) \<Rightarrow>
             (Inr (), ale_write_idx dev idx (ale_del_mcast_entry port_mask e) ale)))"

definition cpsw_ale_add_vlan ::
  "'h ale_dev \<Rightarrow> u16 \<Rightarrow> u32 \<Rightarrow> u32 \<Rightarrow> u32 \<Rightarrow> u32 \<Rightarrow> 'h cpsw_ale \<Rightarrow> unit result \<times> 'h cpsw_ale" where
  "cpsw_ale_add_vlan dev vid port untag reg_mcast unreg_mcast ale =
     (let (idx, ale) = cpsw_ale_match_vlan dev ale vid;
          (e, ale) = ale_read_match dev idx ale;
          e = vlan_entry vid port untag reg_mcast unreg_mcast e
      in ale_place dev idx e ale)"

definition ale_del_vlan_entry :: "u32 \<Rightarrow> ale_entry \<Rightarrow> ale_entry" where
  "ale_del_vlan_entry port e =
     (let mask = ale_get Vlan_member_list e AND NOT port
      in if mask = 0 then ale_set Entry_type ALE_TYPE_FREE e else ale_set Vlan_member_list mask e)"

definition cpsw_ale_del_vlan ::
  "'h ale_dev \<Rightarrow> u16 \<Rightarrow> u32 \<Rightarrow> 'h cpsw_ale \<Rightarrow> unit result \<times> 'h cpsw_ale" where
  "cpsw_ale_del_vlan dev vid port ale =
     (case cpsw_ale_match_vlan dev ale vid of
        (Inl _, ale) \<Rightarrow> (Inl ENOENT, ale)
      | (Inr idx, ale) \<Rightarrow>
          (case ale_read_idx dev idx ale of (e, ale) \<Rightarrow>
             (Inr (), ale_write_idx dev idx (ale_del_vlan_entry port e) ale)))"

definition cpsw_ale_vlan_add_ucast ::
  "'h ale_dev \<Rightarrow> byte list \<Rightarrow> u32 \<Rightarrow> u32 \<Rightarrow> u16 \<Rightarrow> 'h cpsw_ale \<Rightarrow> unit result \<times> 'h cpsw_ale" where
  "cpsw_ale_vlan_add_ucast dev addr port flags vid ale =
     (let e = ucast_entry ALE_TYPE_VLAN_ADDR addr port flags;
          e = ale_set Vlan_id (ucast vid) e;
          (idx, ale) = cpsw_ale_match_addr dev ale addr vid
      in ale_place dev idx e ale)"

definition cpsw_ale_vlan_del_ucast ::
  "'h ale_dev \<Rightarrow> byte list \<Rightarrow> u32 \<Rightarrow> u16 \<Rightarrow> 'h cpsw_ale \<Rightarrow> unit result \<times> 'h cpsw_ale" where
  "cpsw_ale_vlan_del_ucast dev addr port vid ale =
     (case cpsw_ale_match_addr dev ale addr vid of
        (Inl _, ale) \<Rightarrow> (Inl ENOENT, ale)
      | (Inr idx, ale) \<Rightarrow>
          (Inr (), ale_write_idx dev idx (ale_set Entry_type ALE_TYPE_FREE ale_free_entry) ale))"

definition cpsw_ale_vlan_add_mcast ::
  "'h ale_dev \<Rightarrow> byte list \<Rightarrow> u32 \<Rightarrow> u16 \<Rightarrow> u32 \<Rightarrow> u32 \<Rightarrow> 'h cpsw_ale \<Rightarrow> unit result \<times> 'h cpsw_ale" where
  "cpsw_ale_vlan_add_mcast dev addr port_mask vid super mcast_state ale =
     (let (idx, ale) = cpsw_ale_match_addr dev ale addr vid;
          (e, ale) = ale_read_match dev idx ale;
          e = vlan_mcast_entry addr port_mask vid super mcast_state e
      in ale_place dev idx e ale)"

definition cpsw_ale_vlan_del_mcast ::
  "'h ale_dev \<Rightarrow> byte list \<Rightarrow> u32 \<Rightarrow> u16 \<Rightarrow> 'h cpsw_ale \<Rightarrow> unit result \<times> 'h cpsw_ale" where
  "cpsw_ale_vlan_del_mcast dev addr port_mask vid ale =
     (case cpsw_ale_match_addr dev ale addr vid of
        (Inl _, ale) \<Rightarrow> (Inl EINVAL, ale)
      | (Inr idx, ale) \<Rightarrow>
          (case ale_read_idx dev idx ale of (e, ale) \<Rightarrow>
             (Inr (), ale_write_idx dev idx (ale_del_mcast_entry port_mask e) ale)))"

section \<open>Control registers, ageing timer, start and stop\<close>

datatype ale_control =
    ALE_ENABLE | ALE_CLEAR | ALE_AGEOUT | ALE_P0_UNI_FLOOD | ALE_VLAN_NOLEARN | ALE_NO_PORT_VLAN
  | ALE_OUI_DENY | ALE_BYPASS | ALE_RATE_LIMIT_TX | ALE_VLAN_AWARE | ALE_AUTH_ENABLE
  | ALE_RATE_LIMIT | ALE_PORT_STATE | ALE_PORT_DROP_UNTAGGED | ALE_PORT_DROP_UNKNOWN_VLAN
  | ALE_PORT_NOLEARN | ALE_PORT_NO_SA_UPDATE | ALE_PORT_UNKNOWN_VLAN_MEMBER
  | ALE_PORT_UNKNOWN_MCAST_FLOOD | ALE_PORT_UNKNOWN_REG_MCAST_FLOOD | ALE_PORT_UNTAGGED_EGRESS
  | ALE_PORT_BCAST_LIMIT | ALE_PORT_MCAST_LIMIT

record ale_control_info =
  ci_name :: string
  ci_offset :: nat
  ci_port_offset :: nat
  ci_shift :: nat
  ci_port_shift :: nat
  ci_bits :: nat

definition CTRL_GLOBAL :: "string \<Rightarrow> nat \<Rightarrow> ale_control_info" where
  "CTRL_GLOBAL name b = \<lparr>ci_name = name, ci_offset = unat ALE_CONTROL, ci_port_offset = 0,
     ci_shift = b, ci_port_shift = 0, ci_bits = 1\<rparr>"

definition CTRL_UNK :: "string \<Rightarrow> nat \<Rightarrow> ale_control_info" where
  "CTRL_UNK name shift = \<lparr>ci_name = name, ci_offset = unat ALE_UNKNOWNVLAN, ci_port_offset = 0,
     ci_shift = shift, ci_port_shift = 0, ci_bits = 6\<rparr>"

definition CTRL_PORTCTL :: "string \<Rightarrow> nat \<Rightarrow> nat \<Rightarrow> ale_control_info" where
  "CTRL_PORTCTL name start bits = \<lparr>ci_name = name, ci_offset = unat ALE_PORTCTL,
     ci_port_offset = 4, ci_shift = start, ci_port_shift = 0, ci_bits = bits\<rparr>"

fun ale_controls :: "ale_control \<Rightarrow> ale_control_info" where
  "ale_controls ALE_ENABLE = CTRL_GLOBAL ''enable'' 31"
| "ale_controls ALE_CLEAR = CTRL_GLOBAL ''clear'' 30"
| "ale_controls ALE_AGEOUT = CTRL_GLOBAL ''ageout'' 29"
| "ale_controls ALE_P0_UNI_FLOOD = CTRL_GLOBAL ''p0_uni_flood'' 8"
| "ale_controls ALE_VLAN_NOLEARN = CTRL_GLOBAL ''vlan_nolearn'' 7"
| "ale_controls ALE_NO_PORT_VLAN = CTRL_GLOBAL ''no_port_vlan'' 6"
| "ale_controls ALE_OUI_DENY = CTRL_GLOBAL ''oui_deny'' 5"
| "ale_controls ALE_BYPASS = CTRL_GLOBAL ''bypass'' 4"
| "ale_controls ALE_RATE_LIMIT_TX = CTRL_GLOBAL ''rate_limit_tx'' 3"
| "ale_controls ALE_VLAN_AWARE = CTRL_GLOBAL ''vlan_aware'' 2"
| "ale_controls ALE_AUTH_ENABLE = CTRL_GLOBAL ''auth_enable'' 1"
| "ale_controls ALE_RATE_LIMIT = CTRL_GLOBAL ''rate_limit'' 0"
| "ale_controls ALE_PORT_STATE = CTRL_PORTCTL ''port_state'' 0 2"
| "ale_controls ALE_PORT_DROP_UNTAGGED = CTRL_PORTCTL ''drop_untagged'' 2 1"
| "ale_controls ALE_PORT_DROP_UNKNOWN_VLAN = CTRL_PORTCTL ''drop_unknown'' 3 1"
| "ale_controls ALE_PORT_NOLEARN = CTRL_PORTCTL ''nolearn'' 4 1"
| "ale_controls ALE_PORT_NO_SA_UPDATE = CTRL_PORTCTL ''nolearn'' 5 1"
| "ale_controls ALE_PORT_MCAST_LIMIT = CTRL_PORTCTL ''mcast_limit'' 16 8"
| "ale_controls ALE_PORT_BCAST_LIMIT = CTRL_PORTCTL ''bcast_limit'' 24 8"
| "ale_controls ALE_PORT_UNKNOWN_VLAN_MEMBER = CTRL_UNK ''unknown_vlan_member'' 0"
| "ale_controls ALE_PORT_UNKNOWN_MCAST_FLOOD = CTRL_UNK ''unknown_mcast_flood'' 8"
| "ale_controls ALE_PORT_UNKNOWN_REG_MCAST_FLOOD = CTRL_UNK ''unknown_reg_flood'' 16"
| "ale_controls ALE_PORT_UNTAGGED_EGRESS = CTRL_UNK ''untagged_egress'' 24"

text \<open>The enumerators in the order of \<open>enum cpsw_ale_control\<close>: the index is the argument
  \<open>control\<close>.\<close>

definition ale_control_enum :: "ale_control list" where
  "ale_control_enum =
     [ALE_ENABLE, ALE_CLEAR, ALE_AGEOUT, ALE_P0_UNI_FLOOD, ALE_VLAN_NOLEARN, ALE_NO_PORT_VLAN,
      ALE_OUI_DENY, ALE_BYPASS, ALE_RATE_LIMIT_TX, ALE_VLAN_AWARE, ALE_AUTH_ENABLE,
      ALE_RATE_LIMIT, ALE_PORT_STATE, ALE_PORT_DROP_UNTAGGED, ALE_PORT_DROP_UNKNOWN_VLAN,
      ALE_PORT_NOLEARN, ALE_PORT_NO_SA_UPDATE, ALE_PORT_UNKNOWN_VLAN_MEMBER,
      ALE_PORT_UNKNOWN_MCAST_FLOOD, ALE_PORT_UNKNOWN_REG_MCAST_FLOOD, ALE_PORT_UNTAGGED_EGRESS,
      ALE_PORT_BCAST_LIMIT, ALE_PORT_MCAST_LIMIT]"

text \<open>The checks both control operations begin with: the table row and the port to use.\<close>

definition ale_control_lookup :: "nat \<Rightarrow> int \<Rightarrow> int \<Rightarrow> (ale_control_info \<times> nat) result" where
  "ale_control_lookup ports port control =
     (if control < 0 \<or> control \<ge> int (length ale_control_enum) then Inl EINVAL
      else let info = ale_controls (ale_control_enum ! nat control);
               port = (if ci_port_offset info = 0 \<and> ci_port_shift info = 0 then 0 else port)
           in if port < 0 \<or> port > int ports then Inl EINVAL else Inr (info, nat port))"

definition cpsw_ale_control_set ::
  "'h ale_dev \<Rightarrow> int \<Rightarrow> int \<Rightarrow> u32 \<Rightarrow> 'h cpsw_ale \<Rightarrow> unit result \<times> 'h cpsw_ale" where
  "cpsw_ale_control_set dev port control value ale =
     (case ale_control_lookup (ale_ports ale) port control of
        Inl e \<Rightarrow> (Inl e, ale)
      | Inr (info, port) \<Rightarrow>
          (let mask = BITMASK (ci_bits info)
           in if value AND NOT mask \<noteq> 0 then (Inl EINVAL, ale)
              else let offset = of_nat (ci_offset info + port * ci_port_offset info);
                       shift = ci_shift info + port * ci_port_shift info;
                       tmp = raw_readl dev offset (ale_hw ale);
                       tmp = (tmp AND NOT (push_bit shift mask)) OR push_bit shift value
                   in (Inr (), ale\<lparr>ale_hw := raw_writel dev offset tmp (ale_hw ale)\<rparr>)))"

definition cpsw_ale_control_get ::
  "'h ale_dev \<Rightarrow> int \<Rightarrow> int \<Rightarrow> 'h cpsw_ale \<Rightarrow> u32 result" where
  "cpsw_ale_control_get dev port control ale =
     (case ale_control_lookup (ale_ports ale) port control of
        Inl e \<Rightarrow> Inl e
      | Inr (info, port) \<Rightarrow>
          (let offset = of_nat (ci_offset info + port * ci_port_offset info);
               shift = ci_shift info + port * ci_port_shift info;
               tmp = drop_bit shift (raw_readl dev offset (ale_hw ale))
           in Inr (tmp AND BITMASK (ci_bits info))))"

text \<open>\<open>HZ\<close> is a constant of the kernel's configuration and \<open>jiffies\<close> the tick counter: both are
  arguments.\<close>

definition ale_arm_timer :: "u32 \<Rightarrow> 'h cpsw_ale \<Rightarrow> 'h cpsw_ale" where
  "ale_arm_timer jiffies ale =
     (if ale_ageout ale \<noteq> 0 then ale\<lparr>ale_timer := Some (jiffies + ale_ageout ale)\<rparr> else ale)"

definition cpsw_ale_timer :: "'h ale_dev \<Rightarrow> u32 \<Rightarrow> 'h cpsw_ale \<Rightarrow> 'h cpsw_ale" where
  "cpsw_ale_timer dev jiffies ale =
     ale_arm_timer jiffies (snd (cpsw_ale_control_set dev 0 2 1 ale))"

definition cpsw_ale_set_ageout :: "u32 \<Rightarrow> u32 \<Rightarrow> u32 \<Rightarrow> 'h cpsw_ale \<Rightarrow> 'h cpsw_ale" where
  "cpsw_ale_set_ageout HZ jiffies ageout ale =
     ale_arm_timer jiffies (ale\<lparr>ale_timer := None, ale_ageout := ageout * HZ\<rparr>)"

definition cpsw_ale_start :: "'h ale_dev \<Rightarrow> u32 \<Rightarrow> 'h cpsw_ale \<Rightarrow> 'h cpsw_ale" where
  "cpsw_ale_start dev jiffies ale =
     (let ale = snd (cpsw_ale_control_set dev 0 0 1 ale);
          ale = snd (cpsw_ale_control_set dev 0 1 1 ale)
      in ale_arm_timer jiffies (ale\<lparr>ale_timer := None\<rparr>))"

definition cpsw_ale_stop :: "'h ale_dev \<Rightarrow> 'h cpsw_ale \<Rightarrow> 'h cpsw_ale" where
  "cpsw_ale_stop dev ale = (snd (cpsw_ale_control_set dev 0 0 0 ale))\<lparr>ale_timer := None\<rparr>"

definition cpsw_ale_create ::
  "u32 \<Rightarrow> bool \<Rightarrow> nat \<Rightarrow> nat \<Rightarrow> u32 \<Rightarrow> 'h \<Rightarrow> 'h cpsw_ale option" where
  "cpsw_ale_create HZ kzalloc_ok entries ports ageout h =
     (if \<not> kzalloc_ok then None
      else Some \<lparr>ale_entries = entries, ale_ports = ports, ale_ageout = ageout * HZ,
                 ale_timer = None, ale_hw = h\<rparr>)"

text \<open>The device state is what remains once the driver's structure is freed.\<close>

definition cpsw_ale_destroy :: "'h ale_dev \<Rightarrow> 'h cpsw_ale option \<Rightarrow> 'h result" where
  "cpsw_ale_destroy dev ale =
     (case ale of None \<Rightarrow> Inl EINVAL
      | Some ale \<Rightarrow>
          Inr (ale_hw (snd (cpsw_ale_control_set dev 0 0 0 (cpsw_ale_stop dev ale)))))"

end
