(* ===== verification/Ale_Table.thy ===== *)
theory Ale_Table
  imports Cpsw_Ale
begin

text \<open>
  The address lookup engine's driver against the device's contract.  The locale \<open>ale_device\<close>
  states what the manual of the switch says of the table registers; under it every table
  operation of \<open>Cpsw_Ale\<close> acts on the table as a function from indices to entries, and on the
  partial map from keys (address and VLAN, or VLAN) to entries that the table stands for.
\<close>

section \<open>The device\<close>

locale ale_device =
  fixes dev :: "'h ale_dev" and tbl :: "'h \<Rightarrow> nat \<Rightarrow> ale_entry" and slots :: nat
  assumes entry_words: "length (tbl h i) = 3"
    and load: "i < slots \<Longrightarrow> k < 3 \<Longrightarrow>
      raw_readl dev (ALE_TABLE + 4 * of_nat k) (raw_writel dev ALE_TABLE_CONTROL (of_nat i) h) =
      tbl h i ! k"
    and load_keeps: "i < slots \<Longrightarrow> tbl (raw_writel dev ALE_TABLE_CONTROL (of_nat i) h) = tbl h"
    and store: "i < slots \<Longrightarrow>
      tbl (raw_writel dev ALE_TABLE_CONTROL (of_nat i OR ALE_TABLE_WRITE)
             (raw_writel dev (ALE_TABLE + 8) w2 (raw_writel dev (ALE_TABLE + 4) w1
                (raw_writel dev ALE_TABLE w0 h)))) = (tbl h)(i := [w0, w1, w2])"
begin

lemma read_tbl:
  assumes "i < slots"
  shows "\<exists>h'. cpsw_ale_read dev i h = (tbl h i, h') \<and> tbl h' = tbl h"
proof -
  have "map (\<lambda>k. raw_readl dev (ALE_TABLE + 4 * of_nat k)
              (raw_writel dev ALE_TABLE_CONTROL (of_nat i) h)) [0..<3] = tbl h i"
    using entry_words [of h i] by (intro nth_equalityI) (simp_all add: load assms)
  then show ?thesis using load_keeps [OF assms] by (simp add: cpsw_ale_read_def Let_def)
qed

lemma write_tbl:
  assumes "i < slots" "length e = 3"
  shows "tbl (cpsw_ale_write dev i e h) = (tbl h)(i := e)"
proof -
  have u: "[0..<3] = [0, 1, 2 :: nat]" by (simp add: upt_rec)
  obtain w0 w1 w2 where e: "e = [w0, w1, w2]" using assms(2) by (auto simp: length_Suc_conv numeral_eq_Suc)
  have "cpsw_ale_write dev i e h =
    raw_writel dev ALE_TABLE_CONTROL (of_nat i OR ALE_TABLE_WRITE)
      (raw_writel dev (ALE_TABLE + 8) w2 (raw_writel dev (ALE_TABLE + 4) w1
        (raw_writel dev ALE_TABLE w0 h)))"
    by (simp add: cpsw_ale_write_def u e)
  then show ?thesis by (simp only: store [OF assms(1)] e)
qed

end

section \<open>The table as a function of the index\<close>

definition abs_find :: "(ale_entry \<Rightarrow> bool) \<Rightarrow> nat \<Rightarrow> (nat \<Rightarrow> ale_entry) \<Rightarrow> nat option" where
  "abs_find P n t = find (\<lambda>i. P (t i)) [0..<n]"

definition find_result :: "nat option \<Rightarrow> nat result" where
  "find_result r = (case r of None \<Rightarrow> Inl ENOENT | Some i \<Rightarrow> Inr i)"

definition abs_slot :: "nat option \<Rightarrow> nat \<Rightarrow> (nat \<Rightarrow> ale_entry) \<Rightarrow> nat option" where
  "abs_slot idx n t =
     (case idx of Some i \<Rightarrow> Some i
      | None \<Rightarrow> (case abs_find is_free_entry n t of Some i \<Rightarrow> Some i | None \<Rightarrow> abs_find is_ageable n t))"

definition abs_place ::
  "nat option \<Rightarrow> nat \<Rightarrow> (nat \<Rightarrow> ale_entry) \<Rightarrow> ale_entry \<Rightarrow> unit result \<times> (nat \<Rightarrow> ale_entry)" where
  "abs_place idx n t e =
     (case abs_slot idx n t of None \<Rightarrow> (Inl ENOMEM, t) | Some i \<Rightarrow> (Inr (), t(i := e)))"

lemma abs_find_Some:
  "abs_find P n t = Some i \<Longrightarrow> i < n \<and> P (t i) \<and> (\<forall>j < i. \<not> P (t j))"
  by (auto simp: abs_find_def find_Some_iff)

lemma abs_find_None: "abs_find P n t = None \<longleftrightarrow> (\<forall>i < n. \<not> P (t i))"
  by (auto simp: abs_find_def find_None_iff)

context ale_device
begin

lemma find_tbl:
  assumes "\<forall>i \<in> set is. i < slots"
  shows "\<exists>h'. ale_find dev P is h = (find_result (find (\<lambda>i. P (tbl h i)) is), h') \<and> tbl h' = tbl h"
  using assms
proof (induction "is" arbitrary: h)
  case (Cons i "is")
  obtain h1 where h1: "cpsw_ale_read dev i h = (tbl h i, h1)" "tbl h1 = tbl h"
    using read_tbl Cons.prems by (metis list.set_intros(1))
  show ?case using Cons.IH [of h1] Cons.prems h1 by (auto simp: find_result_def)
qed (simp add: find_result_def)

lemma find_entries:
  assumes "ale_entries ale \<le> slots"
  obtains h where "ale_find dev P [0..<ale_entries ale] (ale_hw ale) =
      (find_result (abs_find P (ale_entries ale) (tbl (ale_hw ale))), h)" "tbl h = tbl (ale_hw ale)"
  using find_tbl [of "[0..<ale_entries ale]" P "ale_hw ale"] assms
  by (auto simp: abs_find_def)

lemma walk_tbl:
  assumes "\<forall>i \<in> set is. i < slots" "distinct is" "\<And>e e'. length e = 3 \<Longrightarrow> f e = Some e' \<Longrightarrow> length e' = 3"
  shows "tbl (ale_walk dev f is h) =
    (\<lambda>i. if i \<in> set is then case f (tbl h i) of None \<Rightarrow> tbl h i | Some e \<Rightarrow> e else tbl h i)"
  using assms(1,2)
proof (induction "is" arbitrary: h)
  case (Cons i "is")
  obtain h1 where h1: "cpsw_ale_read dev i h = (tbl h i, h1)" "tbl h1 = tbl h"
    using read_tbl Cons.prems by (metis list.set_intros(1))
  define h2 where "h2 = (case f (tbl h i) of None \<Rightarrow> h1 | Some e' \<Rightarrow> cpsw_ale_write dev i e' h1)"
  have "tbl h2 = (tbl h)(i := case f (tbl h i) of None \<Rightarrow> tbl h i | Some e \<Rightarrow> e)"
  proof (cases "f (tbl h i)")
    case (Some e)
    then have "length e = 3" using assms(3) entry_words by blast
    then show ?thesis using Some Cons.prems h1(2) by (simp add: h2_def write_tbl)
  qed (simp add: h2_def h1(2))
  moreover have "ale_walk dev f (i # is) h = ale_walk dev f is h2" by (simp add: h1 h2_def)
  ultimately show ?case using Cons.IH [of h2] Cons.prems by (auto simp: fun_eq_iff split: option.split)
qed simp

lemma place_tbl:
  assumes "ale_entries ale \<le> slots" "length e = 3" "\<forall>i. idx = Some i \<longrightarrow> i < slots"
  shows "\<exists>h. ale_place dev (find_result idx) e ale =
      (fst (abs_place idx (ale_entries ale) (tbl (ale_hw ale)) e), ale\<lparr>ale_hw := h\<rparr>) \<and>
      tbl h = snd (abs_place idx (ale_entries ale) (tbl (ale_hw ale)) e)"
proof -
  have w: "i < slots \<Longrightarrow> tbl (cpsw_ale_write dev i e h) = (tbl h)(i := e)" for i h
    using write_tbl assms(2) by blast
  obtain h1 where h1: "ale_find dev is_free_entry [0..<ale_entries ale] (ale_hw ale) =
      (find_result (abs_find is_free_entry (ale_entries ale) (tbl (ale_hw ale))), h1)"
      "tbl h1 = tbl (ale_hw ale)" by (rule find_entries [OF assms(1)])
  obtain h2 where h2: "ale_find dev is_ageable [0..<ale_entries ale] h1 =
      (find_result (abs_find is_ageable (ale_entries ale) (tbl (ale_hw ale))), h2)"
      "tbl h2 = tbl (ale_hw ale)"
    using find_entries [of "ale\<lparr>ale_hw := h1\<rparr>" is_ageable] assms(1) h1(2) by auto
  have b: "\<forall>i. abs_find P (ale_entries ale) t = Some i \<longrightarrow> i < slots" for P t
    using abs_find_Some assms(1) by fastforce
  have ex: "tbl h' = t \<Longrightarrow> \<exists>h. ale\<lparr>ale_hw := h'\<rparr> = ale\<lparr>ale_hw := h\<rparr> \<and> tbl h = t" for h' t
    by blast
  show ?thesis
    using assms(3) h1 h2 b [of is_free_entry "tbl (ale_hw ale)"] b [of is_ageable "tbl (ale_hw ale)"]
    by (cases idx) (auto simp: ale_place_def abs_place_def abs_slot_def find_result_def
        cpsw_ale_match_free_def cpsw_ale_find_ageable_def ale_write_idx_def w intro!: ex
        split: option.splits)
qed

end

section \<open>The table operations as one step function\<close>

datatype (plugins only: code size) ale_op =
    Add_ucast "byte list" u32 u32
  | Add_oui "byte list"
  | Del_ucast "byte list" u32
  | Add_mcast "byte list" u32 u32 u32
  | Del_mcast "byte list" u32
  | Add_vlan u16 u32 u32 u32 u32
  | Del_vlan u16 u32
  | Vlan_add_ucast "byte list" u32 u32 u16
  | Vlan_del_ucast "byte list" u32 u16
  | Vlan_add_mcast "byte list" u32 u16 u32 u32
  | Vlan_del_mcast "byte list" u32 u16
  | Flush u32
  | Flush_multicast u32
  | Flush_vlan_multicast u16 u32

fun run_op :: "'h ale_dev \<Rightarrow> ale_op \<Rightarrow> 'h cpsw_ale \<Rightarrow> unit result \<times> 'h cpsw_ale" where
  "run_op dev (Add_ucast addr port flags) ale = cpsw_ale_add_ucast dev addr port flags ale"
| "run_op dev (Add_oui addr) ale = cpsw_ale_add_oui dev addr ale"
| "run_op dev (Del_ucast addr port) ale = cpsw_ale_del_ucast dev addr port ale"
| "run_op dev (Add_mcast addr pm super st) ale = cpsw_ale_add_mcast dev addr pm super st ale"
| "run_op dev (Del_mcast addr pm) ale = cpsw_ale_del_mcast dev addr pm ale"
| "run_op dev (Add_vlan vid port untag reg unreg) ale =
     cpsw_ale_add_vlan dev vid port untag reg unreg ale"
| "run_op dev (Del_vlan vid port) ale = cpsw_ale_del_vlan dev vid port ale"
| "run_op dev (Vlan_add_ucast addr port flags vid) ale =
     cpsw_ale_vlan_add_ucast dev addr port flags vid ale"
| "run_op dev (Vlan_del_ucast addr port vid) ale = cpsw_ale_vlan_del_ucast dev addr port vid ale"
| "run_op dev (Vlan_add_mcast addr pm vid super st) ale =
     cpsw_ale_vlan_add_mcast dev addr pm vid super st ale"
| "run_op dev (Vlan_del_mcast addr pm vid) ale = cpsw_ale_vlan_del_mcast dev addr pm vid ale"
| "run_op dev (Flush pm) ale = (Inr (), cpsw_ale_flush dev pm ale)"
| "run_op dev (Flush_multicast pm) ale = (Inr (), cpsw_ale_flush_multicast dev pm ale)"
| "run_op dev (Flush_vlan_multicast vid pm) ale = (Inr (), cpsw_ale_flush_vlan_multicast dev vid pm ale)"

text \<open>What an operation is: it looks for a key and adds an entry made from the one found, or
  changes the one found (the error is returned where none is), or rewrites every entry.\<close>

type_synonym ale_key = "(u32 \<times> byte list) + u32"

datatype (plugins only: code size) ale_shape =
    Shape_add ale_key "ale_entry \<Rightarrow> ale_entry"
  | Shape_del ale_key errno "ale_entry \<Rightarrow> ale_entry"
  | Shape_walk "ale_entry \<Rightarrow> ale_entry option"

definition addr_key :: "byte list \<Rightarrow> u16 \<Rightarrow> ale_key" where
  "addr_key addr vid = Inl (ucast vid, take 6 addr)"

definition vlan_key :: "u16 \<Rightarrow> ale_key" where
  "vlan_key vid = Inr (ucast vid)"

definition cleared_entry :: "ale_entry \<Rightarrow> ale_entry" where
  "cleared_entry e = ale_set Entry_type ALE_TYPE_FREE ale_free_entry"

fun op_shape :: "ale_op \<Rightarrow> ale_shape" where
  "op_shape (Add_ucast addr port flags) =
     Shape_add (addr_key addr 0) (\<lambda>_. ucast_entry ALE_TYPE_ADDR addr port flags)"
| "op_shape (Add_oui addr) = Shape_add (addr_key addr 0) (\<lambda>_. oui_entry addr)"
| "op_shape (Del_ucast addr port) = Shape_del (addr_key addr 0) ENOENT cleared_entry"
| "op_shape (Add_mcast addr pm super st) =
     Shape_add (addr_key addr 0) (mcast_entry addr pm super st)"
| "op_shape (Del_mcast addr pm) = Shape_del (addr_key addr 0) EINVAL (ale_del_mcast_entry pm)"
| "op_shape (Add_vlan vid port untag reg unreg) =
     Shape_add (vlan_key vid) (vlan_entry vid port untag reg unreg)"
| "op_shape (Del_vlan vid port) = Shape_del (vlan_key vid) ENOENT (ale_del_vlan_entry port)"
| "op_shape (Vlan_add_ucast addr port flags vid) =
     Shape_add (addr_key addr vid)
       (\<lambda>_. ale_set Vlan_id (ucast vid) (ucast_entry ALE_TYPE_VLAN_ADDR addr port flags))"
| "op_shape (Vlan_del_ucast addr port vid) = Shape_del (addr_key addr vid) ENOENT cleared_entry"
| "op_shape (Vlan_add_mcast addr pm vid super st) =
     Shape_add (addr_key addr vid) (vlan_mcast_entry addr pm vid super st)"
| "op_shape (Vlan_del_mcast addr pm vid) =
     Shape_del (addr_key addr vid) EINVAL (ale_del_mcast_entry pm)"
| "op_shape (Flush pm) = Shape_walk (flush_entry pm)"
| "op_shape (Flush_multicast pm) = Shape_walk (flush_multicast_entry pm)"
| "op_shape (Flush_vlan_multicast vid pm) = Shape_walk (flush_vlan_multicast_entry vid pm)"

text \<open>The key of an entry; a free entry has none.\<close>

definition entry_key :: "ale_entry \<Rightarrow> ale_key option" where
  "entry_key e =
     (if is_addr_entry e then Some (Inl (ale_get Vlan_id e, cpsw_ale_get_addr e))
      else if ale_get Entry_type e = ALE_TYPE_VLAN then Some (Inr (ale_get Vlan_id e)) else None)"

definition has_key :: "ale_key \<Rightarrow> ale_entry \<Rightarrow> bool" where
  "has_key k e \<longleftrightarrow> entry_key e = Some k"

lemma matches_addr_key: "matches_addr addr vid = has_key (addr_key addr vid)"
  by (auto simp: fun_eq_iff matches_addr_def has_key_def entry_key_def addr_key_def)

lemma matches_vlan_key: "matches_vlan vid = has_key (vlan_key vid)"
  by (auto simp: fun_eq_iff matches_vlan_def has_key_def entry_key_def vlan_key_def is_addr_entry_def
      ale_consts)

definition found_entry :: "nat option \<Rightarrow> (nat \<Rightarrow> ale_entry) \<Rightarrow> ale_entry" where
  "found_entry idx t = (case idx of None \<Rightarrow> ale_free_entry | Some i \<Rightarrow> t i)"

fun abs_step :: "ale_shape \<Rightarrow> nat \<Rightarrow> (nat \<Rightarrow> ale_entry) \<Rightarrow> unit result \<times> (nat \<Rightarrow> ale_entry)" where
  "abs_step (Shape_add k f) n t =
     (let idx = abs_find (has_key k) n t in abs_place idx n t (f (found_entry idx t)))"
| "abs_step (Shape_del k err f) n t =
     (case abs_find (has_key k) n t of None \<Rightarrow> (Inl err, t) | Some i \<Rightarrow> (Inr (), t(i := f (t i))))"
| "abs_step (Shape_walk f) n t =
     (Inr (), \<lambda>i. if i < n then case f (t i) of None \<Rightarrow> t i | Some e \<Rightarrow> e else t i)"

fun shape_words :: "ale_shape \<Rightarrow> bool" where
  "shape_words (Shape_add k f) \<longleftrightarrow> (\<forall>e. length e = 3 \<longrightarrow> length (f e) = 3)"
| "shape_words (Shape_del k err f) \<longleftrightarrow> (\<forall>e. length e = 3 \<longrightarrow> length (f e) = 3)"
| "shape_words (Shape_walk f) \<longleftrightarrow> (\<forall>e e'. length e = 3 \<longrightarrow> f e = Some e' \<longrightarrow> length e' = 3)"

lemma length_free_entry [simp]: "length ale_free_entry = 3"
  by (simp add: ale_free_entry_def)

lemma length_flush_mcast [simp]: "length (cpsw_ale_flush_mcast pm e) = length e"
  by (simp add: cpsw_ale_flush_mcast_def Let_def)

lemma length_flush_ucast [simp]: "length (cpsw_ale_flush_ucast pm e) = length e"
  by (simp add: cpsw_ale_flush_ucast_def Let_def)

lemma length_ucast_entry [simp]: "length (ucast_entry type addr port flags) = 3"
  by (simp add: ucast_entry_def Let_def)

lemma length_oui_entry [simp]: "length (oui_entry addr) = 3"
  by (simp add: oui_entry_def Let_def)

lemma op_shape_words: "shape_words (op_shape p)"
  by (cases p)
     (simp_all add: ucast_entry_def oui_entry_def cleared_entry_def mcast_entry_def Let_def
      ale_del_mcast_entry_def vlan_entry_def ale_del_vlan_entry_def vlan_mcast_entry_def
      flush_entry_def flush_multicast_entry_def flush_vlan_multicast_entry_def)

definition step_ok :: "('h \<Rightarrow> nat \<Rightarrow> ale_entry) \<Rightarrow> ale_shape \<Rightarrow> 'h cpsw_ale \<Rightarrow> unit result \<times> 'h cpsw_ale \<Rightarrow> bool"
  where "step_ok tbl sh ale res \<longleftrightarrow>
    (\<exists>h. res = (fst (abs_step sh (ale_entries ale) (tbl (ale_hw ale))), ale\<lparr>ale_hw := h\<rparr>) \<and>
         tbl h = snd (abs_step sh (ale_entries ale) (tbl (ale_hw ale))))"

context ale_device
begin

lemma match_key:
  assumes "ale_entries ale \<le> slots"
  obtains h where
    "(case ale_find dev (has_key k) [0..<ale_entries ale] (ale_hw ale) of (r, h) \<Rightarrow> (r, ale\<lparr>ale_hw := h\<rparr>)) =
       (find_result (abs_find (has_key k) (ale_entries ale) (tbl (ale_hw ale))), ale\<lparr>ale_hw := h\<rparr>)"
    "tbl h = tbl (ale_hw ale)"
proof -
  obtain h where "ale_find dev (has_key k) [0..<ale_entries ale] (ale_hw ale) =
      (find_result (abs_find (has_key k) (ale_entries ale) (tbl (ale_hw ale))), h)"
      "tbl h = tbl (ale_hw ale)" by (rule find_entries [OF assms])
  then show thesis by (intro that [of h]) simp_all
qed

lemma place_step:
  assumes n: "ale_entries ale \<le> slots" and len: "length e = 3" and h: "tbl h = tbl (ale_hw ale)"
    and i: "i = abs_find (has_key k) (ale_entries ale) (tbl (ale_hw ale))"
    and f: "e = f (found_entry i (tbl (ale_hw ale)))"
  shows "step_ok tbl (Shape_add k f) ale (ale_place dev (find_result i) e (ale\<lparr>ale_hw := h\<rparr>))"
proof -
  have "\<forall>j. i = Some j \<longrightarrow> j < slots"
    using abs_find_Some [of "has_key k" "ale_entries ale" "tbl (ale_hw ale)"] n i by fastforce
  then obtain g where g: "ale_place dev (find_result i) e (ale\<lparr>ale_hw := h\<rparr>) =
      (fst (abs_place i (ale_entries ale) (tbl (ale_hw ale)) e), ale\<lparr>ale_hw := g\<rparr>)"
      "tbl g = snd (abs_place i (ale_entries ale) (tbl (ale_hw ale)) e)"
    using place_tbl [of "ale\<lparr>ale_hw := h\<rparr>" e i] n len h by auto
  have "abs_step (Shape_add k f) (ale_entries ale) (tbl (ale_hw ale)) =
        abs_place i (ale_entries ale) (tbl (ale_hw ale)) e"
    by (simp add: f Let_def flip: i)
  then show ?thesis using g by (auto simp: step_ok_def)
qed

lemma find_bound: "ale_entries ale \<le> slots \<Longrightarrow> abs_find P (ale_entries ale) t = Some i \<Longrightarrow> i < slots"
  using abs_find_Some by fastforce

lemma read_match_tbl:
  assumes "\<forall>i. idx = Some i \<longrightarrow> i < slots"
  obtains h where "ale_read_match dev (find_result idx) ale =
      (found_entry idx (tbl (ale_hw ale)), ale\<lparr>ale_hw := h\<rparr>)" "tbl h = tbl (ale_hw ale)"
proof (cases idx)
  case None
  then show ?thesis using that [of "ale_hw ale"]
    by (simp add: ale_read_match_def find_result_def found_entry_def)
next
  case (Some i)
  then obtain h where "cpsw_ale_read dev i (ale_hw ale) = (tbl (ale_hw ale) i, h)" "tbl h = tbl (ale_hw ale)"
    using read_tbl assms by blast
  then show ?thesis using that [of h] Some
    by (simp add: ale_read_match_def find_result_def found_entry_def ale_read_idx_def)
qed

text \<open>The four bodies the operations have.\<close>

lemma add_const_step:
  assumes n: "ale_entries ale \<le> slots" and len: "length e = 3"
  shows "step_ok tbl (Shape_add k (\<lambda>_. e)) ale
    (case (case ale_find dev (has_key k) [0..<ale_entries ale] (ale_hw ale) of (r, h) \<Rightarrow> (r, ale\<lparr>ale_hw := h\<rparr>))
     of (idx, ale) \<Rightarrow> ale_place dev idx e ale)"
  by (rule match_key [OF n, of k]) (simp add: place_step n len)

lemma add_step:
  assumes n: "ale_entries ale \<le> slots" and len: "\<forall>e. length e = 3 \<longrightarrow> length (f e) = 3"
  shows "step_ok tbl (Shape_add k f) ale
    (case (case ale_find dev (has_key k) [0..<ale_entries ale] (ale_hw ale) of (r, h) \<Rightarrow> (r, ale\<lparr>ale_hw := h\<rparr>))
     of (idx, ale) \<Rightarrow> case ale_read_match dev idx ale of (e, ale) \<Rightarrow> ale_place dev idx (f e) ale)"
proof (rule match_key [OF n, of k])
  fix h
  define i where "i = abs_find (has_key k) (ale_entries ale) (tbl (ale_hw ale))"
  assume h: "(case ale_find dev (has_key k) [0..<ale_entries ale] (ale_hw ale) of (r, h) \<Rightarrow> (r, ale\<lparr>ale_hw := h\<rparr>)) =
       (find_result (abs_find (has_key k) (ale_entries ale) (tbl (ale_hw ale))), ale\<lparr>ale_hw := h\<rparr>)"
    "tbl h = tbl (ale_hw ale)"
  have b: "\<forall>j. i = Some j \<longrightarrow> j < slots"
    using abs_find_Some [of "has_key k" "ale_entries ale" "tbl (ale_hw ale)"] n i_def by fastforce
  obtain h' where h': "ale_read_match dev (find_result i) (ale\<lparr>ale_hw := h\<rparr>) =
      (found_entry i (tbl (ale_hw ale)), ale\<lparr>ale_hw := h'\<rparr>)" "tbl h' = tbl (ale_hw ale)"
    using read_match_tbl [OF b, of "ale\<lparr>ale_hw := h\<rparr>"] h(2) by auto
  have "length (found_entry i (tbl (ale_hw ale))) = 3"
    using entry_words by (simp add: found_entry_def split: option.splits)
  then show ?thesis unfolding h(1) using len n h' by (simp add: place_step i_def)
qed

lemma del_step:
  assumes n: "ale_entries ale \<le> slots" and len: "\<forall>e. length e = 3 \<longrightarrow> length (f e) = 3"
  shows "step_ok tbl (Shape_del k err f) ale
    (case (case ale_find dev (has_key k) [0..<ale_entries ale] (ale_hw ale) of (r, h) \<Rightarrow> (r, ale\<lparr>ale_hw := h\<rparr>))
     of (Inl _, ale) \<Rightarrow> (Inl err, ale)
      | (Inr idx, ale) \<Rightarrow> (case ale_read_idx dev idx ale of (e, ale) \<Rightarrow> (Inr (), ale_write_idx dev idx (f e) ale)))"
proof (rule match_key [OF n, of k])
  fix h
  assume h: "(case ale_find dev (has_key k) [0..<ale_entries ale] (ale_hw ale) of (r, h) \<Rightarrow> (r, ale\<lparr>ale_hw := h\<rparr>)) =
       (find_result (abs_find (has_key k) (ale_entries ale) (tbl (ale_hw ale))), ale\<lparr>ale_hw := h\<rparr>)"
    "tbl h = tbl (ale_hw ale)"
  show ?thesis
  proof (cases "abs_find (has_key k) (ale_entries ale) (tbl (ale_hw ale))")
    case None
    then show ?thesis using h by (auto simp: step_ok_def find_result_def)
  next
    case (Some i)
    then have i: "i < slots" using abs_find_Some n by fastforce
    then obtain h' where h': "cpsw_ale_read dev i h = (tbl h i, h')" "tbl h' = tbl h"
      using read_tbl by blast
    have "length (f (tbl h i)) = 3" using len entry_words by blast
    then show ?thesis using Some h h' write_tbl [OF i]
      by (auto simp: step_ok_def find_result_def ale_read_idx_def ale_write_idx_def)
  qed
qed

lemma del_const_step:
  assumes n: "ale_entries ale \<le> slots" and len: "length e = 3"
  shows "step_ok tbl (Shape_del k err (\<lambda>_. e)) ale
    (case (case ale_find dev (has_key k) [0..<ale_entries ale] (ale_hw ale) of (r, h) \<Rightarrow> (r, ale\<lparr>ale_hw := h\<rparr>))
     of (Inl _, ale) \<Rightarrow> (Inl err, ale) | (Inr idx, ale) \<Rightarrow> (Inr (), ale_write_idx dev idx e ale))"
proof (rule match_key [OF n, of k])
  fix h
  assume h: "(case ale_find dev (has_key k) [0..<ale_entries ale] (ale_hw ale) of (r, h) \<Rightarrow> (r, ale\<lparr>ale_hw := h\<rparr>)) =
       (find_result (abs_find (has_key k) (ale_entries ale) (tbl (ale_hw ale))), ale\<lparr>ale_hw := h\<rparr>)"
    "tbl h = tbl (ale_hw ale)"
  have "i < slots" if "abs_find (has_key k) (ale_entries ale) (tbl (ale_hw ale)) = Some i" for i
    using abs_find_Some [OF that] n by simp
  then show ?thesis using h len
    by (cases "abs_find (has_key k) (ale_entries ale) (tbl (ale_hw ale))")
       (auto simp: step_ok_def find_result_def ale_write_idx_def write_tbl)
qed

lemma walk_step:
  assumes n: "ale_entries ale \<le> slots" and len: "shape_words (Shape_walk f)"
  shows "step_ok tbl (Shape_walk f) ale
    (Inr (), ale\<lparr>ale_hw := ale_walk dev f [0..<ale_entries ale] (ale_hw ale)\<rparr>)"
  using walk_tbl [of "[0..<ale_entries ale]" f "ale_hw ale"] n len
  by (auto simp: step_ok_def)

lemma run_op_step:
  assumes "ale_entries ale \<le> slots"
  shows "step_ok tbl (op_shape p) ale (run_op dev p ale)"
proof (cases p)
  case (Add_ucast addr port flags)
  then show ?thesis
    using add_const_step [OF assms]
    by (simp add: cpsw_ale_add_ucast_def cpsw_ale_match_addr_def matches_addr_key Let_def)
next
  case (Add_oui addr)
  then show ?thesis
    using add_const_step [OF assms]
    by (simp add: cpsw_ale_add_oui_def cpsw_ale_match_addr_def matches_addr_key Let_def)
next
  case (Vlan_add_ucast addr port flags vid)
  then show ?thesis
    using add_const_step [OF assms]
    by (simp add: cpsw_ale_vlan_add_ucast_def cpsw_ale_match_addr_def matches_addr_key Let_def)
next
  case (Add_mcast addr pm super st)
  then show ?thesis
    using op_shape_words [of p] add_step [OF assms]
    by (simp add: cpsw_ale_add_mcast_def cpsw_ale_match_addr_def matches_addr_key Let_def)
next
  case (Vlan_add_mcast addr pm vid super st)
  then show ?thesis
    using op_shape_words [of p] add_step [OF assms]
    by (simp add: cpsw_ale_vlan_add_mcast_def cpsw_ale_match_addr_def matches_addr_key Let_def)
next
  case (Add_vlan vid port untag reg unreg)
  then show ?thesis
    using op_shape_words [of p] add_step [OF assms]
    by (simp add: cpsw_ale_add_vlan_def cpsw_ale_match_vlan_def matches_vlan_key Let_def)
next
  case (Del_ucast addr port)
  then show ?thesis using del_const_step [OF assms]
    by (simp add: cpsw_ale_del_ucast_def cpsw_ale_match_addr_def matches_addr_key
        cleared_entry_def [abs_def])
next
  case (Vlan_del_ucast addr port vid)
  then show ?thesis using del_const_step [OF assms]
    by (simp add: cpsw_ale_vlan_del_ucast_def cpsw_ale_match_addr_def matches_addr_key
        cleared_entry_def [abs_def])
next
  case (Del_mcast addr pm)
  then show ?thesis using op_shape_words [of p] del_step [OF assms]
    by (simp add: cpsw_ale_del_mcast_def cpsw_ale_match_addr_def matches_addr_key)
next
  case (Vlan_del_mcast addr pm vid)
  then show ?thesis using op_shape_words [of p] del_step [OF assms]
    by (simp add: cpsw_ale_vlan_del_mcast_def cpsw_ale_match_addr_def matches_addr_key)
next
  case (Del_vlan vid port)
  then show ?thesis using op_shape_words [of p] del_step [OF assms]
    by (simp add: cpsw_ale_del_vlan_def cpsw_ale_match_vlan_def matches_vlan_key)
next
  case (Flush pm)
  then show ?thesis using op_shape_words [of p] walk_step [OF assms, of "flush_entry pm"]
    by (simp add: cpsw_ale_flush_def)
next
  case (Flush_multicast pm)
  then show ?thesis using op_shape_words [of p] walk_step [OF assms, of "flush_multicast_entry pm"]
    by (simp add: cpsw_ale_flush_multicast_def)
next
  case (Flush_vlan_multicast vid pm)
  then show ?thesis
    using op_shape_words [of p] walk_step [OF assms, of "flush_vlan_multicast_entry vid pm"]
    by (simp add: cpsw_ale_flush_vlan_multicast_def)
qed

end

end
