(* ===== verification/Ale_Map.thy ===== *)
theory Ale_Map
  imports Ale_Table
begin

text \<open>
  The table of the address lookup engine as a partial map from keys to entries, and what the
  driver's operations do to that map: adding binds the key (an entry that may age out can lose
  its slot, no other), deleting unbinds or narrows it, flushing rewrites the entries.
\<close>

section \<open>Tables without duplicate keys\<close>

definition uniq_keys :: "nat \<Rightarrow> (nat \<Rightarrow> ale_entry) \<Rightarrow> bool" where
  "uniq_keys n t \<longleftrightarrow>
     (\<forall>i < n. \<forall>j < n. entry_key (t i) \<noteq> None \<longrightarrow> entry_key (t i) = entry_key (t j) \<longrightarrow> i = j)"

definition ale_map :: "nat \<Rightarrow> (nat \<Rightarrow> ale_entry) \<Rightarrow> ale_key \<rightharpoonup> ale_entry" where
  "ale_map n t k = map_option t (abs_find (has_key k) n t)"

lemma ale_map_None: "ale_map n t k = None \<longleftrightarrow> (\<forall>i < n. entry_key (t i) \<noteq> Some k)"
  by (simp add: ale_map_def abs_find_None has_key_def)

lemma ale_map_Some:
  assumes "uniq_keys n t"
  shows "ale_map n t k = Some e \<longleftrightarrow> (\<exists>i < n. t i = e \<and> entry_key e = Some k)"
proof
  assume "ale_map n t k = Some e"
  then show "\<exists>i < n. t i = e \<and> entry_key e = Some k"
    by (auto simp: ale_map_def has_key_def dest!: abs_find_Some)
next
  assume "\<exists>i < n. t i = e \<and> entry_key e = Some k"
  then obtain i where i: "i < n" "t i = e" "entry_key (t i) = Some k" by blast
  then obtain j where j: "abs_find (has_key k) n t = Some j"
    using abs_find_None [of "has_key k" n t] by (auto simp: has_key_def)
  with i abs_find_Some [OF j] assms have "i = j" by (auto simp: uniq_keys_def has_key_def)
  with i j show "ale_map n t k = Some e" by (simp add: ale_map_def)
qed

lemma uniq_update:
  assumes "uniq_keys n t" "\<forall>j < n. j \<noteq> i \<longrightarrow> entry_key e \<noteq> None \<longrightarrow> entry_key (t j) \<noteq> entry_key e"
  shows "uniq_keys n (t(i := e))"
  using assms by (auto simp: uniq_keys_def)

definition unbind :: "ale_key option \<Rightarrow> (ale_key \<rightharpoonup> ale_entry) \<Rightarrow> ale_key \<rightharpoonup> ale_entry" where
  "unbind ko m = (case ko of None \<Rightarrow> m | Some k \<Rightarrow> m(k := None))"

definition rebind :: "ale_entry \<Rightarrow> (ale_key \<rightharpoonup> ale_entry) \<Rightarrow> ale_key \<rightharpoonup> ale_entry" where
  "rebind e m = (case entry_key e of None \<Rightarrow> m | Some k \<Rightarrow> m(k \<mapsto> e))"

lemma option_eqI: "(\<And>e. a = Some e \<longleftrightarrow> b = Some e) \<Longrightarrow> a = b"
  by (cases a; cases b) auto

lemma ale_map_update:
  assumes u: "uniq_keys n t" and i: "i < n"
    and new: "\<forall>j < n. j \<noteq> i \<longrightarrow> entry_key e \<noteq> None \<longrightarrow> entry_key (t j) \<noteq> entry_key e"
  shows "ale_map n (t(i := e)) = rebind e (unbind (entry_key (t i)) (ale_map n t))"
proof (rule ext, rule option_eqI)
  fix k e'
  have u': "uniq_keys n (t(i := e))" using u new by (rule uniq_update)
  have old: "j = i" if "j < n" "entry_key (t j) = Some k" "entry_key (t i) = Some k" for j
    using u i that by (auto simp: uniq_keys_def)
  show "ale_map n (t(i := e)) k = Some e' \<longleftrightarrow>
        rebind e (unbind (entry_key (t i)) (ale_map n t)) k = Some e'"
  proof (cases "entry_key e = Some k")
    case True
    then show ?thesis using i new by (auto simp: ale_map_Some [OF u'] rebind_def)
  next
    case False
    then have r: "rebind e m k = m k" for m by (auto simp: rebind_def split: option.splits)
    have l: "ale_map n (t(i := e)) k = Some e' \<longleftrightarrow>
             (\<exists>j < n. j \<noteq> i \<and> t j = e' \<and> entry_key e' = Some k)"
      unfolding ale_map_Some [OF u'] using False by (metis fun_upd_apply)
    show ?thesis
    proof (cases "entry_key (t i) = Some k")
      case True
      then show ?thesis using old unfolding l r by (auto simp: unbind_def)
    next
      case False
      then have "unbind (entry_key (t i)) m k = m k" for m
        by (auto simp: unbind_def split: option.splits)
      then show ?thesis unfolding l r using False by (metis ale_map_Some [OF u])
    qed
  qed
qed

section \<open>Keys of the entries the operations write\<close>

lemma type_cases:
  "ale_get Entry_type e = 0 \<or> ale_get Entry_type e = 1 \<or> ale_get Entry_type e = 2 \<or>
   ale_get Entry_type e = 3"
proof -
  have "unat (ale_get Entry_type e) = unat (ale_get Entry_type e) mod 2 ^ 2"
    using ale_get_mask [of Entry_type e] by (metis ale_field_pos.simps(1) field_bits_def snd_conv unat_and_mask)
  then have "unat (ale_get Entry_type e) < 4" by (metis mod_less_divisor num.distinct(1) power2_eq_square
      numeral_times_numeral semiring_norm(11,12,13) zero_less_numeral)
  then consider "unat (ale_get Entry_type e) = 0" | "unat (ale_get Entry_type e) = 1"
    | "unat (ale_get Entry_type e) = 2" | "unat (ale_get Entry_type e) = 3" by linarith
  then show ?thesis by cases (auto simp: word_unat_eq_iff)
qed

lemma free_no_key: "is_free_entry e \<longleftrightarrow> entry_key e = None"
  using type_cases [of e]
  by (auto simp: is_free_entry_def entry_key_def is_addr_entry_def ale_consts)

lemma vid_mask: "vid < 4096 \<Longrightarrow> (ucast (vid :: u16) :: u32) AND mask 12 = ucast vid"
proof -
  assume "vid < 4096"
  then have "unat vid < 4096" by (simp add: word_less_nat_alt)
  then have "unat (ucast vid :: u32) < 4096" by (simp add: unsigned_ucast_eq take_bit_eq_mod)
  then show ?thesis by (simp add: word_unat_eq_iff unat_and_mask)
qed

fun shape_keys :: "ale_shape \<Rightarrow> bool" where
  "shape_keys (Shape_add k f) \<longleftrightarrow>
     (\<forall>e. length e = 3 \<longrightarrow> e = ale_free_entry \<or> entry_key e = Some k \<longrightarrow> entry_key (f e) = Some k)"
| "shape_keys (Shape_del k err f) \<longleftrightarrow>
     (\<forall>e. length e = 3 \<longrightarrow> entry_key e = Some k \<longrightarrow> entry_key (f e) = None \<or> entry_key (f e) = Some k)"
| "shape_keys (Shape_walk f) \<longleftrightarrow>
     (\<forall>e e'. length e = 3 \<longrightarrow> f e = Some e' \<longrightarrow> entry_key e' = None \<or> entry_key e' = entry_key e)"

fun op_args_ok :: "ale_op \<Rightarrow> bool" where
  "op_args_ok (Add_ucast addr port flags) \<longleftrightarrow> length addr = 6"
| "op_args_ok (Add_oui addr) \<longleftrightarrow> length addr = 6"
| "op_args_ok (Del_ucast addr port) \<longleftrightarrow> length addr = 6"
| "op_args_ok (Add_mcast addr pm super st) \<longleftrightarrow> length addr = 6"
| "op_args_ok (Del_mcast addr pm) \<longleftrightarrow> length addr = 6"
| "op_args_ok (Add_vlan vid port untag reg unreg) \<longleftrightarrow> vid < 4096"
| "op_args_ok (Del_vlan vid port) \<longleftrightarrow> vid < 4096"
| "op_args_ok (Vlan_add_ucast addr port flags vid) \<longleftrightarrow> length addr = 6 \<and> vid < 4096"
| "op_args_ok (Vlan_del_ucast addr port vid) \<longleftrightarrow> length addr = 6 \<and> vid < 4096"
| "op_args_ok (Vlan_add_mcast addr pm vid super st) \<longleftrightarrow> length addr = 6 \<and> vid < 4096"
| "op_args_ok (Vlan_del_mcast addr pm vid) \<longleftrightarrow> length addr = 6 \<and> vid < 4096"
| "op_args_ok (Flush pm) \<longleftrightarrow> True"
| "op_args_ok (Flush_multicast pm) \<longleftrightarrow> True"
| "op_args_ok (Flush_vlan_multicast vid pm) \<longleftrightarrow> True"

text \<open>What the setters do to the fields the key is made of.\<close>

lemmas field_pos_simps = field_disjoint_def field_first_def field_bits_def

lemma type_after_set [simp]:
  "length e = 3 \<Longrightarrow> ale_get Entry_type (ale_set Entry_type v e) = v AND 3"
  by (simp add: ale_get_set field_bits_def mask_eq_exp_minus_1)

lemma field_other [simp]:
  "length e = 3 \<Longrightarrow> f \<noteq> Entry_type \<Longrightarrow> ale_get Entry_type (ale_set f v e) = ale_get Entry_type e"
  "length e = 3 \<Longrightarrow> f \<noteq> Vlan_id \<Longrightarrow> ale_get Vlan_id (ale_set f v e) = ale_get Vlan_id e"
  by (cases f; simp add: ale_get_set_other field_pos_simps)+

lemma addr_other [simp]:
  "length e = 3 \<Longrightarrow> f \<notin> {Vlan_untag_force, Vlan_reg_mcast, Vlan_unreg_mcast, Vlan_member_list, Mcast} \<Longrightarrow>
     cpsw_ale_get_addr (ale_set f v e) = cpsw_ale_get_addr e"
  by (cases f; simp add: get_addr_ale_set field_pos_simps)

lemma vid_after_set [simp]:
  "length e = 3 \<Longrightarrow> vid < 4096 \<Longrightarrow> ale_get Vlan_id (ale_set Vlan_id (ucast (vid :: u16)) e) = ucast vid"
  by (simp add: ale_get_set field_bits_def vid_mask)

lemma fields_set_addr [simp]:
  "length e = 3 \<Longrightarrow> ale_get Entry_type (cpsw_ale_set_addr addr e) = ale_get Entry_type e"
  "length e = 3 \<Longrightarrow> ale_get Vlan_id (cpsw_ale_set_addr addr e) = ale_get Vlan_id e"
  by (simp_all add: ale_get_set_addr field_first_def)

lemma fields_free [simp]: "ale_get Vlan_id ale_free_entry = 0" "ale_get Entry_type ale_free_entry = 0"
  by (simp_all add: ale_get_def cpsw_ale_get_field_def ale_free_entry_def Let_def)

lemma key_free [simp]: "length e = 3 \<Longrightarrow> entry_key (ale_set Entry_type ALE_TYPE_FREE e) = None"
  by (simp add: entry_key_def is_addr_entry_def ale_consts)

lemma key_keep:
  assumes "length e = 3"
  shows "entry_key (ale_set Port_mask v e) = entry_key e"
    and "entry_key e = Some (vlan_key vid) \<Longrightarrow>
         entry_key (ale_set Vlan_member_list v e) = Some (vlan_key vid)"
  using assms by (auto simp: entry_key_def is_addr_entry_def vlan_key_def split: if_splits)

lemma key_add_addr:
  assumes "length addr = 6"
  shows "entry_key (ucast_entry ALE_TYPE_ADDR addr port flags) = Some (addr_key addr 0)"
    and "entry_key (oui_entry addr) = Some (addr_key addr 0)"
    and "vid < 4096 \<Longrightarrow>
      entry_key (ale_set Vlan_id (ucast vid) (ucast_entry ALE_TYPE_VLAN_ADDR addr port flags)) =
      Some (addr_key addr vid)"
  using assms
  by (simp_all add: ucast_entry_def oui_entry_def entry_key_def is_addr_entry_def addr_key_def
      Let_def ale_consts get_set_addr)

lemma key_add_mcast:
  assumes "length addr = 6" "length e = 3"
  shows "e = ale_free_entry \<or> entry_key e = Some (addr_key addr 0) \<Longrightarrow>
         entry_key (mcast_entry addr pm super st e) = Some (addr_key addr 0)"
    and "vid < 4096 \<Longrightarrow>
         entry_key (vlan_mcast_entry addr pm vid super st e) = Some (addr_key addr vid)"
  using assms
  by (auto simp: mcast_entry_def vlan_mcast_entry_def entry_key_def is_addr_entry_def addr_key_def
      Let_def ale_consts get_set_addr split: if_splits)

lemma key_add_vlan:
  "length e = 3 \<Longrightarrow> vid < 4096 \<Longrightarrow>
   entry_key (vlan_entry vid port untag reg unreg e) = Some (vlan_key vid)"
  by (simp add: vlan_entry_def entry_key_def is_addr_entry_def vlan_key_def Let_def ale_consts)

lemma key_flush:
  assumes "length e = 3"
  shows "entry_key (cpsw_ale_flush_mcast pm e) = None \<or> entry_key (cpsw_ale_flush_mcast pm e) = entry_key e"
    and "entry_key (cpsw_ale_flush_ucast pm e) = None \<or> entry_key (cpsw_ale_flush_ucast pm e) = entry_key e"
  using assms by (simp_all add: cpsw_ale_flush_mcast_def cpsw_ale_flush_ucast_def Let_def key_keep)

lemma op_shape_keys: "op_args_ok p \<Longrightarrow> shape_keys (op_shape p)"
  using key_flush
  by (cases p)
     (auto simp: key_add_addr key_add_mcast key_add_vlan cleared_entry_def ale_del_mcast_entry_def
      ale_del_vlan_entry_def key_keep Let_def flush_entry_def flush_multicast_entry_def
      flush_vlan_multicast_entry_def split: if_splits)

section \<open>The operations on the map\<close>

text \<open>Adding may take the slot of another entry only where that one may age out, the key was not
  bound and the table has no free slot.\<close>

definition may_evict :: "nat \<Rightarrow> ale_key \<Rightarrow> (ale_key \<rightharpoonup> ale_entry) \<Rightarrow> ale_key option \<Rightarrow> bool" where
  "may_evict n k m old \<longleftrightarrow>
     (case old of None \<Rightarrow> True
      | Some k0 \<Rightarrow> m k = None \<and> card (dom m) = n \<and> (\<exists>e0. m k0 = Some e0 \<and> is_ageable e0))"

definition bound_entry :: "ale_entry option \<Rightarrow> ale_entry" where
  "bound_entry eo = (case eo of None \<Rightarrow> ale_free_entry | Some e \<Rightarrow> e)"

definition flushed :: "(ale_entry \<Rightarrow> ale_entry option) \<Rightarrow> ale_entry \<Rightarrow> ale_entry option" where
  "flushed f e = (case f e of None \<Rightarrow> Some e | Some e' \<Rightarrow> if is_free_entry e' then None else Some e')"

fun map_step :: "ale_shape \<Rightarrow> nat \<Rightarrow> (ale_key \<rightharpoonup> ale_entry) \<Rightarrow> unit result \<Rightarrow> (ale_key \<rightharpoonup> ale_entry) \<Rightarrow> bool"
where
  "map_step (Shape_add k f) n m r m' \<longleftrightarrow>
     (r = Inr () \<and> (\<exists>old. may_evict n k m old \<and> m' = (unbind old m)(k \<mapsto> f (bound_entry (m k))))) \<or>
     (r = Inl ENOMEM \<and> m' = m \<and> m k = None \<and> card (dom m) = n \<and> (\<forall>e \<in> ran m. \<not> is_ageable e))"
| "map_step (Shape_del k err f) n m r m' \<longleftrightarrow>
     (case m k of None \<Rightarrow> r = Inl err \<and> m' = m
      | Some e \<Rightarrow> r = Inr () \<and> m' = m(k := if is_free_entry (f e) then None else Some (f e)))"
| "map_step (Shape_walk f) n m r m' \<longleftrightarrow> r = Inr () \<and> (\<forall>k. m' k = Option.bind (m k) (flushed f))"

lemma full_card:
  assumes "uniq_keys n t" "abs_find is_free_entry n t = None"
  shows "card (dom (ale_map n t)) = n"
proof -
  have k: "\<forall>i < n. entry_key (t i) \<noteq> None" using assms(2) by (simp add: abs_find_None free_no_key)
  then have "dom (ale_map n t) = (\<lambda>i. the (entry_key (t i))) ` {..<n}"
    by (force simp: dom_def ale_map_Some [OF assms(1)] image_iff)
  moreover have "inj_on (\<lambda>i. the (entry_key (t i))) {..<n}"
    using assms(1) k by (auto simp: inj_on_def uniq_keys_def) (metis option.sel)
  ultimately show ?thesis by (simp add: card_image)
qed

lemma found_bound: "found_entry (abs_find (has_key k) n t) t = bound_entry (ale_map n t k)"
  by (simp add: found_entry_def bound_entry_def ale_map_def split: option.split)

lemma ageable_key: "is_ageable e \<Longrightarrow> entry_key e \<noteq> None"
  by (simp add: is_ageable_def entry_key_def)

lemma add_map_step:
  assumes u: "uniq_keys n t" and e: "entry_key e = Some k"
    and st: "abs_place (abs_find (has_key k) n t) n t e = (r, t')"
    and f: "e = f (bound_entry (ale_map n t k))"
  shows "uniq_keys n t' \<and> map_step (Shape_add k f) n (ale_map n t) r (ale_map n t')"
proof (cases "abs_find (has_key k) n t")
  case (Some i)
  then have i: "i < n" "entry_key (t i) = Some k" using abs_find_Some [OF Some] by (auto simp: has_key_def)
  have t': "r = Inr ()" "t' = t(i := e)" using st Some by (auto simp: abs_place_def abs_slot_def)
  have new: "\<forall>j < n. j \<noteq> i \<longrightarrow> entry_key e \<noteq> None \<longrightarrow> entry_key (t j) \<noteq> entry_key e"
    using u i e by (auto simp: uniq_keys_def)
  have "ale_map n t' = (ale_map n t)(k \<mapsto> e)"
    unfolding t' ale_map_update [OF u i(1) new] by (simp add: rebind_def unbind_def i e)
  then show ?thesis using uniq_update [OF u new] t' f
    by (auto simp: may_evict_def unbind_def intro!: exI [of _ None])
next
  case None
  then have none: "\<forall>j < n. entry_key (t j) \<noteq> Some k" by (simp add: abs_find_None has_key_def)
  then have mk: "ale_map n t k = None" by (simp add: ale_map_None)
  have new: "\<forall>j < n. j \<noteq> i \<longrightarrow> entry_key e \<noteq> None \<longrightarrow> entry_key (t j) \<noteq> entry_key e" for i
    using none e by auto
  have upd: "ale_map n (t(i := e)) = (unbind (entry_key (t i)) (ale_map n t))(k \<mapsto> e)" if "i < n" for i
    using ale_map_update [OF u that new] by (simp add: rebind_def e)
  show ?thesis
  proof (cases "abs_slot None n t")
    case None
    then have "abs_find is_free_entry n t = None" "abs_find is_ageable n t = None"
      by (auto simp: abs_slot_def split: option.splits)
    then have "card (dom (ale_map n t)) = n" "\<forall>e \<in> ran (ale_map n t). \<not> is_ageable e"
      using full_card [OF u] by (auto simp: ran_def abs_find_None ale_map_Some [OF u])
    then show ?thesis using st None mk \<open>abs_find (has_key k) n t = None\<close> u
      by (simp add: abs_place_def)
  next
    case (Some i)
    have i: "i < n" and slot: "is_free_entry (t i) \<or> abs_find is_free_entry n t = None \<and> is_ageable (t i)"
      using Some abs_find_Some [of is_free_entry n t i] abs_find_Some [of is_ageable n t i]
      by (auto simp: abs_slot_def split: option.splits)
    have t': "r = Inr ()" "t' = t(i := e)"
      using st Some \<open>abs_find (has_key k) n t = None\<close> by (auto simp: abs_place_def)
    have "may_evict n k (ale_map n t) (entry_key (t i))"
      using slot full_card [OF u] mk i
      by (auto simp: may_evict_def free_no_key ale_map_Some [OF u] split: option.split)
    then show ?thesis using uniq_update [OF u new] upd [OF i] t' f by auto
  qed
qed

lemma del_map_step:
  assumes u: "uniq_keys n t" and len: "\<forall>i. length (t i) = 3" and sh: "shape_keys (Shape_del k err f)"
    and st: "abs_step (Shape_del k err f) n t = (r, t')"
  shows "uniq_keys n t' \<and> map_step (Shape_del k err f) n (ale_map n t) r (ale_map n t')"
proof (cases "abs_find (has_key k) n t")
  case None
  then show ?thesis using st u by (simp add: ale_map_def)
next
  case (Some i)
  then have i: "i < n" "entry_key (t i) = Some k" using abs_find_Some [OF Some] by (auto simp: has_key_def)
  have t': "r = Inr ()" "t' = t(i := f (t i))" using st Some by auto
  have fk: "entry_key (f (t i)) = None \<or> entry_key (f (t i)) = Some k" using sh len i by simp
  have new: "\<forall>j < n. j \<noteq> i \<longrightarrow> entry_key (f (t i)) \<noteq> None \<longrightarrow> entry_key (t j) \<noteq> entry_key (f (t i))"
    using u i fk by (auto simp: uniq_keys_def)
  have "ale_map n t k = Some (t i)" by (simp add: ale_map_def Some)
  moreover have "ale_map n t' =
    (ale_map n t)(k := if is_free_entry (f (t i)) then None else Some (f (t i)))"
    unfolding t' ale_map_update [OF u i(1) new] using fk
    by (auto simp: rebind_def unbind_def i free_no_key)
  ultimately show ?thesis using uniq_update [OF u new] t' by simp
qed

lemma walk_map_step:
  assumes u: "uniq_keys n t" and len: "\<forall>i. length (t i) = 3" and sh: "shape_keys (Shape_walk f)"
    and st: "abs_step (Shape_walk f) n t = (r, t')"
  shows "uniq_keys n t' \<and> map_step (Shape_walk f) n (ale_map n t) r (ale_map n t')"
proof -
  define g where "g e = (case f e of None \<Rightarrow> e | Some e' \<Rightarrow> e')" for e
  have t': "r = Inr ()" "i < n \<Longrightarrow> t' i = g (t i)" for i using st by (auto simp: g_def)
  have gk: "entry_key (g (t i)) = None \<or> entry_key (g (t i)) = entry_key (t i)" for i
    using sh len by (auto simp: g_def split: option.split)
  have u': "uniq_keys n t'" using u gk t'(2) unfolding uniq_keys_def by metis
  have fl: "entry_key e \<noteq> None \<Longrightarrow> flushed f e = (if entry_key (g e) = None then None else Some (g e))" for e
    by (auto simp: flushed_def g_def free_no_key split: option.split)
  have "ale_map n t' k = Option.bind (ale_map n t k) (flushed f)" for k
  proof (rule option_eqI)
    fix e
    have "ale_map n t' k = Some e \<longleftrightarrow> (\<exists>i < n. g (t i) = e \<and> entry_key e = Some k)"
      by (auto simp: ale_map_Some [OF u'] t'(2))
    also have "\<dots> \<longleftrightarrow> (\<exists>i < n. entry_key (t i) = Some k \<and> g (t i) = e \<and> entry_key e \<noteq> None)"
      using gk by (metis option.distinct(1))
    also have "\<dots> \<longleftrightarrow> Option.bind (ale_map n t k) (flushed f) = Some e"
      by (auto simp: bind_eq_Some_conv ale_map_Some [OF u] fl split: if_splits)
    finally show "ale_map n t' k = Some e \<longleftrightarrow> Option.bind (ale_map n t k) (flushed f) = Some e" .
  qed
  then show ?thesis using u' t'(1) by simp
qed

lemma abs_map_step:
  assumes "uniq_keys n t" "\<forall>i. length (t i) = 3" "shape_keys sh" "abs_step sh n t = (r, t')"
  shows "uniq_keys n t' \<and> map_step sh n (ale_map n t) r (ale_map n t')"
proof (cases sh)
  case (Shape_add k f)
  define e0 where "e0 = found_entry (abs_find (has_key k) n t) t"
  define e where "e = f e0"
  have "length e0 = 3" "e0 = ale_free_entry \<or> entry_key e0 = Some k"
    using assms(2) abs_find_Some [of "has_key k" n t]
    by (auto simp: e0_def found_entry_def has_key_def split: option.split)
  then have "entry_key e = Some k" using assms(3) Shape_add by (auto simp: e_def)
  then show ?thesis
    using add_map_step [OF assms(1), of e k r t' f] assms(4) Shape_add
    by (simp add: e_def e0_def Let_def found_bound)
next
  case (Shape_del k err f)
  then show ?thesis using del_map_step assms by blast
next
  case (Shape_walk f)
  then show ?thesis using walk_map_step assms by blast
qed

section \<open>Sequences of operations\<close>

inductive ale_reach :: "'h ale_dev \<Rightarrow> 'h cpsw_ale \<Rightarrow> 'h cpsw_ale \<Rightarrow> bool" for dev ale0 where
  init: "ale_reach dev ale0 ale0"
| step: "ale_reach dev ale0 ale \<Longrightarrow> op_args_ok p \<Longrightarrow> ale_reach dev ale0 (snd (run_op dev p ale))"

definition run_ops :: "'h ale_dev \<Rightarrow> ale_op list \<Rightarrow> 'h cpsw_ale \<Rightarrow> 'h cpsw_ale" where
  "run_ops dev ps = fold (\<lambda>p ale. snd (run_op dev p ale)) ps"

text \<open>The operations that add or delete under a key other than \<open>k\<close>.\<close>

definition other_key :: "ale_key \<Rightarrow> ale_op \<Rightarrow> bool" where
  "other_key k p \<longleftrightarrow>
     (case op_shape p of Shape_add k' f \<Rightarrow> k' \<noteq> k | Shape_del k' err f \<Rightarrow> k' \<noteq> k | Shape_walk f \<Rightarrow> False)"

lemma map_step_keeps:
  assumes "map_step (op_shape p) n m r m'" "other_key k p" "m k = Some e" "\<not> is_ageable e"
  shows "m' k = Some e"
  using assms
  by (auto simp: other_key_def may_evict_def unbind_def split: ale_shape.splits option.splits)

context ale_device
begin

lemma op_refines:
  assumes "n = ale_entries ale" "n \<le> slots" "op_args_ok p" "uniq_keys n (tbl (ale_hw ale))"
  shows "case run_op dev p ale of (r, ale') \<Rightarrow>
    uniq_keys n (tbl (ale_hw ale')) \<and>
    map_step (op_shape p) n (ale_map n (tbl (ale_hw ale))) r (ale_map n (tbl (ale_hw ale'))) \<and>
    ale' = ale\<lparr>ale_hw := ale_hw ale'\<rparr>"
proof -
  obtain h where h: "run_op dev p ale = (fst (abs_step (op_shape p) n (tbl (ale_hw ale))), ale\<lparr>ale_hw := h\<rparr>)"
    "tbl h = snd (abs_step (op_shape p) n (tbl (ale_hw ale)))"
    using run_op_step [of ale p] assms(1,2) by (auto simp: step_ok_def)
  have "uniq_keys n (tbl h) \<and> map_step (op_shape p) n (ale_map n (tbl (ale_hw ale)))
      (fst (abs_step (op_shape p) n (tbl (ale_hw ale)))) (ale_map n (tbl h))"
    unfolding h(2)
    by (rule abs_map_step [OF assms(4) _ op_shape_keys [OF assms(3)]]) (simp_all add: entry_words)
  then show ?thesis using h(1) by simp
qed

lemma op_entries:
  assumes "ale_entries ale \<le> slots" "op_args_ok p" "uniq_keys (ale_entries ale) (tbl (ale_hw ale))"
  shows "ale_entries (snd (run_op dev p ale)) = ale_entries ale \<and>
    uniq_keys (ale_entries ale) (tbl (ale_hw (snd (run_op dev p ale)))) \<and>
    map_step (op_shape p) (ale_entries ale) (ale_map (ale_entries ale) (tbl (ale_hw ale)))
      (fst (run_op dev p ale)) (ale_map (ale_entries ale) (tbl (ale_hw (snd (run_op dev p ale)))))"
proof -
  obtain r ale' where eq: "run_op dev p ale = (r, ale')" by (cases "run_op dev p ale")
  have "ale' = ale\<lparr>ale_hw := ale_hw ale'\<rparr>" using op_refines [OF refl assms] eq by simp
  then have "ale_entries ale' = ale_entries ale" by (metis cpsw_ale.select_convs(1) cpsw_ale.surjective
      cpsw_ale.update_convs(5))
  then show ?thesis using op_refines [OF refl assms] eq by simp
qed

lemma reach_uniq:
  assumes "ale_reach dev ale0 ale" "ale_entries ale0 \<le> slots"
    "uniq_keys (ale_entries ale0) (tbl (ale_hw ale0))"
  shows "uniq_keys (ale_entries ale) (tbl (ale_hw ale)) \<and> ale_entries ale = ale_entries ale0"
  using assms
proof (induction rule: ale_reach.induct)
  case (step ale p)
  then show ?case using op_entries [of ale p] by auto
qed simp

lemma run_ops_keeps:
  assumes "ale_entries ale \<le> slots" "uniq_keys (ale_entries ale) (tbl (ale_hw ale))"
    "\<forall>p \<in> set ps. op_args_ok p \<and> other_key k p"
    "ale_map (ale_entries ale) (tbl (ale_hw ale)) k = Some e" "\<not> is_ageable e"
  shows "ale_map (ale_entries ale) (tbl (ale_hw (run_ops dev ps ale))) k = Some e"
  using assms
proof (induction ps arbitrary: ale)
  case (Cons p ps)
  define ale' where "ale' = snd (run_op dev p ale)"
  have ok: "op_args_ok p" "other_key k p" using Cons.prems(3) by auto
  have st: "ale_entries ale' = ale_entries ale" "uniq_keys (ale_entries ale) (tbl (ale_hw ale'))"
    "map_step (op_shape p) (ale_entries ale) (ale_map (ale_entries ale) (tbl (ale_hw ale)))
      (fst (run_op dev p ale)) (ale_map (ale_entries ale) (tbl (ale_hw ale')))"
    using op_entries [OF Cons.prems(1) ok(1) Cons.prems(2)] by (auto simp: ale'_def)
  have "ale_map (ale_entries ale') (tbl (ale_hw ale')) k = Some e"
    using map_step_keeps [OF st(3) ok(2) Cons.prems(4,5)] st(1) by simp
  then have "ale_map (ale_entries ale') (tbl (ale_hw (run_ops dev ps ale'))) k = Some e"
    using Cons.IH [of ale'] Cons.prems st by simp
  then show ?case using st(1) by (simp add: run_ops_def ale'_def)
qed (simp add: run_ops_def)

lemma walk_entry:
  assumes "ale_entries ale \<le> slots" "i < ale_entries ale"
  shows "tbl (ale_hw (cpsw_ale_flush dev pm ale)) i =
    (case flush_entry pm (tbl (ale_hw ale) i) of None \<Rightarrow> tbl (ale_hw ale) i | Some e \<Rightarrow> e)"
  using run_op_step [OF assms(1), of "Flush pm"] assms(2) by (auto simp: step_ok_def)

end

section \<open>Ports after a flush\<close>

definition entry_ports :: "ale_entry \<Rightarrow> u32" where
  "entry_ports e =
     (if ale_get Mcast e \<noteq> 0 then ale_get Port_mask e else push_bit (unat (ale_get Port_num e)) 1)"

lemma mcast_after_mask: "length e = 3 \<Longrightarrow> ale_get Mcast (ale_set Port_mask v e) = ale_get Mcast e"
  by (simp add: ale_get_set_other field_pos_simps)

lemma narrow_mask:
  "length e = 3 \<Longrightarrow>
   ale_get Port_mask (ale_set Port_mask (ale_get Port_mask e AND NOT pm) e) = ale_get Port_mask e AND NOT pm"
  using ale_get_mask [of Port_mask e] by (simp add: ale_get_set and.assoc and.left_commute and.commute)

lemma one_bit_and: "(push_bit k 1 :: u32) AND pm \<noteq> 0 \<Longrightarrow> push_bit k 1 AND NOT pm = 0"
proof -
  assume "(push_bit k 1 :: u32) AND pm \<noteq> 0"
  then obtain n where "bit ((push_bit k 1 :: u32) AND pm) n"
    using bit_word_eqI [of "(push_bit k 1 :: u32) AND pm" 0] by auto
  then have "bit pm k" by (auto simp: bit_and_iff bit_exp_iff)
  then show ?thesis by (intro bit_word_eqI) (auto simp: bit_and_iff bit_not_iff bit_exp_iff)
qed

lemma bit_disjoint: "(a :: u32) AND pm = 0 \<Longrightarrow> a AND NOT pm = a"
  by (auto simp: bit_eq_iff bit_simps)

lemma flush_ports:
  assumes "length e = 3" "is_addr_entry e" "flush_entry pm e = Some e'"
  shows "if entry_ports e AND pm \<noteq> 0 \<and> entry_ports e AND NOT pm = 0 then is_free_entry e'
    else is_addr_entry e' \<and> entry_key e' = entry_key e \<and> entry_ports e' = entry_ports e AND NOT pm"
proof (cases "ale_get Mcast e \<noteq> 0")
  case True
  then show ?thesis using assms
    by (auto simp: flush_entry_def cpsw_ale_flush_mcast_def Let_def entry_ports_def free_no_key
        key_keep mcast_after_mask narrow_mask bit_disjoint is_addr_entry_def split: if_splits)
next
  case False
  then show ?thesis using assms one_bit_and [of "unat (ale_get Port_num e)" pm]
    by (auto simp: flush_entry_def cpsw_ale_flush_ucast_def Let_def entry_ports_def free_no_key
        bit_disjoint split: if_splits)
qed

end
