(* ===== verification/Ale_Props.thy ===== *)
theory Ale_Props
  imports Ale_Map
begin

text \<open>
  Correctness of the address lookup engine's driver: the laws of \<open>ale_device\<close> on a simulation of
  the switch's table registers, and the properties of the driver for every device that has them.
\<close>

section \<open>A device\<close>

text \<open>A table of 1024 entries behind an index register and three buffer words; clearing and
  ageing are bits of the control register that read back as zero.\<close>

record ale_sim =
  sim_regs :: "u32 \<Rightarrow> u32"
  sim_tbl :: "nat \<Rightarrow> u32 \<times> u32 \<times> u32"

definition sim_write :: "u32 \<Rightarrow> u32 \<Rightarrow> ale_sim \<Rightarrow> ale_sim" where
  "sim_write off v h =
     (if off = ALE_TABLE_CONTROL then
        (let i = unat (v AND mask 10)
         in if bit v 31
            then h\<lparr>sim_tbl := (sim_tbl h)(i := (sim_regs h ALE_TABLE, sim_regs h (ALE_TABLE + 4),
                                                 sim_regs h (ALE_TABLE + 8)))\<rparr>
            else (case sim_tbl h i of (a, b, c) \<Rightarrow>
                    h\<lparr>sim_regs := (sim_regs h)(ALE_TABLE := a, ALE_TABLE + 4 := b, ALE_TABLE + 8 := c)\<rparr>))
      else if off = ALE_CONTROL then
        h\<lparr>sim_regs := (sim_regs h)(off := v AND mask 29 OR (v AND push_bit 31 1)),
          sim_tbl := (if bit v 30 then (\<lambda>_. (0, 0, 0)) else sim_tbl h)\<rparr>
      else h\<lparr>sim_regs := (sim_regs h)(off := v)\<rparr>)"

definition sim_dev :: "ale_sim ale_dev" where
  "sim_dev = \<lparr>raw_readl = (\<lambda>off h. sim_regs h off), raw_writel = sim_write\<rparr>"

definition sim_table :: "ale_sim \<Rightarrow> nat \<Rightarrow> ale_entry" where
  "sim_table h i = (case sim_tbl h i of (a, b, c) \<Rightarrow> [a, b, c])"

lemma bit_table_write: "bit ALE_TABLE_WRITE n \<longleftrightarrow> n = 31"
proof -
  have "ALE_TABLE_WRITE = 2 ^ 31" by (simp add: ALE_TABLE_WRITE_def)
  then show ?thesis unfolding \<open>ALE_TABLE_WRITE = 2 ^ 31\<close> bit_exp_iff by auto
qed

lemma index_low_bits:
  assumes "i < 1024"
  shows "unat ((of_nat i :: u32) AND mask 10) = i" "\<not> bit (of_nat i :: u32) 31"
    "unat ((of_nat i OR ALE_TABLE_WRITE) AND mask 10) = i" "bit (of_nat i OR ALE_TABLE_WRITE) 31"
proof -
  have u: "unat (of_nat i :: u32) = i" using assms by (simp add: unat_of_nat)
  show a: "unat ((of_nat i :: u32) AND mask 10) = i" using assms by (simp add: unat_and_mask u)
  show "\<not> bit (of_nat i :: u32) 31"
  proof -
    have "\<not> bit i 31" using assms by (simp add: bit_iff_odd)
    then show ?thesis by (simp add: bit_of_nat_iff)
  qed
  have "(of_nat i OR ALE_TABLE_WRITE) AND mask 10 = (of_nat i :: u32) AND mask 10"
    by (rule bit_word_eqI) (auto simp: bit_table_write bit_and_iff bit_or_iff bit_mask_iff)
  then show "unat ((of_nat i OR ALE_TABLE_WRITE) AND mask 10) = i" using a by simp
  show "bit (of_nat i OR ALE_TABLE_WRITE) 31" by (simp add: bit_table_write bit_or_iff)
qed

lemma sim_load:
  assumes "i < 1024" "k < 3"
  shows "raw_readl sim_dev (ALE_TABLE + 4 * of_nat k) (raw_writel sim_dev ALE_TABLE_CONTROL (of_nat i) h) =
         sim_table h i ! k"
proof -
  have "k = 0 \<or> k = 1 \<or> k = 2" using assms(2) by auto
  then show ?thesis using index_low_bits [OF assms(1)]
    by (auto simp: sim_dev_def sim_write_def sim_table_def Let_def ALE_TABLE_def split: prod.split)
qed

interpretation sim: ale_device sim_dev sim_table 1024
proof
  fix h and i k :: nat and w0 w1 w2 :: u32
  show "length (sim_table h i) = 3" by (simp add: sim_table_def split: prod.split)
  assume i: "i < 1024"
  show "sim_table (raw_writel sim_dev ALE_TABLE_CONTROL (of_nat i) h) = sim_table h"
    using index_low_bits [OF i]
    by (auto simp: fun_eq_iff sim_dev_def sim_write_def sim_table_def Let_def split: prod.split)
  show "sim_table (raw_writel sim_dev ALE_TABLE_CONTROL (of_nat i OR ALE_TABLE_WRITE)
          (raw_writel sim_dev (ALE_TABLE + 8) w2 (raw_writel sim_dev (ALE_TABLE + 4) w1
            (raw_writel sim_dev ALE_TABLE w0 h)))) = (sim_table h)(i := [w0, w1, w2])"
    using index_low_bits [OF i]
    by (auto simp: fun_eq_iff sim_dev_def sim_write_def sim_table_def ALE_TABLE_def
        ALE_TABLE_CONTROL_def ALE_CONTROL_def)
  assume "k < 3"
  with i show "raw_readl sim_dev (ALE_TABLE + 4 * of_nat k)
      (raw_writel sim_dev ALE_TABLE_CONTROL (of_nat i) h) = sim_table h i ! k" by (rule sim_load)
qed

text \<open>A switch with four table entries and two slave ports, its table clear.\<close>

definition sim_ale :: "ale_sim cpsw_ale" where
  "sim_ale = \<lparr>ale_entries = 4, ale_ports = 2, ale_ageout = 0, ale_timer = None,
     ale_hw = \<lparr>sim_regs = (\<lambda>_. 0), sim_tbl = (\<lambda>_. (0, 0, 0))\<rparr>\<rparr>"

definition clear_table :: "nat \<Rightarrow> (nat \<Rightarrow> ale_entry) \<Rightarrow> bool" where
  "clear_table n t \<longleftrightarrow> (\<forall>i < n. is_free_entry (t i))"

lemma clear_uniq: "clear_table n t \<Longrightarrow> uniq_keys n t"
  by (simp add: clear_table_def uniq_keys_def free_no_key)

lemma sim_clear: "clear_table (ale_entries sim_ale) (sim_table (ale_hw sim_ale))"
  by (simp add: clear_table_def sim_ale_def sim_table_def is_free_entry_def ale_consts
      flip: ale_free_entry_def)

lemma sim_entries: "ale_entries sim_ale \<le> 1024"
  by (simp add: sim_ale_def)

section \<open>Properties\<close>

text \<open>
  C16.  The accessors of an entry of three words: a field reads back what was stored in it, cut to
  the field's width; storing a field changes no field that does not overlap it; the six address
  bytes read back as stored, and the fields above bit 47 are not touched by them.
\<close>

theorem ale_field_roundtrip:
  assumes "length e = 3" "length addr = 6"
  shows "ale_get f (ale_set f v e) = v AND mask (field_bits f) \<and>
    (field_disjoint f g \<longrightarrow> ale_get f (ale_set g v e) = ale_get f e) \<and>
    cpsw_ale_get_addr (cpsw_ale_set_addr addr e) = addr \<and>
    (48 \<le> field_first f \<longrightarrow> ale_get f (cpsw_ale_set_addr addr e) = ale_get f e)"
  using assms by (simp add: ale_get_set ale_get_set_other get_set_addr ale_get_set_addr)

theorem ale_field_roundtrip_witness:
  "ale_get Port_num (ale_set Port_num 2 ale_free_entry) = 2 AND mask (field_bits Port_num) \<and>
   cpsw_ale_get_addr (cpsw_ale_set_addr [1, 2, 3, 4, 5, 6] ale_free_entry) = [1, 2, 3, 4, 5, 6]"
  using ale_field_roundtrip [of ale_free_entry "[1, 2, 3, 4, 5, 6]" Port_num 2 Secure] by simp

text \<open>
  C17.  Every table operation of the driver, on a device that keeps the laws of its table
  registers, acts on the map from keys to entries that the table stands for as specified: an add
  binds the key to the entry built from the one bound before, or fails with ENOMEM on a full table
  with nothing that may age out, and takes the slot of at most one other entry, one that may age
  out, and only where the table is full; a delete without a match fails and changes nothing, with a
  match it unbinds or narrows the entry; a flush rewrites each entry.  No key is bound twice
  afterwards, and nothing but the device changes.
\<close>

theorem ale_ops_refine_map:
  assumes "ale_device dev tbl slots" "n = ale_entries ale" "n \<le> slots" "op_args_ok p"
    "uniq_keys n (tbl (ale_hw ale))"
  shows "case run_op dev p ale of (r, ale') \<Rightarrow>
    uniq_keys n (tbl (ale_hw ale')) \<and>
    map_step (op_shape p) n (ale_map n (tbl (ale_hw ale))) r (ale_map n (tbl (ale_hw ale'))) \<and>
    ale' = ale\<lparr>ale_hw := ale_hw ale'\<rparr>"
  by (rule ale_device.op_refines [OF assms])

theorem ale_ops_refine_map_witness:
  "case run_op sim_dev (Add_ucast [2, 0, 0, 0, 0, 1] 1 1) sim_ale of (r, ale') \<Rightarrow>
    uniq_keys 4 (sim_table (ale_hw ale')) \<and>
    map_step (op_shape (Add_ucast [2, 0, 0, 0, 0, 1] 1 1)) 4
      (ale_map 4 (sim_table (ale_hw sim_ale))) r (ale_map 4 (sim_table (ale_hw ale'))) \<and>
    ale' = sim_ale\<lparr>ale_hw := ale_hw ale'\<rparr>"
  using ale_ops_refine_map [OF sim.ale_device_axioms _ _ _ clear_uniq, of 4 sim_ale
      "Add_ucast [2, 0, 0, 0, 0, 1] 1 1"] sim_clear
  by (simp add: sim_ale_def)

text \<open>
  C18.  From a clear table, whatever sequence of table operations ran, no address and VLAN pair
  and no VLAN has two entries: a lookup cannot see a stale second copy.
\<close>

theorem ale_reachable_uniq:
  assumes "ale_device dev tbl slots" "ale_entries ale0 \<le> slots"
    "clear_table (ale_entries ale0) (tbl (ale_hw ale0))" "ale_reach dev ale0 ale"
  shows "uniq_keys (ale_entries ale) (tbl (ale_hw ale)) \<and> ale_entries ale = ale_entries ale0"
  using ale_device.reach_uniq [OF assms(1,4,2)] clear_uniq [OF assms(3)] by blast

theorem ale_reachable_uniq_witness:
  "uniq_keys 4 (sim_table (ale_hw (snd (run_op sim_dev (Add_vlan 5 7 0 7 7) sim_ale))))"
  using ale_reachable_uniq [OF sim.ale_device_axioms sim_entries sim_clear,
      OF ale_reach.step [OF ale_reach.init, of "Add_vlan 5 7 0 7 7"]]
  by (auto simp: sim_ale_def simp del: run_op.simps)

text \<open>
  C19.  An entry that cannot age out (a static address, a group address, an OUI or a VLAN) stays
  bound, unchanged, through any sequence of adds and deletes under other keys, also where the table
  runs full.
\<close>

theorem ale_static_kept:
  assumes "ale_device dev tbl slots" "n = ale_entries ale" "n \<le> slots"
    "uniq_keys n (tbl (ale_hw ale))" "\<forall>p \<in> set ps. op_args_ok p \<and> other_key k p"
    "ale_map n (tbl (ale_hw ale)) k = Some e" "\<not> is_ageable e"
  shows "ale_map n (tbl (ale_hw (run_ops dev ps ale))) k = Some e"
  using ale_device.run_ops_keeps [OF assms(1), of ale ps k e] assms(2-) by simp

definition static_ale :: "ale_sim cpsw_ale" where
  "static_ale = \<lparr>ale_entries = 1, ale_ports = 2, ale_ageout = 0, ale_timer = None,
     ale_hw = \<lparr>sim_regs = (\<lambda>_. 0), sim_tbl = (\<lambda>_. (0, 0x20050000, 7))\<rparr>\<rparr>"

lemma static_entry:
  "entry_key [0, 0x20050000, 7] = Some (Inr 5)" "\<not> is_ageable [0, 0x20050000, 7]"
  by (simp_all add: entry_key_def is_ageable_def is_addr_entry_def ale_get_def cpsw_ale_get_field_def
      BITMASK_def ale_consts Let_def)

theorem ale_static_kept_witness:
  "ale_map 1 (sim_table (ale_hw (run_ops sim_dev [Add_vlan 6 7 0 7 7, Del_vlan 6 7] static_ale)))
     (Inr 5) = Some [0, 0x20050000, 7]"
  by (rule ale_static_kept [OF sim.ale_device_axioms])
     (simp_all add: static_ale_def uniq_keys_def ale_map_Some sim_table_def static_entry other_key_def
      vlan_key_def)

text \<open>
  C20.  After \<open>cpsw_ale_flush\<close> with a port mask, an address entry whose ports all lie in the mask
  is free, every other address entry keeps its key and its ports outside the mask and no port in
  it, and VLAN entries and free entries are as before.
\<close>

theorem ale_flush_ports:
  assumes "ale_device dev tbl slots" "ale_entries ale \<le> slots" "i < ale_entries ale"
    "e = tbl (ale_hw ale) i" "e' = tbl (ale_hw (cpsw_ale_flush dev pm ale)) i"
  shows "if \<not> is_addr_entry e then e' = e
    else if entry_ports e AND pm \<noteq> 0 \<and> entry_ports e AND NOT pm = 0 then is_free_entry e'
    else is_addr_entry e' \<and> entry_key e' = entry_key e \<and> entry_ports e' = entry_ports e AND NOT pm"
proof (cases "flush_entry pm e")
  case None
  then show ?thesis using ale_device.walk_entry [OF assms(1-3), of pm] assms(4,5)
    by (auto simp: flush_entry_def)
next
  case (Some x)
  then have "e' = x" "is_addr_entry e"
    using ale_device.walk_entry [OF assms(1-3), of pm] assms(4,5) by (auto simp: flush_entry_def split: if_splits)
  then show ?thesis using flush_ports [of e pm x] Some ale_device.entry_words [OF assms(1)] assms(4) by simp
qed

theorem ale_flush_ports_witness:
  "sim_table (ale_hw (cpsw_ale_flush sim_dev 2 static_ale)) 0 = [0, 0x20050000, 7]"
  using ale_flush_ports [OF sim.ale_device_axioms, of static_ale 0 "[0, 0x20050000, 7]" _ 2]
    static_entry
  by (simp add: static_ale_def sim_table_def entry_key_def split: if_splits)

end
