(* ===== verification/Ale_Control.thy ===== *)
theory Ale_Control
  imports Ale_Props
begin

text \<open>
  The control registers of the address lookup engine: \<open>cpsw_ale_control_set\<close> and
  \<open>cpsw_ale_control_get\<close> on registers that read back what was written, and the ageing timer.
\<close>

section \<open>Registers\<close>

text \<open>The registers behind the port controls and the unknown-VLAN controls read back what was
  written to them; writing one does not change what another control register reads.  (The global
  register has bits that clear themselves, so it is only promised not to change by itself.)\<close>

definition port_reg :: "nat \<Rightarrow> u32 \<Rightarrow> bool" where
  "port_reg ports off \<longleftrightarrow> off = ALE_UNKNOWNVLAN \<or> (\<exists>p \<le> ports. off = of_nat (unat ALE_PORTCTL + 4 * p))"

locale ale_ctrl =
  fixes dev :: "'h ale_dev" and ports :: nat
  assumes few_ports: "ports \<le> 32"
    and read_back: "port_reg ports off \<Longrightarrow> raw_readl dev off (raw_writel dev off v h) = v"
    and read_other: "port_reg ports off \<Longrightarrow> port_reg ports off' \<or> off' = ALE_CONTROL \<Longrightarrow> off' \<noteq> off \<Longrightarrow>
      raw_readl dev off' (raw_writel dev off v h) = raw_readl dev off' h"

lemma port_reg_2:
  assumes "port_reg 2 off"
  shows "off \<noteq> ALE_TABLE_CONTROL \<and> off \<noteq> ALE_CONTROL"
proof -
  have "off = ALE_UNKNOWNVLAN \<or> off = 0x40 \<or> off = 0x44 \<or> off = 0x48"
  proof (cases "off = ALE_UNKNOWNVLAN")
    case False
    then obtain p :: nat where p: "p \<le> 2" "off = of_nat (unat ALE_PORTCTL + 4 * p)"
      using assms by (auto simp: port_reg_def)
    have "p = 0 \<or> p = 1 \<or> p = 2" using p(1) by linarith
    then show ?thesis using p(2) by (auto simp: ALE_PORTCTL_def)
  qed simp
  then show ?thesis by (auto simp: ALE_UNKNOWNVLAN_def ALE_TABLE_CONTROL_def ALE_CONTROL_def)
qed

interpretation sim_ctrl: ale_ctrl sim_dev 2
proof
  fix off off' v :: u32 and h
  assume "port_reg 2 off"
  then have off: "off \<noteq> ALE_TABLE_CONTROL" "off \<noteq> ALE_CONTROL"
    using port_reg_2 by auto
  then show "raw_readl sim_dev off (raw_writel sim_dev off v h) = v"
    by (simp add: sim_dev_def sim_write_def)
  assume "off' \<noteq> off"
  then show "raw_readl sim_dev off' (raw_writel sim_dev off v h) = raw_readl sim_dev off' h"
    using off by (simp add: sim_dev_def sim_write_def)
qed simp

section \<open>Setting and getting\<close>

definition reg_get :: "nat \<Rightarrow> nat \<Rightarrow> u32 \<Rightarrow> u32" where
  "reg_get shift bits tmp = drop_bit shift tmp AND BITMASK bits"

definition reg_set :: "nat \<Rightarrow> nat \<Rightarrow> u32 \<Rightarrow> u32 \<Rightarrow> u32" where
  "reg_set shift bits v tmp = (tmp AND NOT (push_bit shift (BITMASK bits))) OR push_bit shift v"

lemma reg_get_set:
  assumes "shift + bits \<le> 32" "v AND NOT (BITMASK bits) = 0"
  shows "reg_get shift bits (reg_set shift bits v tmp) = v"
proof (rule bit_word_eqI)
  fix n assume n: "n < LENGTH(32)"
  have "\<not> bit (v AND NOT (BITMASK bits)) n" using assms(2) by simp
  then have "bit v n \<Longrightarrow> n < bits" using n by (auto simp: bit_and_iff bit_not_iff BITMASK_mask bit_mask_iff)
  then show "bit (reg_get shift bits (reg_set shift bits v tmp)) n = bit v n"
    using assms(1) n
    by (auto simp: reg_get_def reg_set_def BITMASK_mask bit_and_iff bit_or_iff bit_not_iff
        bit_drop_bit_eq bit_push_bit_iff bit_mask_iff)
qed

lemma reg_get_set_other:
  assumes "shift + bits \<le> 32" "v AND NOT (BITMASK bits) = 0" "s + b \<le> 32"
    "s + b \<le> shift \<or> shift + bits \<le> s"
  shows "reg_get s b (reg_set shift bits v tmp) = reg_get s b tmp"
proof (rule bit_word_eqI)
  fix n assume n: "n < LENGTH(32)"
  have k: "bit v k \<Longrightarrow> k < bits" if "k < 32" for k
  proof -
    have "\<not> bit (v AND NOT (BITMASK bits)) k" using assms(2) by simp
    then show "bit v k \<Longrightarrow> k < bits" using that
      by (auto simp: bit_and_iff bit_not_iff BITMASK_mask bit_mask_iff)
  qed
  have "\<not> bit v (s + n - shift)" if "n < b" "shift + bits \<le> s"
  proof
    assume "bit v (s + n - shift)"
    moreover have "s + n - shift < 32" "\<not> s + n - shift < bits" using that assms(3) by linarith+
    ultimately show False using k by blast
  qed
  then show "bit (reg_get s b (reg_set shift bits v tmp)) n = bit (reg_get s b tmp) n"
    using assms(1,3,4) n
    by (auto simp: reg_get_def reg_set_def BITMASK_mask bit_and_iff bit_or_iff bit_not_iff
        bit_drop_bit_eq bit_push_bit_iff bit_mask_iff)
qed

lemma fits_mask: "b < 32 \<Longrightarrow> (v :: u32) AND NOT (BITMASK b) = 0 \<longleftrightarrow> unat v < 2 ^ b"
proof -
  assume b: "b < 32"
  have "v AND NOT (mask b) = 0 \<longleftrightarrow> v AND mask b = v"
    by (auto simp: bit_eq_iff bit_simps)
  also have "\<dots> \<longleftrightarrow> unat v mod 2 ^ b = unat v" by (simp add: word_unat_eq_iff unat_and_mask)
  also have "\<dots> \<longleftrightarrow> unat v < 2 ^ b" by (simp add: mod_eq_self_iff_div_eq_0 div_eq_0_iff)
  finally show ?thesis by (simp add: BITMASK_mask)
qed

text \<open>Where a control lives: its register, first bit and width.\<close>

definition ctrl_reg :: "ale_control_info \<Rightarrow> nat \<Rightarrow> u32" where
  "ctrl_reg info port = of_nat (ci_offset info + port * ci_port_offset info)"

definition is_global :: "ale_control \<Rightarrow> bool" where
  "is_global c \<longleftrightarrow> ci_offset (ale_controls c) = unat ALE_CONTROL"

lemmas ctrl_defs = CTRL_GLOBAL_def CTRL_UNK_def CTRL_PORTCTL_def ALE_CONTROL_def ALE_UNKNOWNVLAN_def
  ALE_PORTCTL_def

lemma ci_port_shift_0 [simp]: "ci_port_shift (ale_controls c) = 0"
  by (cases c) (simp_all add: ctrl_defs)

lemma ci_fits: "ci_shift (ale_controls c) + ci_bits (ale_controls c) \<le> 32"
  by (cases c) (simp_all add: ctrl_defs)

lemma ale_control_in_enum: "c \<in> set ale_control_enum"
  by (cases c) (simp_all add: ale_control_enum_def)

lemma ci_table_disjoint:
  "\<forall>c \<in> set ale_control_enum. \<forall>c' \<in> set ale_control_enum. c = c' \<or>
     ci_offset (ale_controls c) \<noteq> ci_offset (ale_controls c') \<or>
     ci_shift (ale_controls c) + ci_bits (ale_controls c) \<le> ci_shift (ale_controls c') \<or>
     ci_shift (ale_controls c') + ci_bits (ale_controls c') \<le> ci_shift (ale_controls c)"
  by code_simp

lemma ci_disjoint:
  assumes "c \<noteq> c'" "ci_offset (ale_controls c) = ci_offset (ale_controls c')"
  shows "ci_shift (ale_controls c) + ci_bits (ale_controls c) \<le> ci_shift (ale_controls c') \<or>
         ci_shift (ale_controls c') + ci_bits (ale_controls c') \<le> ci_shift (ale_controls c)"
  using assms ci_table_disjoint ale_control_in_enum by blast

lemma ci_place:
  "ci_offset (ale_controls c) = 8 \<and> ci_port_offset (ale_controls c) = 0 \<or>
   ci_offset (ale_controls c) = 0x18 \<and> ci_port_offset (ale_controls c) = 0 \<or>
   ci_offset (ale_controls c) = 0x40 \<and> ci_port_offset (ale_controls c) = 4"
  by (cases c) (simp_all add: ctrl_defs)

lemma lookup_Inr:
  assumes "ale_control_lookup ports port control = Inr (info, p)"
  obtains c where "0 \<le> control" "nat control < length ale_control_enum"
    "c = ale_control_enum ! nat control" "info = ale_controls c" "p \<le> ports"
    "ci_port_offset info = 0 \<Longrightarrow> p = 0" "ci_port_offset info \<noteq> 0 \<Longrightarrow> int p = port"
  using assms by (auto simp: ale_control_lookup_def Let_def split: if_splits)

lemma enum_distinct: "distinct ale_control_enum"
  by (simp add: ale_control_enum_def)

lemma get_eq:
  "cpsw_ale_control_get dev port control ale =
     map_sum id (\<lambda>(info, p). reg_get (ci_shift info + p * ci_port_shift info) (ci_bits info)
       (raw_readl dev (ctrl_reg info p) (ale_hw ale)))
       (ale_control_lookup (ale_ports ale) port control)"
  by (simp add: cpsw_ale_control_get_def reg_get_def ctrl_reg_def Let_def split: sum.split prod.split)

lemma set_eq:
  "cpsw_ale_control_set dev port control v ale =
     (case ale_control_lookup (ale_ports ale) port control of
        Inl e \<Rightarrow> (Inl e, ale)
      | Inr (info, p) \<Rightarrow>
          if v AND NOT (BITMASK (ci_bits info)) \<noteq> 0 then (Inl EINVAL, ale)
          else (Inr (), ale\<lparr>ale_hw := raw_writel dev (ctrl_reg info p)
            (reg_set (ci_shift info + p * ci_port_shift info) (ci_bits info) v
              (raw_readl dev (ctrl_reg info p) (ale_hw ale))) (ale_hw ale)\<rparr>))"
  by (simp add: cpsw_ale_control_set_def reg_set_def ctrl_reg_def Let_def split: sum.split prod.split)

context ale_ctrl
begin

lemma reg_class:
  assumes "info = ale_controls c" "p \<le> ports" "ci_port_offset info = 0 \<Longrightarrow> p = 0"
  shows "port_reg ports (ctrl_reg info p) \<or> ctrl_reg info p = ALE_CONTROL"
    and "\<not> is_global c \<Longrightarrow> port_reg ports (ctrl_reg info p)"
  using ci_place [of c] assms
  by (auto simp: port_reg_def ctrl_reg_def is_global_def ALE_UNKNOWNVLAN_def ALE_PORTCTL_def ALE_CONTROL_def
      mult.commute)

lemma reg_same:
  assumes "info = ale_controls c" "p \<le> ports" "ci_port_offset info = 0 \<Longrightarrow> p = 0"
    "info' = ale_controls c'" "p' \<le> ports" "ci_port_offset info' = 0 \<Longrightarrow> p' = 0"
    "ctrl_reg info p = ctrl_reg info' p'"
  shows "ci_offset info = ci_offset info' \<and> p = p'"
proof -
  have u: "unat (of_nat k :: u32) = k" if "k < 2 ^ 20" for k :: nat
    using that by (simp add: unat_of_nat)
  have lt: "ci_offset info + p * ci_port_offset info < 2 ^ 20"
    "ci_offset info' + p' * ci_port_offset info' < 2 ^ 20"
    using ci_place [of c] ci_place [of c'] assms(1-6) few_ports by auto
  have "ci_offset info + p * ci_port_offset info = ci_offset info' + p' * ci_port_offset info'"
    using arg_cong [OF assms(7) [unfolded ctrl_reg_def], of unat] by (simp only: u lt)
  then show ?thesis using ci_place [of c] ci_place [of c'] assms(1-6) by auto
qed

lemma set_get:
  assumes set: "cpsw_ale_control_set dev port control v ale = (Inr (), ale')"
    and lk: "ale_control_lookup (ale_ports ale) port control = Inr (info, p)"
    and ports: "ale_ports ale = ports" and g: "\<not> is_global (ale_control_enum ! nat control)"
  shows "cpsw_ale_control_get dev port control ale' = Inr v"
    and "ale_control_lookup (ale_ports ale) port' control' = Inr (info', p') \<Longrightarrow>
         (control', p') \<noteq> (control, p) \<Longrightarrow>
         cpsw_ale_control_get dev port' control' ale' = cpsw_ale_control_get dev port' control' ale"
proof -
  obtain c where c: "0 \<le> control" "nat control < length ale_control_enum"
    "c = ale_control_enum ! nat control" "info = ale_controls c" "p \<le> ports"
    "ci_port_offset info = 0 \<Longrightarrow> p = 0" using lookup_Inr [OF lk] ports by metis
  have reg: "port_reg ports (ctrl_reg info p)" using reg_class(2) [OF c(4-6)] g c(3) by simp
  have v: "v AND NOT (BITMASK (ci_bits info)) = 0"
    and ale': "ale' = ale\<lparr>ale_hw := raw_writel dev (ctrl_reg info p)
      (reg_set (ci_shift info) (ci_bits info) v (raw_readl dev (ctrl_reg info p) (ale_hw ale)))
      (ale_hw ale)\<rparr>"
    using set lk c(4) by (auto simp: set_eq split: if_splits)
  show "cpsw_ale_control_get dev port control ale' = Inr v"
    using lk c(4) v reg ci_fits [of c] by (simp add: get_eq ale' read_back reg_get_set)
  assume lk': "ale_control_lookup (ale_ports ale) port' control' = Inr (info', p')"
    and ne: "(control', p') \<noteq> (control, p)"
  obtain c' where c': "0 \<le> control'" "nat control' < length ale_control_enum"
    "c' = ale_control_enum ! nat control'" "info' = ale_controls c'" "p' \<le> ports"
    "ci_port_offset info' = 0 \<Longrightarrow> p' = 0" using lookup_Inr [OF lk'] ports by metis
  show "cpsw_ale_control_get dev port' control' ale' = cpsw_ale_control_get dev port' control' ale"
  proof (cases "ctrl_reg info' p' = ctrl_reg info p")
    case True
    then have off: "ci_offset info' = ci_offset info" "p' = p" using reg_same [OF c'(4-6) c(4-6)] by auto
    then have "control' \<noteq> control" using ne by simp
    then have "c' \<noteq> c" using c c' enum_distinct by (auto simp: nth_eq_iff_index_eq)
    then show ?thesis
      using ci_disjoint [of c' c] off lk' c(4) c'(4) v reg ci_fits [of c] ci_fits [of c'] True
      by (auto simp: get_eq ale' read_back reg_get_set_other)
  next
    case False
    then show ?thesis using lk' reg reg_class(1) [OF c'(4-6)]
      by (simp add: get_eq ale' read_other)
  qed
qed

end

section \<open>Properties\<close>

text \<open>
  C21.  Setting a port or unknown-VLAN control and reading it back gives the value; every other
  control reads as before, on that port and on the others.
\<close>

theorem ale_control_roundtrip:
  assumes "ale_ctrl dev (ale_ports ale)"
    "cpsw_ale_control_set dev port control v ale = (Inr (), ale')"
    "ale_control_lookup (ale_ports ale) port control = Inr (info, p)"
    "\<not> is_global (ale_control_enum ! nat control)"
  shows "cpsw_ale_control_get dev port control ale' = Inr v \<and>
    (\<forall>port' control' info' p'.
       ale_control_lookup (ale_ports ale) port' control' = Inr (info', p') \<longrightarrow>
       (control', p') \<noteq> (control, p) \<longrightarrow>
       cpsw_ale_control_get dev port' control' ale' = cpsw_ale_control_get dev port' control' ale)"
  using ale_ctrl.set_get [OF assms(1-3) refl assms(4)] by blast

theorem ale_control_roundtrip_witness:
  "cpsw_ale_control_get sim_dev 1 12 (snd (cpsw_ale_control_set sim_dev 1 12 3 sim_ale)) = Inr 3"
proof -
  have lk: "ale_control_lookup (ale_ports sim_ale) 1 12 = Inr (ale_controls ALE_PORT_STATE, 1)"
    by (simp add: ale_control_lookup_def ale_control_enum_def ctrl_defs sim_ale_def)
  have "cpsw_ale_control_set sim_dev 1 12 3 sim_ale =
        (Inr (), snd (cpsw_ale_control_set sim_dev 1 12 3 sim_ale))"
    by (simp add: set_eq lk BITMASK_def ctrl_defs)
  with lk show ?thesis
    using ale_control_roundtrip [of sim_dev sim_ale 1 12 3] sim_ctrl.ale_ctrl_axioms
    by (simp add: sim_ale_def is_global_def ale_control_enum_def ctrl_defs)
qed

text \<open>The arguments the two operations refuse.\<close>

definition bad_target :: "nat \<Rightarrow> int \<Rightarrow> int \<Rightarrow> bool" where
  "bad_target ports port control \<longleftrightarrow> control < 0 \<or> 23 \<le> control \<or>
     0 < ci_port_offset (ale_controls (ale_control_enum ! nat control)) \<and>
     (port < 0 \<or> int ports < port)"

definition too_wide :: "int \<Rightarrow> u32 \<Rightarrow> bool" where
  "too_wide control v \<longleftrightarrow> 2 ^ ci_bits (ale_controls (ale_control_enum ! nat control)) \<le> unat v"

text \<open>
  C22.  Setting a control fails with EINVAL, leaving driver and device as they were, exactly when
  the control number is none of the table's, the port of a port control is negative or above the
  number of ports, or the value does not fit the control's width, and else returns 0; reading fails
  with EINVAL exactly on the first two.
\<close>

theorem ale_control_errors:
  "(cpsw_ale_control_set dev port control v ale = (Inl EINVAL, ale)) =
     (bad_target (ale_ports ale) port control \<or> too_wide control v) \<and>
   (fst (cpsw_ale_control_set dev port control v ale) = Inr ()) =
     (\<not> (bad_target (ale_ports ale) port control \<or> too_wide control v)) \<and>
   (cpsw_ale_control_get dev port control ale = Inl EINVAL) =
     bad_target (ale_ports ale) port control"
proof -
  have bits: "ci_bits (ale_controls c) < 32" for c by (cases c) (simp_all add: ctrl_defs)
  have len: "length ale_control_enum = 23" by (simp add: ale_control_enum_def)
  show ?thesis
    by (auto simp: set_eq get_eq ale_control_lookup_def len Let_def fits_mask bits not_less bad_target_def
        too_wide_def split: sum.splits if_splits)
qed

end
