(* ===== verification/Knum.thy ===== *)
theory Knum
  imports Kernel_Prelude
begin

text \<open>
  Numbers as text: the parsers of \<^verbatim>\<open>lib/kstrtox.c\<close> and \<^verbatim>\<open>lib/vsprintf.c\<close> and the printer
  \<open>number\<close> of \<^verbatim>\<open>lib/vsprintf.c\<close>.  A C string is the list of its bytes; its terminator is the zero
  that \<open>char_at\<close> reads behind the end.
\<close>

section \<open>Characters\<close>

definition char_at :: "byte list \<Rightarrow> nat \<Rightarrow> byte" where
  "char_at s i = (if i < length s then s ! i else 0)"

definition to_lower :: "byte \<Rightarrow> byte" where "to_lower c = c OR 0x20"

definition isdigit :: "byte \<Rightarrow> bool" where "isdigit c \<longleftrightarrow> 0x30 \<le> c \<and> c \<le> 0x39"

definition isxdigit :: "byte \<Rightarrow> bool" where
  "isxdigit c \<longleftrightarrow> isdigit c \<or> 0x41 \<le> c \<and> c \<le> 0x46 \<or> 0x61 \<le> c \<and> c \<le> 0x66"

section \<open>Parsing\<close>

definition parse_integer_fixup_radix :: "byte list \<Rightarrow> nat \<Rightarrow> byte list \<times> nat" where
  "parse_integer_fixup_radix s base =
     (let base = (if base = 0
                  then if char_at s 0 = 0x30
                       then if to_lower (char_at s 1) = 0x78 \<and> isxdigit (char_at s 2) then 16 else 8
                       else 10
                  else base);
          s = (if base = 16 \<and> char_at s 0 = 0x30 \<and> to_lower (char_at s 1) = 0x78 then drop 2 s else s)
      in (s, base))"

text \<open>The value of a digit; \<open>None\<close> where the loop leaves.\<close>

definition digit_val :: "byte \<Rightarrow> nat option" where
  "digit_val c =
     (if 0x30 \<le> c \<and> c \<le> 0x39 then Some (unat (c - 0x30))
      else if 0x61 \<le> to_lower c \<and> to_lower c \<le> 0x66 then Some (unat (to_lower c - 0x61 + 10))
      else None)"

text \<open>The counter and the overflow bit are kept apart; the source ors them into one word.\<close>

fun parse_loop :: "byte list \<Rightarrow> nat \<Rightarrow> u64 \<Rightarrow> nat \<Rightarrow> bool \<Rightarrow> nat \<times> bool \<times> u64" where
  "parse_loop [] base res rv overflow = (rv, overflow, res)"
| "parse_loop (c # s) base res rv overflow =
     (if c = 0 then (rv, overflow, res)
      else case digit_val c of
             None \<Rightarrow> (rv, overflow, res)
           | Some v \<Rightarrow>
               (if base \<le> v then (rv, overflow, res)
                else parse_loop s base (res * of_nat base + of_nat v) (Suc rv)
                       (overflow \<or> unat res > (2 ^ 64 - 1 - v) div base)))"

definition parse_integer :: "byte list \<Rightarrow> nat \<Rightarrow> nat \<times> bool \<times> u64" where
  "parse_integer s base = parse_loop s base 0 0 False"

definition raw_kstrtoull :: "byte list \<Rightarrow> nat \<Rightarrow> u64 result" where
  "raw_kstrtoull s base =
     (case parse_integer_fixup_radix s base of (s, base) \<Rightarrow>
        case parse_integer s base of (rv, overflow, res) \<Rightarrow>
          if overflow then Inl ERANGE
          else if rv = 0 then Inl EINVAL
          else let s = drop rv s; s = (if char_at s 0 = 0x0a then drop 1 s else s)
               in if char_at s 0 \<noteq> 0 then Inl EINVAL else Inr res)"

definition kstrtoull :: "byte list \<Rightarrow> nat \<Rightarrow> u64 result" where
  "kstrtoull s base = raw_kstrtoull (if char_at s 0 = 0x2b then drop 1 s else s) base"

definition kstrtoll :: "byte list \<Rightarrow> nat \<Rightarrow> u64 result" where
  "kstrtoll s base =
     (if char_at s 0 = 0x2d
      then (case raw_kstrtoull (drop 1 s) base of
              Inl e \<Rightarrow> Inl e
            | Inr tmp \<Rightarrow> if 0 \<le> sint (- tmp) then Inl ERANGE else Inr (- tmp))
      else (case kstrtoull s base of
              Inl e \<Rightarrow> Inl e
            | Inr tmp \<Rightarrow> if sint tmp < 0 then Inl ERANGE else Inr tmp))"

text \<open>The narrower types: the value must survive the cast to the type and back.\<close>

definition narrow_unsigned :: "('a::len word \<Rightarrow> u64) \<Rightarrow> u64 result \<Rightarrow> 'a word result" where
  "narrow_unsigned widen r =
     (case r of Inl e \<Rightarrow> Inl e
      | Inr tmp \<Rightarrow> if tmp \<noteq> widen (ucast tmp) then Inl ERANGE else Inr (ucast tmp))"

definition kstrtoul :: "byte list \<Rightarrow> nat \<Rightarrow> 32 word result" where
  "kstrtoul s base = narrow_unsigned ucast (kstrtoull s base)"
definition kstrtol :: "byte list \<Rightarrow> nat \<Rightarrow> 32 word result" where
  "kstrtol s base = narrow_unsigned scast (kstrtoll s base)"
definition kstrtouint :: "byte list \<Rightarrow> nat \<Rightarrow> 32 word result" where
  "kstrtouint s base = narrow_unsigned ucast (kstrtoull s base)"
definition kstrtoint :: "byte list \<Rightarrow> nat \<Rightarrow> 32 word result" where
  "kstrtoint s base = narrow_unsigned scast (kstrtoll s base)"
definition kstrtou16 :: "byte list \<Rightarrow> nat \<Rightarrow> 16 word result" where
  "kstrtou16 s base = narrow_unsigned ucast (kstrtoull s base)"
definition kstrtos16 :: "byte list \<Rightarrow> nat \<Rightarrow> 16 word result" where
  "kstrtos16 s base = narrow_unsigned scast (kstrtoll s base)"
definition kstrtou8 :: "byte list \<Rightarrow> nat \<Rightarrow> 8 word result" where
  "kstrtou8 s base = narrow_unsigned ucast (kstrtoull s base)"
definition kstrtos8 :: "byte list \<Rightarrow> nat \<Rightarrow> 8 word result" where
  "kstrtos8 s base = narrow_unsigned scast (kstrtoll s base)"

text \<open>\<open>kstrto_from_user\<close>: \<open>user\<close> is the user's buffer, \<open>None\<close> where it cannot be read; \<open>bytes\<close> is the
  size of the result type.\<close>

definition kstrto_from_user ::
  "nat \<Rightarrow> (byte list \<Rightarrow> nat \<Rightarrow> 'r result) \<Rightarrow> byte list option \<Rightarrow> nat \<Rightarrow> nat \<Rightarrow> 'r result" where
  "kstrto_from_user bytes g user count base =
     (let count = min count (1 + bytes * 8 + 1)
      in case user of None \<Rightarrow> Inl EFAULT | Some u \<Rightarrow> g (take count u) base)"

definition kstrtoull_from_user :: "byte list option \<Rightarrow> nat \<Rightarrow> nat \<Rightarrow> u64 result" where
  "kstrtoull_from_user = kstrto_from_user 8 kstrtoull"
definition kstrtoll_from_user :: "byte list option \<Rightarrow> nat \<Rightarrow> nat \<Rightarrow> u64 result" where
  "kstrtoll_from_user = kstrto_from_user 8 kstrtoll"
definition kstrtoul_from_user :: "byte list option \<Rightarrow> nat \<Rightarrow> nat \<Rightarrow> 32 word result" where
  "kstrtoul_from_user = kstrto_from_user 4 kstrtoul"
definition kstrtol_from_user :: "byte list option \<Rightarrow> nat \<Rightarrow> nat \<Rightarrow> 32 word result" where
  "kstrtol_from_user = kstrto_from_user 4 kstrtol"
definition kstrtouint_from_user :: "byte list option \<Rightarrow> nat \<Rightarrow> nat \<Rightarrow> 32 word result" where
  "kstrtouint_from_user = kstrto_from_user 4 kstrtouint"
definition kstrtoint_from_user :: "byte list option \<Rightarrow> nat \<Rightarrow> nat \<Rightarrow> 32 word result" where
  "kstrtoint_from_user = kstrto_from_user 4 kstrtoint"
definition kstrtou16_from_user :: "byte list option \<Rightarrow> nat \<Rightarrow> nat \<Rightarrow> 16 word result" where
  "kstrtou16_from_user = kstrto_from_user 2 kstrtou16"
definition kstrtos16_from_user :: "byte list option \<Rightarrow> nat \<Rightarrow> nat \<Rightarrow> 16 word result" where
  "kstrtos16_from_user = kstrto_from_user 2 kstrtos16"
definition kstrtou8_from_user :: "byte list option \<Rightarrow> nat \<Rightarrow> nat \<Rightarrow> 8 word result" where
  "kstrtou8_from_user = kstrto_from_user 1 kstrtou8"
definition kstrtos8_from_user :: "byte list option \<Rightarrow> nat \<Rightarrow> nat \<Rightarrow> 8 word result" where
  "kstrtos8_from_user = kstrto_from_user 1 kstrtos8"

text \<open>The older parsers return the value and what follows the number.\<close>

definition simple_strtoull :: "byte list \<Rightarrow> nat \<Rightarrow> u64 \<times> byte list" where
  "simple_strtoull cp base =
     (case parse_integer_fixup_radix cp base of (cp, base) \<Rightarrow>
        case parse_integer cp base of (rv, overflow, result) \<Rightarrow> (result, drop rv cp))"

definition simple_strtoul :: "byte list \<Rightarrow> nat \<Rightarrow> u32 \<times> byte list" where
  "simple_strtoul cp base = (case simple_strtoull cp base of (r, s) \<Rightarrow> (ucast r, s))"

definition simple_strtol :: "byte list \<Rightarrow> nat \<Rightarrow> u32 \<times> byte list" where
  "simple_strtol cp base =
     (if char_at cp 0 = 0x2d then (case simple_strtoul (drop 1 cp) base of (r, s) \<Rightarrow> (- r, s))
      else simple_strtoul cp base)"

definition simple_strtoll :: "byte list \<Rightarrow> nat \<Rightarrow> u64 \<times> byte list" where
  "simple_strtoll cp base =
     (if char_at cp 0 = 0x2d then (case simple_strtoull (drop 1 cp) base of (r, s) \<Rightarrow> (- r, s))
      else simple_strtoull cp base)"

section \<open>Printing\<close>

definition dec_char :: "u32 \<Rightarrow> byte" where "dec_char d = ucast (d + 0x30)"

definition put_dec_trunc :: "u32 \<Rightarrow> byte list" where
  "put_dec_trunc q =
     (let d1 = drop_bit 4 q AND 0xf; d2 = drop_bit 8 q AND 0xf; d3 = drop_bit 12 q;
          d0 = 6 * (d3 + d2 + d1) + (q AND 0xf);
          q = drop_bit 11 (d0 * 0xcd);
          d0 = d0 - 10 * q;
          d1 = q + 9 * d3 + 5 * d2 + d1
      in dec_char d0 #
         (if d1 = 0 then []
          else let q = drop_bit 11 (d1 * 0xcd); d1 = d1 - 10 * q; d2 = q + 2 * d2
               in dec_char d1 #
                  (if d2 = 0 \<and> d3 = 0 then []
                   else let q = drop_bit 7 (d2 * 0xd); d2 = d2 - 10 * q; d3 = q + 4 * d3
                        in dec_char d2 #
                           (if d3 = 0 then []
                            else let q = drop_bit 11 (d3 * 0xcd); d3 = d3 - 10 * q
                                 in dec_char d3 # (if q = 0 then [] else [dec_char q])))))"

definition put_dec_full :: "u32 \<Rightarrow> byte list" where
  "put_dec_full q =
     (let d1 = drop_bit 4 q AND 0xf; d2 = drop_bit 8 q AND 0xf; d3 = drop_bit 12 q;
          d0 = 6 * (d3 + d2 + d1) + (q AND 0xf);
          q = drop_bit 11 (d0 * 0xcd);
          d0 = d0 - 10 * q;
          d1 = q + 9 * d3 + 5 * d2 + d1;
          q = drop_bit 11 (d1 * 0xcd);
          d1 = d1 - 10 * q;
          d2 = q + 2 * d2;
          q = drop_bit 7 (d2 * 0xd);
          d2 = d2 - 10 * q;
          d3 = q + 4 * d3;
          q = drop_bit 11 (d3 * 0xcd);
          d3 = d3 - 10 * q
      in [dec_char d0, dec_char d1, dec_char d2, dec_char d3, dec_char q])"

function put_dec :: "u64 \<Rightarrow> byte list" where
  "put_dec num =
     (if num < 100000 then put_dec_trunc (ucast num)
      else put_dec_full (ucast (num mod 100000)) @ put_dec (num div 100000))"
  by pat_completeness auto
termination
  by (relation "measure unat")
     (auto simp: unat_div word_less_nat_alt intro!: div_less_dividend)

declare put_dec.simps [simp del]

definition ZEROPAD :: u8 where "ZEROPAD = 1"
definition SIGN :: u8 where "SIGN = 2"
definition PLUS :: u8 where "PLUS = 4"
definition SPACE :: u8 where "SPACE = 8"
definition LEFT :: u8 where "LEFT = 16"
definition SMALL :: u8 where "SMALL = 32"
definition SPECIAL :: u8 where "SPECIAL = 64"

lemmas format_flags = ZEROPAD_def SIGN_def PLUS_def SPACE_def LEFT_def SMALL_def SPECIAL_def

datatype (plugins only: code size) format_type =
    FORMAT_TYPE_NONE | FORMAT_TYPE_WIDTH | FORMAT_TYPE_PRECISION | FORMAT_TYPE_CHAR | FORMAT_TYPE_STR
  | FORMAT_TYPE_PTR | FORMAT_TYPE_PERCENT_CHAR | FORMAT_TYPE_INVALID | FORMAT_TYPE_LONG_LONG
  | FORMAT_TYPE_ULONG | FORMAT_TYPE_LONG | FORMAT_TYPE_UBYTE | FORMAT_TYPE_BYTE | FORMAT_TYPE_USHORT
  | FORMAT_TYPE_SHORT | FORMAT_TYPE_UINT | FORMAT_TYPE_INT | FORMAT_TYPE_NRCHARS | FORMAT_TYPE_SIZE_T
  | FORMAT_TYPE_PTRDIFF

text \<open>The two 16-bit members are integers; \<open>s16\<close> is the conversion every store to them makes.\<close>

record printf_spec =
  ps_type :: format_type
  ps_flags :: u8
  ps_base :: nat
  ps_qualifier :: u8
  field_width :: int
  precision :: int

definition s16 :: "int \<Rightarrow> int" where "s16 x = (x + 32768) mod 65536 - 32768"

text \<open>The digits \<open>"0123456789ABCDEF"\<close>.\<close>

definition digit_char :: "nat \<Rightarrow> byte" where
  "digit_char d = of_nat (if d < 10 then 0x30 + d else 0x37 + d)"

function pow2_digits :: "bool \<Rightarrow> byte \<Rightarrow> u64 \<Rightarrow> byte list" where
  "pow2_digits hex locase num =
     (let d = digit_char (unat (num AND (if hex then 15 else 7))) OR locase;
          num = drop_bit (if hex then 4 else 3) num
      in d # (if num = 0 then [] else pow2_digits hex locase num))"
  by pat_completeness auto
termination
proof (relation "measure (\<lambda>(h, l, num). unat num)", simp)
  fix hex :: bool and locase :: byte and num x y :: u64
  assume "y = drop_bit (if hex then 4 else 3) num" "y \<noteq> 0"
  then have "unat y = unat num div 2 ^ (if hex then 4 else 3)" "0 < unat num"
    by (auto simp: drop_bit_eq_div unat_gt_0 unat_div)
  then show "((hex, locase, y), hex, locase, num) \<in> measure (\<lambda>(h, l, num). unat num)"
    by (simp add: div_less_dividend split: if_splits)
qed

declare pow2_digits.simps [simp del]

text \<open>\<open>while (--fw >= 0) emit c\<close>: what is emitted, and the value of \<open>fw\<close> after it.\<close>

definition pad :: "byte \<Rightarrow> int \<Rightarrow> byte list" where "pad c fw = replicate (nat (s16 (fw - 1) + 1)) c"
definition pad_left :: "int \<Rightarrow> int" where "pad_left fw = min (s16 (fw - 1)) (- 1)"

definition number_sign :: "u8 \<Rightarrow> u64 \<Rightarrow> byte list" where
  "number_sign flags num =
     (if flags AND SIGN = 0 then []
      else if sint num < 0 then [0x2d]
      else if flags AND PLUS \<noteq> 0 then [0x2b]
      else if flags AND SPACE \<noteq> 0 then [0x20] else [])"

text \<open>The characters \<open>number\<close> sends to the buffer, in order.\<close>

definition number_chars :: "u64 \<Rightarrow> printf_spec \<Rightarrow> byte list" where
  "number_chars num spec =
     (let base = ps_base spec;
          need_pfx = (ps_flags spec AND SPECIAL \<noteq> 0 \<and> base \<noteq> 10);
          locase = ps_flags spec AND SMALL;
          flags = (if ps_flags spec AND LEFT \<noteq> 0 then ps_flags spec AND NOT ZEROPAD else ps_flags spec);
          sign = number_sign flags num;
          num = (if sign = [0x2d] then - num else num);
          fw = s16 (field_width spec - int (length sign));
          fw = s16 (fw - (if need_pfx then if base = 16 then 2 else 1 else 0));
          tmp = (if num = 0 then [0x30]
                 else if base \<noteq> 10 then pow2_digits (base = 16) locase num else put_dec num);
          i = int (length tmp);
          prec = (if i > precision spec then i else precision spec);
          fw = s16 (fw - prec);
          lead = (flags AND (ZEROPAD + LEFT) = 0);
          out1 = (if lead then pad 0x20 fw else []);
          fw = (if lead then pad_left fw else fw);
          pfx = (if need_pfx then 0x30 # (if base = 16 then [0x58 OR locase] else []) else []);
          right = (flags AND LEFT = 0);
          out2 = (if right then pad (if flags AND ZEROPAD \<noteq> 0 then 0x30 else 0x20) fw else []);
          fw = (if right then pad_left fw else fw)
      in out1 @ sign @ pfx @ out2 @ replicate (nat (prec - i)) 0x30 @ rev tmp @ pad 0x20 fw)"

text \<open>A write through \<open>buf\<close> happens only below \<open>end\<close>, the pointer always moves.\<close>

definition emit :: "byte \<Rightarrow> byte list \<times> nat \<Rightarrow> byte list \<times> nat" where
  "emit c st = (case st of (mem, buf) \<Rightarrow> (if buf < length mem then mem[buf := c] else mem, Suc buf))"

definition number :: "byte list \<times> nat \<Rightarrow> u64 \<Rightarrow> printf_spec \<Rightarrow> byte list \<times> nat" where
  "number st num spec = fold emit (number_chars num spec) st"

end
