(* ===== verification/Vsprintf.thy ===== *)
theory Vsprintf
  imports Knum
begin

text \<open>
  The formatted printer of \<^verbatim>\<open>lib/vsprintf.c\<close>: the decoder of format strings, the conversions, the
  pointer extensions for hardware and network addresses, and the loop of \<open>vsnprintf\<close>.
  A variable argument has the class it was passed with; taking one of another class or one too many is
  undefined in C and gives \<open>None\<close>.  So do the pointer extensions that print symbols (\<open>F f S s B\<close>),
  resources (\<open>R r\<close>) and nested formats (\<open>V\<close>), which are not modelled.
\<close>

section \<open>Decoding a format\<close>

fun skip_atoi :: "byte list \<Rightarrow> int \<Rightarrow> int \<times> byte list" where
  "skip_atoi (c # s) i =
     (if isdigit c then skip_atoi s (i * 10 + int (unat c) - 48) else (i, c # s))"
| "skip_atoi [] i = (i, [])"

fun format_flags_loop :: "byte list \<Rightarrow> u8 \<Rightarrow> byte list \<times> u8" where
  "format_flags_loop (c # fmt) flags =
     (if c = 0x2d then format_flags_loop fmt (flags OR LEFT)
      else if c = 0x2b then format_flags_loop fmt (flags OR PLUS)
      else if c = 0x20 then format_flags_loop fmt (flags OR SPACE)
      else if c = 0x23 then format_flags_loop fmt (flags OR SPECIAL)
      else if c = 0x30 then format_flags_loop fmt (flags OR ZEROPAD)
      else (c # fmt, flags))"
| "format_flags_loop [] flags = ([], flags)"

text \<open>The type of an integer conversion, from its qualifier and sign.\<close>

definition int_type :: "u8 \<Rightarrow> u8 \<Rightarrow> format_type" where
  "int_type qualifier flags =
     (let signed = (flags AND SIGN \<noteq> 0)
      in if qualifier = 0x4c then FORMAT_TYPE_LONG_LONG
         else if qualifier = 0x6c then if signed then FORMAT_TYPE_LONG else FORMAT_TYPE_ULONG
         else if to_lower qualifier = 0x7a then FORMAT_TYPE_SIZE_T
         else if qualifier = 0x74 then FORMAT_TYPE_PTRDIFF
         else if qualifier = 0x48 then if signed then FORMAT_TYPE_BYTE else FORMAT_TYPE_UBYTE
         else if qualifier = 0x68 then if signed then FORMAT_TYPE_SHORT else FORMAT_TYPE_USHORT
         else if signed then FORMAT_TYPE_INT else FORMAT_TYPE_UINT)"

text \<open>The conversion character, behind the qualifier.\<close>

definition decode_conversion :: "byte list \<Rightarrow> printf_spec \<Rightarrow> byte list \<times> printf_spec" where
  "decode_conversion fmt spec =
     (let c = char_at fmt 0; spec = spec\<lparr>ps_base := 10\<rparr>;
          done = (\<lambda>t. (drop 1 fmt, spec\<lparr>ps_type := t\<rparr>));
          integer = (\<lambda>flags base. (drop 1 fmt,
             spec\<lparr>ps_flags := flags, ps_base := base, ps_type := int_type (ps_qualifier spec) flags\<rparr>))
      in if c = 0x63 then done FORMAT_TYPE_CHAR
         else if c = 0x73 then done FORMAT_TYPE_STR
         else if c = 0x70 then (fmt, spec\<lparr>ps_type := FORMAT_TYPE_PTR\<rparr>)
         else if c = 0x6e then done FORMAT_TYPE_NRCHARS
         else if c = 0x25 then done FORMAT_TYPE_PERCENT_CHAR
         else if c = 0x6f then integer (ps_flags spec) 8
         else if c = 0x78 then integer (ps_flags spec OR SMALL) 16
         else if c = 0x58 then integer (ps_flags spec) 16
         else if c = 0x64 \<or> c = 0x69 then integer (ps_flags spec OR SIGN) 10
         else if c = 0x75 then integer (ps_flags spec) 10
         else (fmt, spec\<lparr>ps_type := FORMAT_TYPE_INVALID\<rparr>))"

text \<open>From the label \<open>qualifier\<close> on.\<close>

definition decode_qualifier :: "byte list \<Rightarrow> printf_spec \<Rightarrow> byte list \<times> printf_spec" where
  "decode_qualifier fmt spec =
     (let c = char_at fmt 0
      in if c = 0x68 \<or> to_lower c = 0x6c \<or> to_lower c = 0x7a \<or> c = 0x74
         then if char_at fmt 1 = c \<and> c = 0x6c
              then decode_conversion (drop 2 fmt) (spec\<lparr>ps_qualifier := 0x4c\<rparr>)
              else if char_at fmt 1 = c \<and> c = 0x68
              then decode_conversion (drop 2 fmt) (spec\<lparr>ps_qualifier := 0x48\<rparr>)
              else decode_conversion (drop 1 fmt) (spec\<lparr>ps_qualifier := c\<rparr>)
         else decode_conversion fmt (spec\<lparr>ps_qualifier := - 1\<rparr>))"

text \<open>From the label \<open>precision\<close> on.\<close>

definition decode_precision :: "byte list \<Rightarrow> printf_spec \<Rightarrow> byte list \<times> printf_spec" where
  "decode_precision fmt spec =
     (if char_at fmt 0 = 0x2e
      then let fmt = drop 1 fmt
           in if isdigit (char_at fmt 0)
              then case skip_atoi fmt 0 of (p, fmt) \<Rightarrow>
                     decode_qualifier fmt (spec\<lparr>precision := max (s16 p) 0\<rparr>)
              else if char_at fmt 0 = 0x2a
              then (drop 1 fmt, spec\<lparr>precision := - 1, ps_type := FORMAT_TYPE_PRECISION\<rparr>)
              else decode_qualifier fmt (spec\<lparr>precision := - 1\<rparr>)
      else decode_qualifier fmt (spec\<lparr>precision := - 1\<rparr>))"

definition decode_width :: "byte list \<Rightarrow> printf_spec \<Rightarrow> byte list \<times> printf_spec" where
  "decode_width fmt spec =
     (if isdigit (char_at fmt 0)
      then case skip_atoi fmt 0 of (w, fmt) \<Rightarrow> decode_precision fmt (spec\<lparr>field_width := s16 w\<rparr>)
      else if char_at fmt 0 = 0x2a
      then (drop 1 fmt, spec\<lparr>field_width := - 1, ps_type := FORMAT_TYPE_WIDTH\<rparr>)
      else decode_precision fmt (spec\<lparr>field_width := - 1\<rparr>))"

definition plain_char :: "byte \<Rightarrow> bool" where "plain_char c \<longleftrightarrow> c \<noteq> 0 \<and> c \<noteq> 0x25"

text \<open>\<open>format_decode\<close>: what is left of the format, and the decoded token.\<close>

definition format_decode :: "byte list \<Rightarrow> printf_spec \<Rightarrow> byte list \<times> printf_spec" where
  "format_decode fmt spec =
     (if ps_type spec = FORMAT_TYPE_WIDTH
      then decode_precision fmt
             ((if field_width spec < 0
               then spec\<lparr>field_width := s16 (- field_width spec), ps_flags := ps_flags spec OR LEFT\<rparr>
               else spec)\<lparr>ps_type := FORMAT_TYPE_NONE\<rparr>)
      else if ps_type spec = FORMAT_TYPE_PRECISION
      then decode_qualifier fmt (spec\<lparr>precision := max (precision spec) 0, ps_type := FORMAT_TYPE_NONE\<rparr>)
      else let spec = spec\<lparr>ps_type := FORMAT_TYPE_NONE\<rparr>
           in if char_at fmt 0 \<noteq> 0x25 then (dropWhile plain_char fmt, spec)
              else case format_flags_loop (drop 1 fmt) 0 of (fmt, flags) \<Rightarrow>
                     decode_width fmt (spec\<lparr>ps_flags := flags\<rparr>))"

section \<open>Conversions\<close>

datatype va_arg =
    VInt u32
  | VLong u64
  | VStr "byte list option"
  | VPtr u32 "byte list"
  | VCount

text \<open>The characters of \<open>string\<close>: \<open>s\<close> is the string without its terminator.\<close>

definition strnlen :: "byte list \<Rightarrow> int \<Rightarrow> nat" where
  "strnlen s count = (let n = length (takeWhile (\<lambda>c. c \<noteq> 0) s) in if count < 0 then n else min n (nat count))"

definition str_null :: "byte list" where "str_null = [0x28, 0x6e, 0x75, 0x6c, 0x6c, 0x29]"

definition string_chars :: "byte list \<Rightarrow> printf_spec \<Rightarrow> byte list" where
  "string_chars s spec =
     (let len = strnlen s (precision spec); fw = field_width spec;
          left = (ps_flags spec AND LEFT \<noteq> 0);
          out1 = (if left then [] else replicate (nat (fw - int len)) 0x20);
          fw = (if left then fw else s16 (min fw (int len) - 1))
      in out1 @ take len s @ replicate (nat (fw - int len)) 0x20)"

text \<open>\<open>while (--field_width > 0)\<close> of the character conversion.\<close>

definition char_pad :: "int \<Rightarrow> byte list" where "char_pad fw = replicate (nat (s16 (fw - 1))) 0x20"
definition char_pad_left :: "int \<Rightarrow> int" where "char_pad_left fw = min (s16 (fw - 1)) 0"

definition char_chars :: "byte \<Rightarrow> printf_spec \<Rightarrow> byte list" where
  "char_chars c spec =
     (let fw = field_width spec; right = (ps_flags spec AND LEFT = 0)
      in (if right then char_pad fw else []) @ [c] @ char_pad (if right then char_pad_left fw else fw))"

text \<open>The value of an integer conversion, widened to 64 bits as its type says.\<close>

definition int_value :: "format_type \<Rightarrow> va_arg \<Rightarrow> u64 option" where
  "int_value t a =
     (case a of
        VLong x \<Rightarrow> if t = FORMAT_TYPE_LONG_LONG then Some x else None
      | VInt x \<Rightarrow>
          if t = FORMAT_TYPE_LONG_LONG then None
          else if t \<in> {FORMAT_TYPE_LONG, FORMAT_TYPE_PTRDIFF, FORMAT_TYPE_INT} then Some (scast x)
          else if t = FORMAT_TYPE_UBYTE then Some (ucast (ucast x :: 8 word))
          else if t = FORMAT_TYPE_BYTE then Some (scast (ucast x :: 8 word))
          else if t = FORMAT_TYPE_USHORT then Some (ucast (ucast x :: 16 word))
          else if t = FORMAT_TYPE_SHORT then Some (scast (ucast x :: 16 word))
          else Some (ucast x)
      | _ \<Rightarrow> None)"

section \<open>Addresses\<close>

definition hex_asc :: "nat \<Rightarrow> byte" where "hex_asc d = of_nat (if d < 10 then 0x30 + d else 0x57 + d)"

definition hex_byte_pack :: "u8 \<Rightarrow> byte list" where
  "hex_byte_pack b = [hex_asc (unat ((b AND 0xf0) div 16)), hex_asc (unat (b AND 0x0f))]"

definition hex_to_bin :: "byte \<Rightarrow> int" where
  "hex_to_bin ch =
     (if 0x30 \<le> ch \<and> ch \<le> 0x39 then int (unat ch) - 0x30
      else let ch = (if 0x41 \<le> ch \<and> ch \<le> 0x5a \<or> 0xc0 \<le> ch \<and> ch \<le> 0xde \<and> ch \<noteq> 0xd7 then ch + 0x20 else ch)
           in if 0x61 \<le> ch \<and> ch \<le> 0x66 then int (unat ch) - 0x61 + 10 else - 1)"

text \<open>\<open>hex2bin\<close>: the bytes stored, and whether the result is 0.\<close>

fun hex2bin :: "byte list \<Rightarrow> nat \<Rightarrow> u8 list \<times> bool" where
  "hex2bin src 0 = ([], True)"
| "hex2bin src (Suc count) =
     (let hi = hex_to_bin (char_at src 0); lo = hex_to_bin (char_at src 1)
      in if hi < 0 \<or> lo < 0 then ([], False)
         else case hex2bin (drop 2 src) count of (dst, ok) \<Rightarrow>
                ((word_of_int (hi * 16) OR word_of_int lo) # dst, ok))"

definition byte_at :: "byte list \<Rightarrow> nat \<Rightarrow> byte option" where
  "byte_at addr i = (if i < length addr then Some (addr ! i) else None)"

definition bytes_at :: "byte list \<Rightarrow> nat list \<Rightarrow> byte list option" where
  "bytes_at addr is = those (map (byte_at addr) is)"

definition mac_address_chars :: "byte list \<Rightarrow> byte list \<Rightarrow> byte list option" where
  "mac_address_chars addr fmt =
     (let separator = (if char_at fmt 1 = 0x46 then 0x2d else 0x3a)
      in case bytes_at addr [0..<6] of
           None \<Rightarrow> None
         | Some bs \<Rightarrow> Some (concat (map (\<lambda>i. hex_byte_pack (bs ! i) @
               (if char_at fmt 0 = 0x4d \<and> i \<noteq> 5 then [separator] else [])) [0..<6])))"

definition ip4_chars :: "byte list \<Rightarrow> byte list \<Rightarrow> byte list option" where
  "ip4_chars addr fmt =
     (let leading_zeros = (char_at fmt 0 = 0x69);
          order = (if char_at fmt 2 = 0x68 \<or> char_at fmt 2 = 0x6c then [3, 2, 1, 0] else [0, 1, 2, 3])
      in case bytes_at addr order of
           None \<Rightarrow> None
         | Some bs \<Rightarrow> Some (concat (map (\<lambda>i.
             let temp = put_dec_trunc (ucast (bs ! i))
             in (if leading_zeros then replicate (3 - length temp) 0x30 else []) @ rev temp @
                (if i < 3 then [0x2e] else [])) [0..<4])))"

definition ip6_chars :: "byte list \<Rightarrow> byte list \<Rightarrow> byte list option" where
  "ip6_chars addr fmt =
     (case bytes_at addr [0..<16] of
        None \<Rightarrow> None
      | Some bs \<Rightarrow> Some (concat (map (\<lambda>i. hex_byte_pack (bs ! (2 * i)) @ hex_byte_pack (bs ! (2 * i + 1)) @
            (if char_at fmt 0 = 0x49 \<and> i \<noteq> 7 then [0x3a] else [])) [0..<8])))"

definition uuid_be :: "nat list" where "uuid_be = [0, 1, 2, 3, 4, 5, 6, 7, 8, 9, 10, 11, 12, 13, 14, 15]"
definition uuid_le :: "nat list" where "uuid_le = [3, 2, 1, 0, 5, 4, 7, 6, 8, 9, 10, 11, 12, 13, 14, 15]"

definition toupper :: "byte \<Rightarrow> byte" where
  "toupper c = (if 0x61 \<le> c \<and> c \<le> 0x7a \<or> 0xdf \<le> c \<and> c \<noteq> 0xf7 then c - 0x20 else c)"

definition uuid_chars :: "byte list \<Rightarrow> byte list \<Rightarrow> byte list option" where
  "uuid_chars addr fmt =
     (let c = char_at fmt 1; uc = (c = 0x4c \<or> c = 0x42);
          index = (if c = 0x4c \<or> c = 0x6c then uuid_le else uuid_be)
      in case bytes_at addr index of
           None \<Rightarrow> None
         | Some bs \<Rightarrow>
             (let uuid = concat (map (\<lambda>i. hex_byte_pack (bs ! i) @
                    (if i = 3 \<or> i = 5 \<or> i = 7 \<or> i = 9 then [0x2d] else [])) [0..<16])
              in Some (if uc then map toupper uuid else uuid)))"


text \<open>The compressed form of an IPv6 address.  The halfwords are in network order: halfword \<open>i\<close> is bytes
  \<open>2 i\<close> and \<open>2 i + 1\<close>.\<close>

definition ip6_halfword :: "byte list \<Rightarrow> nat \<Rightarrow> u8 \<times> u8" where
  "ip6_halfword bs i = (bs ! (2 * i), bs ! (2 * i + 1))"

definition ipv6_addr_v4mapped :: "byte list \<Rightarrow> bool" where
  "ipv6_addr_v4mapped bs \<longleftrightarrow> (\<forall>i \<in> set [0..<10]. bs ! i = 0) \<and> bs ! 10 = 0xff \<and> bs ! 11 = 0xff"

definition ipv6_addr_is_isatap :: "byte list \<Rightarrow> bool" where
  "ipv6_addr_is_isatap bs \<longleftrightarrow> bs ! 8 OR 0x02 = 0x02 \<and> bs ! 9 = 0 \<and> bs ! 10 = 0x5e \<and> bs ! 11 = 0xfe"

definition zerolength :: "byte list \<Rightarrow> nat \<Rightarrow> nat \<Rightarrow> nat" where
  "zerolength bs rng i = length (takeWhile (\<lambda>j. ip6_halfword bs j = (0, 0)) [i..<rng])"

definition longest_zeros :: "byte list \<Rightarrow> nat \<Rightarrow> nat \<times> nat option" where
  "longest_zeros bs rng =
     (case fold (\<lambda>i (longest, colonpos).
          if zerolength bs rng i > longest then (zerolength bs rng i, Some i) else (longest, colonpos))
        [0..<rng] (1, None) of
        (longest, colonpos) \<Rightarrow> (longest, if longest = 1 then None else colonpos))"

definition halfword_chars :: "u8 \<times> u8 \<Rightarrow> byte list" where
  "halfword_chars w =
     (case w of (hi, lo) \<Rightarrow>
        if hi \<noteq> 0
        then (if hi > 0x0f then hex_byte_pack hi else [hex_asc (unat (hi AND 0x0f))]) @ hex_byte_pack lo
        else if lo > 0x0f then hex_byte_pack lo else [hex_asc (unat (lo AND 0x0f))])"

function ip6_emit :: "byte list \<Rightarrow> nat \<Rightarrow> nat \<Rightarrow> nat option \<Rightarrow> nat \<Rightarrow> bool \<Rightarrow> byte list \<times> bool" where
  "ip6_emit bs rng longest colonpos i needcolon =
     (if rng \<le> i then ([], needcolon)
      else if Some i = colonpos
      then (case ip6_emit bs rng longest colonpos (i + max 1 longest) False of (out, nc) \<Rightarrow>
              ((if needcolon \<or> i = 0 then [0x3a] else []) @ [0x3a] @ out, nc))
      else (case ip6_emit bs rng longest colonpos (i + 1) True of (out, nc) \<Rightarrow>
              ((if needcolon then [0x3a] else []) @ halfword_chars (ip6_halfword bs i) @ out, nc)))"
  by pat_completeness auto
termination
  by (relation "measure (\<lambda>(bs, rng, longest, colonpos, i, nc). rng - i)") auto

declare ip6_emit.simps [simp del]

definition ip6_compressed_chars :: "byte list \<Rightarrow> byte list option" where
  "ip6_compressed_chars addr =
     (case bytes_at addr [0..<16] of
        None \<Rightarrow> None
      | Some bs \<Rightarrow>
          (let useIPv4 = (ipv6_addr_v4mapped bs \<or> ipv6_addr_is_isatap bs);
               rng = (if useIPv4 then 6 else 8)
           in case longest_zeros bs rng of (longest, colonpos) \<Rightarrow>
              case ip6_emit bs rng longest colonpos 0 False of (out, needcolon) \<Rightarrow>
                if useIPv4
                then map_option (\<lambda>v4. out @ (if needcolon then [0x3a] else []) @ v4)
                       (ip4_chars (drop 12 bs) [0x49, 0x34])
                else Some out))"

section \<open>Pointers\<close>

text \<open>What \<open>%pK\<close> asks of the running task: whether it is in an interrupt, the sysctl \<open>kptr_restrict\<close>, and
  whether the task has \<open>CAP_SYSLOG\<close>.\<close>

record print_env =
  in_interrupt :: bool
  kptr_restrict :: int
  cap_syslog :: bool

definition ptr_width :: "printf_spec \<Rightarrow> printf_spec" where
  "ptr_width spec = (if field_width spec = - 1 then spec\<lparr>field_width := 8\<rparr> else spec)"

definition plain_pointer :: "u32 \<Rightarrow> printf_spec \<Rightarrow> byte list" where
  "plain_pointer ptr spec =
     (let flags = ps_flags spec OR SMALL;
          flags = (if field_width spec = - 1 then flags OR ZEROPAD else flags)
      in number_chars (ucast ptr) (ptr_width spec\<lparr>ps_flags := flags, ps_base := 16\<rparr>))"

definition str_pK_error :: "byte list" where
  "str_pK_error = [0x70, 0x4b, 0x2d, 0x65, 0x72, 0x72, 0x6f, 0x72]"

definition pointer_chars :: "print_env \<Rightarrow> byte list \<Rightarrow> u32 \<Rightarrow> byte list \<Rightarrow> printf_spec \<Rightarrow> byte list option" where
  "pointer_chars env fmt ptr obj spec =
     (let c = char_at fmt 0; str = map_option (\<lambda>s. string_chars s spec)
      in if ptr = 0 \<and> c \<noteq> 0x4b then Some (string_chars str_null (ptr_width spec))
         else if c \<in> {0x46, 0x66, 0x53, 0x73, 0x42, 0x52, 0x72, 0x56} then None
         else if c = 0x4d \<or> c = 0x6d then str (mac_address_chars obj fmt)
         else if (c = 0x49 \<or> c = 0x69) \<and> char_at fmt 1 = 0x36
         then str (if c = 0x49 \<and> char_at fmt 2 = 0x63 then ip6_compressed_chars obj else ip6_chars obj fmt)
         else if (c = 0x49 \<or> c = 0x69) \<and> char_at fmt 1 = 0x34 then str (ip4_chars obj fmt)
         else if c = 0x55 then str (uuid_chars obj fmt)
         else if c = 0x4b
         then if in_interrupt env then Some (string_chars str_pK_error (ptr_width spec))
              else Some (plain_pointer
                     (if kptr_restrict env = 0 \<or> kptr_restrict env = 1 \<and> cap_syslog env then ptr else 0) spec)
         else Some (plain_pointer ptr spec))"

section \<open>The loop of \<open>vsnprintf\<close>\<close>

definition isalnum :: "byte \<Rightarrow> bool" where
  "isalnum c \<longleftrightarrow> isdigit c \<or> 0x41 \<le> c \<and> c \<le> 0x5a \<or> 0x61 \<le> c \<and> c \<le> 0x7a \<or>
     0xc0 \<le> c \<and> c \<noteq> 0xd7 \<and> c \<noteq> 0xf7"

text \<open>A conversion: the characters it sends to the buffer, the format behind it, the arguments left, the
  decoder's state, and what \<open>%n\<close> stores; \<open>pos\<close> is the number of characters printed before it.\<close>

definition vsn_convert ::
  "print_env \<Rightarrow> printf_spec \<Rightarrow> byte list \<Rightarrow> va_arg list \<Rightarrow> nat \<Rightarrow>
   (byte list \<times> byte list \<times> va_arg list \<times> printf_spec \<times> nat list) option" where
  "vsn_convert env spec fmt args pos =
     (let t = ps_type spec
      in if t = FORMAT_TYPE_PERCENT_CHAR \<or> t = FORMAT_TYPE_INVALID then Some ([0x25], fmt, args, spec, [])
         else case args of
           [] \<Rightarrow> None
         | a # args \<Rightarrow>
             if t = FORMAT_TYPE_WIDTH
             then (case a of VInt x \<Rightarrow> Some ([], fmt, args, spec\<lparr>field_width := s16 (sint x)\<rparr>, []) | _ \<Rightarrow> None)
             else if t = FORMAT_TYPE_PRECISION
             then (case a of VInt x \<Rightarrow> Some ([], fmt, args, spec\<lparr>precision := s16 (sint x)\<rparr>, []) | _ \<Rightarrow> None)
             else if t = FORMAT_TYPE_CHAR
             then (case a of VInt x \<Rightarrow> Some (char_chars (ucast x) spec, fmt, args, spec, []) | _ \<Rightarrow> None)
             else if t = FORMAT_TYPE_STR
             then (case a of VStr s \<Rightarrow> Some (string_chars (case s of None \<Rightarrow> str_null | Some s \<Rightarrow> s) spec, fmt, args, spec, [])
                   | _ \<Rightarrow> None)
             else if t = FORMAT_TYPE_PTR
             then (case a of
                     VPtr ptr obj \<Rightarrow> map_option (\<lambda>out. (out, dropWhile isalnum fmt, args, spec, []))
                       (pointer_chars env (drop 1 fmt) ptr obj spec)
                   | _ \<Rightarrow> None)
             else if t = FORMAT_TYPE_NRCHARS
             then (case a of VCount \<Rightarrow> Some ([], fmt, args, spec, [pos]) | _ \<Rightarrow> None)
             else map_option (\<lambda>num. (number_chars num spec, fmt, args, spec, [])) (int_value t a))"


text \<open>The literal part of a format, copied by \<open>memcpy\<close> as far as the buffer goes.\<close>

definition put_literal :: "byte list \<Rightarrow> byte list \<times> nat \<Rightarrow> byte list \<times> nat" where
  "put_literal lit st =
     (case st of (mem, str) \<Rightarrow>
        let copy = min (length lit) (length mem - str)
        in (if str < length mem then take str mem @ take copy lit @ drop (str + copy) mem else mem,
            str + length lit))"

text \<open>The decoder waits for an argument of the format.\<close>

definition awaits_arg :: "printf_spec \<Rightarrow> bool" where
  "awaits_arg spec \<longleftrightarrow> ps_type spec = FORMAT_TYPE_WIDTH \<or> ps_type spec = FORMAT_TYPE_PRECISION"

lemma skip_atoi_length: "length (snd (skip_atoi s i)) \<le> length s"
  by (induction s i rule: skip_atoi.induct) auto

lemma format_flags_loop_length: "length (fst (format_flags_loop s f)) \<le> length s"
  by (induction s f rule: format_flags_loop.induct) auto

lemma int_type_final:
  "int_type q f \<noteq> FORMAT_TYPE_NONE \<and> int_type q f \<noteq> FORMAT_TYPE_WIDTH \<and> int_type q f \<noteq> FORMAT_TYPE_PRECISION"
  by (simp add: int_type_def Let_def)

definition decoded :: "byte list \<Rightarrow> byte list \<times> printf_spec \<Rightarrow> bool" where
  "decoded fmt r \<longleftrightarrow> length (fst r) \<le> length fmt \<and> ps_type (snd r) \<noteq> FORMAT_TYPE_NONE \<and>
     (awaits_arg (snd r) \<longrightarrow> length (fst r) < length fmt)"

lemma char_at_nonzero: "char_at s i \<noteq> 0 \<Longrightarrow> i < length s"
  by (auto simp: char_at_def split: if_splits)

lemma decode_conversion_decoded: "decoded fmt (decode_conversion fmt spec)"
  using int_type_final by (simp add: decoded_def decode_conversion_def awaits_arg_def Let_def)

lemma decoded_mono: "decoded fmt' r \<Longrightarrow> length fmt' \<le> length fmt \<Longrightarrow> decoded fmt r"
  by (auto simp: decoded_def)

lemma decode_qualifier_decoded: "decoded fmt (decode_qualifier fmt spec)"
  unfolding decode_qualifier_def Let_def
  by (auto intro: decoded_mono [OF decode_conversion_decoded])

lemma decode_precision_decoded: "decoded fmt (decode_precision fmt spec)"
proof -
  have "decoded fmt (case skip_atoi s 0 of (p, s) \<Rightarrow> decode_qualifier s (f p))" if "length s \<le> length fmt" for s f
    using skip_atoi_length [of s 0] that
    by (auto split: prod.split intro: decoded_mono [OF decode_qualifier_decoded])
  moreover have "decoded fmt (drop 1 (drop 1 fmt), g)" if "char_at fmt 0 = 0x2e" "ps_type g \<noteq> FORMAT_TYPE_NONE" for g
    using that char_at_nonzero [of fmt 0] by (auto simp: decoded_def)
  ultimately show ?thesis
    unfolding decode_precision_def Let_def
    by (auto intro: decoded_mono [OF decode_qualifier_decoded])
qed

lemma decode_width_decoded: "decoded (c # fmt) (decode_width fmt spec)"
proof -
  have "decoded (c # fmt) (case skip_atoi fmt 0 of (p, s) \<Rightarrow> decode_precision s (f p))" for f
    using skip_atoi_length [of fmt 0]
    by (auto split: prod.split intro: decoded_mono [OF decode_precision_decoded])
  then show ?thesis
    unfolding decode_width_def
    by (auto intro: decoded_mono [OF decode_precision_decoded] simp: decoded_def [of _ "(_, _)"])
qed


lemma decode_width_length: "length (fst (decode_width fmt spec)) \<le> length fmt"
proof -
  have "length (fst (decode_precision s g)) \<le> length fmt" if "length s \<le> length fmt" for s g
    using decode_precision_decoded [of s g] that by (simp add: decoded_def)
  then show ?thesis
    unfolding decode_width_def using skip_atoi_length [of fmt 0] by (auto split: prod.split)
qed

definition fmt_measure :: "byte list \<Rightarrow> printf_spec \<Rightarrow> nat" where
  "fmt_measure fmt spec = 2 * length fmt + (if awaits_arg spec then 1 else 0)"

lemma decoded_measure:
  "decoded fmt r \<Longrightarrow> awaits_arg spec \<Longrightarrow> fmt_measure (fst r) (snd r) < fmt_measure fmt spec"
  by (auto simp: decoded_def fmt_measure_def)

lemma shorter_measure:
  "length (fst r) < length fmt \<Longrightarrow> fmt_measure (fst r) (snd r) < fmt_measure fmt spec"
  by (auto simp: fmt_measure_def)

lemma format_decode_progress:
  assumes "char_at fmt 0 \<noteq> 0"
  shows "fmt_measure (fst (format_decode fmt spec)) (snd (format_decode fmt spec)) < fmt_measure fmt spec"
proof -
  obtain c s where fmt: "fmt = c # s" using char_at_nonzero [OF assms] by (cases fmt) auto
  have c: "char_at fmt 0 = c" by (simp add: fmt char_at_def)
  show ?thesis
  proof (cases "awaits_arg spec")
    case True
    then have "decoded fmt (format_decode fmt spec)"
      by (auto simp: format_decode_def awaits_arg_def intro: decode_precision_decoded decode_qualifier_decoded)
    then show ?thesis using True by (rule decoded_measure)
  next
    case False
    have "length (fst (decode_width (fst (format_flags_loop s 0)) g)) \<le> length s" for g
      using decode_width_length format_flags_loop_length order_trans by blast
    moreover have "length (dropWhile plain_char fmt) \<le> length s" if "c \<noteq> 0x25"
      using that assms length_dropWhile_le [of plain_char s] by (simp add: fmt plain_char_def char_at_def)
    ultimately have "length (fst (format_decode fmt spec)) < length fmt"
      using False unfolding format_decode_def Let_def c
      by (auto simp: awaits_arg_def fmt less_Suc_eq_le split: prod.split)
    then show ?thesis by (rule shorter_measure)
  qed
qed

lemma vsn_convert_measure:
  assumes "vsn_convert env spec fmt args pos = Some (out, fmt', args', spec', cnt)"
  shows "fmt_measure fmt' spec' \<le> fmt_measure fmt spec"
  using assms length_dropWhile_le [of isalnum fmt]
  by (auto simp: vsn_convert_def fmt_measure_def awaits_arg_def Let_def
      split: if_splits list.splits va_arg.splits)

function vsn_loop ::
  "print_env \<Rightarrow> byte list \<times> nat \<Rightarrow> byte list \<Rightarrow> printf_spec \<Rightarrow> va_arg list \<Rightarrow> nat list \<Rightarrow>
   ((byte list \<times> nat) \<times> nat list) option" where
  "vsn_loop env st fmt spec args cnt =
     (if char_at fmt 0 = 0 then Some (st, cnt)
      else let rest = fst (format_decode fmt spec); spec' = snd (format_decode fmt spec)
           in if ps_type spec' = FORMAT_TYPE_NONE
              then vsn_loop env (put_literal (take (length fmt - length rest) fmt) st) rest spec' args cnt
              else case vsn_convert env spec' rest args (snd st) of
                     None \<Rightarrow> None
                   | Some (out, rest, args, spec, c) \<Rightarrow> vsn_loop env (fold emit out st) rest spec args (cnt @ c))"
  by pat_completeness auto
termination
  by (relation "measure (\<lambda>(env, st, fmt, spec, args, cnt). fmt_measure fmt spec)")
     (auto intro: format_decode_progress order_le_less_trans [OF vsn_convert_measure format_decode_progress])

declare vsn_loop.simps [simp del]

definition spec_init :: printf_spec where
  "spec_init = \<lparr>ps_type = FORMAT_TYPE_NONE, ps_flags = 0, ps_base = 0, ps_qualifier = 0, field_width = 0,
     precision = 0\<rparr>"

text \<open>\<open>vsnprintf\<close> on a buffer of \<open>length mem\<close> bytes: the buffer, the value returned, and what \<open>%n\<close> stored.\<close>

definition vsnprintf :: "print_env \<Rightarrow> byte list \<Rightarrow> byte list \<Rightarrow> va_arg list \<Rightarrow> (byte list \<times> nat \<times> nat list) option" where
  "vsnprintf env mem fmt args =
     (if 2 ^ 31 \<le> length mem then Some (mem, 0, [])
      else case vsn_loop env (mem, 0) fmt spec_init args [] of
             None \<Rightarrow> None
           | Some ((mem, str), cnt) \<Rightarrow>
               Some (if 0 < length mem
                     then if str < length mem then mem[str := 0] else mem[length mem - 1 := 0]
                     else mem, str, cnt))"

definition vscnprintf :: "print_env \<Rightarrow> byte list \<Rightarrow> byte list \<Rightarrow> va_arg list \<Rightarrow> (byte list \<times> nat \<times> nat list) option" where
  "vscnprintf env buf fmt args =
     (case vsnprintf env buf fmt args of
        None \<Rightarrow> None
      | Some (buf, i, cnt) \<Rightarrow>
          Some (buf, if i < length buf then i else if length buf \<noteq> 0 then length buf - 1 else 0, cnt))"

definition snprintf :: "print_env \<Rightarrow> byte list \<Rightarrow> byte list \<Rightarrow> va_arg list \<Rightarrow> (byte list \<times> nat \<times> nat list) option" where
  "snprintf env buf fmt args = vsnprintf env buf fmt args"

definition scnprintf :: "print_env \<Rightarrow> byte list \<Rightarrow> byte list \<Rightarrow> va_arg list \<Rightarrow> (byte list \<times> nat \<times> nat list) option" where
  "scnprintf env buf fmt args = vscnprintf env buf fmt args"

end
