(* ===== verification/Knum_Dec.thy ===== *)
theory Knum_Dec
  imports Knum
begin

text \<open>
  What the digit generators compute: the decimal printer with its multiplications in place of divisions,
  and the printer for bases eight and sixteen, both against the digits of a natural number, least
  significant first.
\<close>

function nat_digits :: "nat \<Rightarrow> nat \<Rightarrow> nat list" where
  "nat_digits b n = (if n < b \<or> b < 2 then [n] else (n mod b) # nat_digits b (n div b))"
  by pat_completeness auto
termination
  by (relation "measure snd") (auto intro!: div_less_dividend)

declare nat_digits.simps [simp del]

section \<open>Dividing by ten with a multiplication\<close>

lemma div10_by_205:
  fixes x :: nat
  assumes "x < 1000"
  shows "x * 205 div 2048 = x div 10"
proof -
  have "x = 10 * (x div 10) + x mod 10" "x mod 10 < 10" "x div 10 < 100"
    using assms by auto
  then have "x * 205 = 2048 * (x div 10) + (2 * (x div 10) + 205 * (x mod 10))"
    "2 * (x div 10) + 205 * (x mod 10) < 2048"
    by linarith+
  then show ?thesis by (metis add.commute div_less div_mult_self2 add_0 zero_neq_numeral)
qed

lemma div10_by_13:
  fixes x :: nat
  assumes "x < 69"
  shows "x * 13 div 128 = x div 10"
proof -
  have "\<forall>x \<in> set [0..<69]. x * 13 div 128 = x div (10::nat)" by code_simp
  with assms show ?thesis by simp
qed

lemma word_div10_205:
  fixes x :: u32
  assumes "unat x < 1000"
  shows "unat (drop_bit 11 (x * 0xcd)) = unat x div 10"
proof -
  have "unat (x * 0xcd) = unat x * 205"
    using assms by (subst unat_mult_lem [THEN iffD1]) auto
  then show ?thesis using div10_by_205 [OF assms] by (simp add: drop_bit_eq_div unat_div)
qed

lemma word_div10_13:
  fixes x :: u32
  assumes "unat x < 69"
  shows "unat (drop_bit 7 (x * 0xd)) = unat x div 10"
proof -
  have "unat (x * 0xd) = unat x * 13"
    using assms by (subst unat_mult_lem [THEN iffD1]) auto
  then show ?thesis using div10_by_13 [OF assms] by (simp add: drop_bit_eq_div unat_div)
qed

lemma word_mod10:
  fixes x q :: u32
  assumes "unat q = unat x div 10"
  shows "unat (x - 10 * q) = unat x mod 10"
proof -
  have "unat (10 * q) = 10 * unat q"
    using assms unat_less_2p32 [of x] by (subst unat_mult_lem [THEN iffD1]) auto
  moreover have "10 * q \<le> x" using calculation assms by (simp add: word_le_nat_alt)
  ultimately show ?thesis using assms by (simp add: unat_sub minus_div_mult_eq_mod [symmetric] mult.commute)
qed


lemma unat_of_nat_small: "n < 100000 \<Longrightarrow> unat (of_nat n :: u32) = n"
  by (simp add: unat_of_nat take_bit_nat_eq_self)

lemma of_nat_div10_205:
  assumes "n < 1000"
  shows "drop_bit 11 (of_nat n * 0xcd) = (of_nat (n div 10) :: u32)"
  using assms word_div10_205 [of "of_nat n"]
  by (intro word_unat_eq_iff [THEN iffD2]) (simp add: unat_of_nat_small)

lemma of_nat_div10_13:
  assumes "n < 69"
  shows "drop_bit 7 (of_nat n * 0xd) = (of_nat (n div 10) :: u32)"
  using assms word_div10_13 [of "of_nat n"]
  by (intro word_unat_eq_iff [THEN iffD2]) (simp add: unat_of_nat_small)

lemma of_nat_mod10:
  "of_nat n - 10 * of_nat (n div 10) = (of_nat (n mod 10) :: u32)"
proof -
  have "(of_nat n :: u32) = of_nat (n mod 10) + of_nat (10 * (n div 10))"
    unfolding of_nat_add [symmetric] by simp
  then show ?thesis by simp
qed

lemma nibbles:
  fixes q :: u32
  shows "drop_bit 4 q AND 0xf = of_nat (unat q div 16 mod 16)"
    "drop_bit 8 q AND 0xf = of_nat (unat q div 256 mod 16)"
    "drop_bit 12 q = of_nat (unat q div 4096)"
    "q AND 0xf = of_nat (unat q mod 16)"
proof -
  have m: "x AND 0xf = of_nat (unat x mod 16)" for x :: u32
    using take_bit_eq_mask [of 4 x] take_bit_eq_mod [of 4 x]
    by (simp add: mask_eq_exp_minus_1 word_unat_eq_iff unat_mod unat_of_nat)
  have "unat (drop_bit k q) = unat q div 2 ^ k" for k
    unfolding unat_drop_bit_eq by (rule drop_bit_eq_div)
  then have d: "drop_bit k q = of_nat (unat q div 2 ^ k)" for k
    by (metis of_nat_unat ucast_id)
  show "drop_bit 4 q AND 0xf = of_nat (unat q div 16 mod 16)"
    "drop_bit 8 q AND 0xf = of_nat (unat q div 256 mod 16)"
    "drop_bit 12 q = of_nat (unat q div 4096)"
    "q AND 0xf = of_nat (unat q mod 16)"
    using m [of "drop_bit 4 q"] m [of "drop_bit 8 q"] m [of q] d [of 12]
    by (simp_all add: unat_drop_bit_eq) (simp_all add: drop_bit_eq_div)
qed

text \<open>The sums the source forms from the hexadecimal digits of \<open>n\<close>.\<close>

definition sum0 :: "nat \<Rightarrow> nat" where
  "sum0 n = 6 * (n div 4096 + n div 256 mod 16 + n div 16 mod 16) + n mod 16"
definition sum1 :: "nat \<Rightarrow> nat" where
  "sum1 n = sum0 n div 10 + 9 * (n div 4096) + 5 * (n div 256 mod 16) + n div 16 mod 16"
definition sum2 :: "nat \<Rightarrow> nat" where "sum2 n = sum1 n div 10 + 2 * (n div 256 mod 16)"
definition sum3 :: "nat \<Rightarrow> nat" where "sum3 n = sum2 n div 10 + 4 * (n div 4096)"

lemma hex_split:
  fixes n :: nat
  assumes "n = 16 * x + r" "x = 16 * y + s" "y = 16 * z + t"
  shows "n = 10 * (409 * z + 25 * t + s) + (6 * (z + t + s) + r)"
  using assms by simp

lemma div10_add: "(10 * k + m) div 10 = k + m div (10::nat)"
  by simp

lemma sums_div:
  shows "n = 10 * (409 * (n div 4096) + 25 * (n div 256 mod 16) + n div 16 mod 16) + sum0 n"
    "n div 10 = 10 * (40 * (n div 4096) + 2 * (n div 256 mod 16)) + sum1 n"
    "n div 100 = 10 * (4 * (n div 4096)) + sum2 n"
    "n div 1000 = sum3 n"
proof -
  have "n = 16 * (n div 16) + n mod 16" "n div 16 = 16 * (n div 256) + n div 16 mod 16"
    "n div 256 = 16 * (n div 4096) + n div 256 mod 16"
    using div_mult2_eq [of n 16 16] div_mult2_eq [of n 256 16] by simp_all
  then show n0: "n = 10 * (409 * (n div 4096) + 25 * (n div 256 mod 16) + n div 16 mod 16) + sum0 n"
    unfolding sum0_def by (rule hex_split)
  show n1: "n div 10 = 10 * (40 * (n div 4096) + 2 * (n div 256 mod 16)) + sum1 n"
    by (rule trans [OF arg_cong [OF n0, of "\<lambda>n. n div 10"]], unfold div10_add) (simp add: sum1_def)
  have "n div 100 = n div 10 div 10" by (simp add: div_mult2_eq [symmetric])
  then show n2: "n div 100 = 10 * (4 * (n div 4096)) + sum2 n"
    unfolding n1 div10_add by (simp add: sum2_def)
  have "n div 1000 = n div 100 div 10" by (simp add: div_mult2_eq [symmetric])
  then show "n div 1000 = sum3 n" unfolding n2 by (simp add: sum3_def)
qed


lemma sum_bounds:
  assumes "n < 100000"
  shows "sum0 n < 1000" "sum1 n < 1000" "sum2 n < 69" "sum3 n < 1000"
proof -
  have b: "n div 4096 \<le> 24" "n div 256 mod 16 \<le> 15" "n div 16 mod 16 \<le> 15" "n mod 16 \<le> 15"
    using assms by auto
  have "w \<le> 24 \<Longrightarrow> x \<le> 15 \<Longrightarrow> y \<le> 15 \<Longrightarrow> z \<le> 15 \<Longrightarrow> 6 * (w + x + y) + z \<le> 339"
    "v \<le> 33 \<Longrightarrow> w \<le> 24 \<Longrightarrow> x \<le> 15 \<Longrightarrow> y \<le> 15 \<Longrightarrow> v + 9 * w + 5 * x + y \<le> 339"
    "v \<le> 33 \<Longrightarrow> x \<le> 15 \<Longrightarrow> v + 2 * x \<le> 63"
    "z \<le> 6 \<Longrightarrow> w \<le> 24 \<Longrightarrow> z + 4 * w \<le> 102" for v w x y z :: nat
    by simp_all
  note bd = this
  have s0: "sum0 n \<le> 339" unfolding sum0_def by (rule bd(1)) (rule b)+
  then have "sum0 n div 10 \<le> 33" by simp
  then have s1: "sum1 n \<le> 339" unfolding sum1_def by (rule bd(2)) (rule b)+
  then have "sum1 n div 10 \<le> 33" by simp
  then have s2: "sum2 n \<le> 63" unfolding sum2_def by (rule bd(3)) (rule b)
  then have "sum2 n div 10 \<le> 6" by simp
  then have "sum3 n \<le> 102" unfolding sum3_def by (rule bd(4)) (rule b)
  with s0 s1 s2 show "sum0 n < 1000" "sum1 n < 1000" "sum2 n < 69" "sum3 n < 1000" by simp_all
qed

lemma sum_mods:
  "sum0 n mod 10 = n mod 10" "sum1 n mod 10 = n div 10 mod 10" "sum2 n mod 10 = n div 100 mod 10"
  "sum3 n mod 10 = n div 1000 mod 10" "sum3 n div 10 = n div 10000"
proof -
  have m: "a = 10 * k + b \<Longrightarrow> b mod 10 = a mod (10::nat)" for a b k by simp
  show "sum0 n mod 10 = n mod 10" "sum1 n mod 10 = n div 10 mod 10" "sum2 n mod 10 = n div 100 mod 10"
    by (rule m [OF sums_div(1)], rule m [OF sums_div(2)], rule m [OF sums_div(3)])
  show "sum3 n mod 10 = n div 1000 mod 10" "sum3 n div 10 = n div 10000"
    unfolding sums_div(4) [symmetric] by (simp_all add: div_mult2_eq [symmetric])
qed

lemma sum_words:
  fixes q :: u32
  assumes "n = unat q" "n < 100000"
  shows "6 * (drop_bit 12 q + (drop_bit 8 q AND 0xf) + (drop_bit 4 q AND 0xf)) + (q AND 0xf) = of_nat (sum0 n)"
    "of_nat (sum0 n div 10) + 9 * drop_bit 12 q + 5 * (drop_bit 8 q AND 0xf) + (drop_bit 4 q AND 0xf) = of_nat (sum1 n)"
    "of_nat (sum1 n div 10) + 2 * (drop_bit 8 q AND 0xf) = of_nat (sum2 n)"
    "of_nat (sum2 n div 10) + 4 * drop_bit 12 q = of_nat (sum3 n)"
  unfolding nibbles(1,2) unfolding nibbles(3,4) assms(1) by (simp_all add: sum0_def sum1_def sum2_def sum3_def)

lemma sum_quotients:
  assumes "n < 100000"
  shows "drop_bit 11 (of_nat (sum0 n) * 0xcd) = (of_nat (sum0 n div 10) :: u32)"
    "drop_bit 11 (of_nat (sum1 n) * 0xcd) = (of_nat (sum1 n div 10) :: u32)"
    "drop_bit 7 (of_nat (sum2 n) * 0xd) = (of_nat (sum2 n div 10) :: u32)"
    "drop_bit 11 (of_nat (sum3 n) * 0xcd) = (of_nat (sum3 n div 10) :: u32)"
  using sum_bounds [OF assms] by (simp_all only: of_nat_div10_205 of_nat_div10_13)

definition dec_byte :: "nat \<Rightarrow> byte" where "dec_byte d = of_nat (48 + d)"

lemma dec_char_of_nat:
  assumes "d < 100"
  shows "dec_char (of_nat d) = dec_byte d"
proof -
  have "ucast (of_nat (d + 48) :: u32) = (of_nat (d + 48) :: byte)"
    using assms by (simp add: unsigned_of_nat take_bit_nat_eq_self del: of_nat_add)
  then show ?thesis by (simp add: dec_char_def dec_byte_def add.commute)
qed

lemma put_dec_full_digits:
  assumes "unat q < 100000"
  shows "put_dec_full q = map dec_byte [unat q mod 10, unat q div 10 mod 10, unat q div 100 mod 10,
    unat q div 1000 mod 10, unat q div 10000]"
  unfolding put_dec_full_def Let_def
  using assms by (simp only: sum_words [OF refl] sum_quotients of_nat_mod10) (simp add: dec_char_of_nat sum_mods)


lemma of_nat_small_eq_0:
  assumes "k < 100000"
  shows "(of_nat k :: u32) = 0 \<longleftrightarrow> k = 0"
proof
  assume "(of_nat k :: u32) = 0"
  then have "unat (of_nat k :: u32) = 0" by simp
  then show "k = 0" unfolding unat_of_nat_small [OF assms] .
qed simp

lemma sum_zeros:
  fixes q :: u32
  assumes n: "n = unat q" "n < 100000"
  shows "(of_nat (sum1 n) :: u32) = 0 \<longleftrightarrow> n < 10"
    "(of_nat (sum2 n) :: u32) = 0 \<and> drop_bit 12 q = 0 \<longleftrightarrow> n < 100"
    "(of_nat (sum3 n) :: u32) = 0 \<longleftrightarrow> n < 1000"
    "(of_nat (sum3 n div 10) :: u32) = 0 \<longleftrightarrow> n < 10000"
proof -
  have z: "(of_nat k :: u32) = 0 \<longleftrightarrow> k = 0" if "k < 1000" for k
    using that by (simp add: of_nat_small_eq_0)
  have k: "sum1 n < 1000" "sum2 n < 1000" "sum3 n < 1000" "sum3 n div 10 < 1000" "n div 4096 < 1000"
    using sum_bounds [OF n(2)] n by auto
  have d3: "drop_bit 12 q = 0 \<longleftrightarrow> n div 4096 = 0"
    unfolding nibbles(3) n(1) [symmetric] by (rule z [OF k(5)])
  have small: "m div d = 0 \<longleftrightarrow> m < d" if "0 < d" for m d :: nat using that by (simp add: div_eq_0_iff)
  have "sum1 n = 0 \<longleftrightarrow> n div 10 = 0"
    using sums_div(2) [of n] by (auto simp: sum1_def)
  then show "(of_nat (sum1 n) :: u32) = 0 \<longleftrightarrow> n < 10" using z [OF k(1)] small [of 10 n] by simp
  have "sum2 n = 0 \<and> n div 4096 = 0 \<longleftrightarrow> n div 100 = 0"
    using sums_div(3) [of n] by auto
  then show "(of_nat (sum2 n) :: u32) = 0 \<and> drop_bit 12 q = 0 \<longleftrightarrow> n < 100"
    unfolding z [OF k(2)] d3 using small [of 100 n] by simp
  show "(of_nat (sum3 n) :: u32) = 0 \<longleftrightarrow> n < 1000"
    using z [OF k(3)] small [of 1000 n] sums_div(4) [of n] by simp
  show "(of_nat (sum3 n div 10) :: u32) = 0 \<longleftrightarrow> n < 10000"
    using z [OF k(4)] small [of 10000 n] sum_mods(5) [of n] by simp
qed

lemma nat_digits_5:
  assumes "n < 100000"
  shows "nat_digits 10 n = n mod 10 # (if n < 10 then [] else n div 10 mod 10 #
     (if n < 100 then [] else n div 100 mod 10 # (if n < 1000 then [] else n div 1000 mod 10 #
     (if n < 10000 then [] else [n div 10000]))))"
proof -
  have d: "n div 10 div 10 = n div 100" "n div 100 div 10 = n div 1000" "n div 1000 div 10 = n div 10000"
    by (simp_all add: div_mult2_eq [symmetric])
  have l: "n div 10 < 10 \<longleftrightarrow> n < 100" "n div 100 < 10 \<longleftrightarrow> n < 1000" "n div 1000 < 10 \<longleftrightarrow> n < 10000"
    "n div 10000 < 10" using assms by (simp_all add: less_mult_imp_div_less div_less_iff_less_mult)
  show ?thesis
    using nat_digits.simps [of 10 n] nat_digits.simps [of 10 "n div 10"] nat_digits.simps [of 10 "n div 100"]
      nat_digits.simps [of 10 "n div 1000"] nat_digits.simps [of 10 "n div 10000"]
    unfolding d l by (simp add: l)
qed

lemma put_dec_trunc_digits:
  assumes "unat q < 100000"
  shows "put_dec_trunc q = map dec_byte (nat_digits 10 (unat q))"
  unfolding put_dec_trunc_def Let_def nat_digits_5 [OF assms]
  using assms
  by (simp only: sum_words [OF refl] sum_quotients of_nat_mod10 sum_zeros [OF refl])
     (simp add: dec_char_of_nat sum_mods)

lemma nat_digits_block:
  assumes "100000 \<le> n"
  shows "nat_digits 10 n = [n mod 10, n div 10 mod 10, n div 100 mod 10, n div 1000 mod 10,
    n div 10000 mod 10] @ nat_digits 10 (n div 100000)"
proof -
  have d: "n div 10 div 10 = n div 100" "n div 100 div 10 = n div 1000" "n div 1000 div 10 = n div 10000"
    "n div 10000 div 10 = n div 100000"
    by (simp_all add: div_mult2_eq [symmetric])
  have "\<not> n < 10" "\<not> n div 10 < 10" "\<not> n div 100 < 10" "\<not> n div 1000 < 10" "\<not> n div 10000 < 10"
    using assms by (simp_all add: div_less_iff_less_mult)
  then show ?thesis
    using nat_digits.simps [of 10 n] nat_digits.simps [of 10 "n div 10"] nat_digits.simps [of 10 "n div 100"]
      nat_digits.simps [of 10 "n div 1000"] nat_digits.simps [of 10 "n div 10000"]
    unfolding d by simp
qed

lemma mod_div_digit:
  fixes n :: nat
  assumes "c = a * b" "0 < a" "10 dvd b"
  shows "n mod c div a mod 10 = n div a mod 10"
  using assms(2,3) unfolding assms(1) by (simp add: mod_mult2_eq mod_mod_cancel)

lemma low_digits:
  fixes n :: nat
  defines "r \<equiv> n mod 100000"
  shows "r mod 10 = n mod 10" "r div 10 mod 10 = n div 10 mod 10" "r div 100 mod 10 = n div 100 mod 10"
    "r div 1000 mod 10 = n div 1000 mod 10" "r div 10000 = n div 10000 mod 10"
proof -
  show "r mod 10 = n mod 10" unfolding r_def by (rule mod_mod_cancel) simp
  show "r div 10 mod 10 = n div 10 mod 10" unfolding r_def by (rule mod_div_digit [of _ _ 10000]) simp_all
  show "r div 100 mod 10 = n div 100 mod 10" unfolding r_def by (rule mod_div_digit [of _ _ 1000]) simp_all
  show "r div 1000 mod 10 = n div 1000 mod 10" unfolding r_def by (rule mod_div_digit [of _ _ 100]) simp_all
  show "r div 10000 = n div 10000 mod 10" using mod_mult2_eq [of n 10000 10] by (simp add: r_def)
qed

lemma unat_ucast32:
  fixes x :: u64
  assumes "unat x < 100000"
  shows "unat (ucast x :: u32) = unat x"
  unfolding ucast_of_nat_unat [of x] by (rule unat_of_nat_small [OF assms])

lemma put_dec_digits: "put_dec num = map dec_byte (nat_digits 10 (unat num))"
proof (induction num rule: put_dec.induct)
  case (1 num)
  show ?case
  proof (cases "num < 100000")
    case True
    then have "unat num < 100000" by (simp add: word_less_nat_alt)
    moreover have "unat (ucast num :: u32) = unat num"
      using calculation by (rule unat_ucast32)
    ultimately show ?thesis using True put_dec_trunc_digits [of "ucast num"] by (subst put_dec.simps) simp
  next
    case False
    let ?r = "ucast (num mod 100000) :: u32"
    have big: "100000 \<le> unat num" using False by (simp add: word_less_nat_alt)
    have r: "unat ?r = unat num mod 100000" by (subst unat_ucast32) (simp_all add: unat_mod)
    then have "put_dec_full ?r = map dec_byte [unat ?r mod 10, unat ?r div 10 mod 10, unat ?r div 100 mod 10,
        unat ?r div 1000 mod 10, unat ?r div 10000]"
      by (intro put_dec_full_digits) simp
    then show ?thesis
      using False 1 unfolding r low_digits nat_digits_block [OF big]
      by (subst put_dec.simps) (simp add: unat_div)
  qed
qed


section \<open>Bases eight and sixteen\<close>

lemma pow2_mask:
  fixes num :: u64
  shows "unat (num AND (if hex then 15 else 7)) = unat num mod (if hex then 16 else 8)"
proof -
  have "num AND 15 = num mod 16" "num AND 7 = num mod 8"
    using take_bit_eq_mask [of 4 num] take_bit_eq_mod [of 4 num] take_bit_eq_mask [of 3 num] take_bit_eq_mod [of 3 num]
    by (simp_all add: mask_eq_exp_minus_1)
  then show ?thesis by (simp add: unat_mod)
qed

lemma pow2_shift:
  fixes num :: u64
  shows "unat (drop_bit (if hex then 4 else 3) num) = unat num div (if hex then 16 else 8)"
  by (simp add: unat_drop_bit_eq) (simp add: drop_bit_eq_div)

lemma pow2_digits_digits:
  "pow2_digits hex locase num =
     map (\<lambda>d. digit_char d OR locase) (nat_digits (if hex then 16 else 8) (unat num))"
proof (induction hex locase num rule: pow2_digits.induct)
  case (1 hex locase num)
  let ?b = "if hex then 16 else 8 :: nat" and ?n = "drop_bit (if hex then 4 else 3) num"
  have z: "?n = 0 \<longleftrightarrow> unat num < ?b"
    unfolding unat_eq_zero [symmetric] pow2_shift by (simp add: div_eq_0_iff)
  show ?case
  proof (cases "?n = 0")
    case True
    then have "unat num < ?b" using z by simp
    with True show ?thesis
      unfolding pow2_digits.simps [of hex locase num] nat_digits.simps [of ?b "unat num"] Let_def pow2_mask
      by simp
  next
    case False
    then have "\<not> unat num < ?b" using z by simp
    with False 1 [OF refl refl False] show ?thesis
      unfolding pow2_digits.simps [of hex locase num] nat_digits.simps [of ?b "unat num"] Let_def pow2_mask pow2_shift
      by simp
  qed
qed

section \<open>The digits of a number\<close>

lemma nat_digits_less: "2 \<le> b \<Longrightarrow> d \<in> set (nat_digits b n) \<Longrightarrow> d < b"
  by (induction b n rule: nat_digits.induct) (subst (asm) (2) nat_digits.simps, auto split: if_splits)

lemma nat_digits_value: "2 \<le> b \<Longrightarrow> foldl (\<lambda>a v. a * b + v) 0 (rev (nat_digits b n)) = n"
  by (induction b n rule: nat_digits.induct) (subst nat_digits.simps, auto)

lemma nat_digits_length: "2 \<le> b \<Longrightarrow> n < b ^ Suc k \<Longrightarrow> length (nat_digits b n) \<le> Suc k"
proof (induction k arbitrary: n)
  case 0
  then show ?case by (subst nat_digits.simps) simp
next
  case (Suc k)
  then have "n div b < b ^ Suc k" by (simp add: less_mult_imp_div_less mult.commute)
  with Suc show ?case by (subst nat_digits.simps) simp
qed

lemma nat_digits_not_Nil: "nat_digits b n \<noteq> []"
  by (subst nat_digits.simps) simp

end
