(* ===== verification/Knum_Props.thy ===== *)
theory Knum_Props
  imports Knum_Dec
begin

text \<open>
  The parsers against a reference reading of a number, the ranges of the narrower types, the printer's
  layout and buffer use, and the round trip from printer to parser.
\<close>

section \<open>Reading a number\<close>

text \<open>The reference: the longest run of digits of the base, and the natural number it denotes.\<close>

fun digit_prefix :: "nat \<Rightarrow> byte list \<Rightarrow> nat list" where
  "digit_prefix b [] = []"
| "digit_prefix b (c # s) =
     (case digit_val c of None \<Rightarrow> [] | Some v \<Rightarrow> if v < b then v # digit_prefix b s else [])"

definition horner :: "nat \<Rightarrow> nat list \<Rightarrow> nat" where "horner b = foldl (\<lambda>a v. a * b + v) 0"

definition read_number :: "byte list \<Rightarrow> nat \<Rightarrow> u64 result" where
  "read_number s base =
     (case parse_integer_fixup_radix s base of (t, b) \<Rightarrow>
        let ds = digit_prefix b t; rest = takeWhile (\<lambda>c. c \<noteq> 0) (drop (length ds) t)
        in if 2 ^ 64 \<le> horner b ds then Inl ERANGE
           else if ds = [] then Inl EINVAL
           else if rest = [] \<or> rest = [0x0a] then Inr (of_nat (horner b ds))
           else Inl EINVAL)"

lemma digit_val_0 [simp]: "digit_val 0 = None"
  by (simp add: digit_val_def to_lower_def)

lemma digit_val_less:
  assumes "digit_val c = Some v"
  shows "v < 16"
proof -
  have "unat (c - 0x30) < 16" if "0x30 \<le> c" "c \<le> 0x39"
    using that by (simp add: unat_sub word_le_nat_alt)
  moreover have "unat (x - 0x61 + 10) < 16" if "0x61 \<le> x" "x \<le> 0x66" for x :: byte
  proof -
    have "unat (x - 0x61) \<le> 5" using that by (simp add: unat_sub word_le_nat_alt)
    then show ?thesis by (subst unat_add_nowrap) simp_all
  qed
  ultimately show ?thesis using assms by (auto simp: digit_val_def split: if_splits)
qed

lemma overflow_step:
  fixes a base v :: nat
  assumes "v < 16" "0 < base"
  shows "(2 ^ 64 - 1 - v) div base < a \<longleftrightarrow> 2 ^ 64 \<le> a * base + v"
proof -
  have "(2 ^ 64 - 1 - v) div base < a \<longleftrightarrow> 2 ^ 64 - 1 - v < a * base"
    by (rule div_less_iff_less_mult [OF assms(2)])
  also have "\<dots> \<longleftrightarrow> 2 ^ 64 \<le> a * base + v" using assms(1) by auto
  finally show ?thesis .
qed

lemma parse_loop_exact:
  "parse_loop s base (of_nat a) rv (2 ^ 64 \<le> a) =
     (let n = foldl (\<lambda>a v. a * base + v) a (digit_prefix base s)
      in (rv + length (digit_prefix base s), 2 ^ 64 \<le> n, of_nat n))"
proof (induction s arbitrary: a rv)
  case Nil
  then show ?case by simp
next
  case (Cons c s)
  show ?case
  proof (cases "\<exists>v. digit_val c = Some v \<and> v < base")
    case False
    then show ?thesis by (auto simp: Let_def split: option.splits)
  next
    case True
    then obtain v where v: "digit_val c = Some v" "v < base" by blast
    then have c: "c \<noteq> 0" by auto
    have ov: "(2 ^ 64 \<le> a \<or> (2 ^ 64 - 1 - v) div base < unat (of_nat a :: u64)) \<longleftrightarrow> 2 ^ 64 \<le> a * base + v"
    proof (cases "2 ^ 64 \<le> a")
      case True
      moreover have "a \<le> a * base" using v by simp
      ultimately show ?thesis by linarith
    next
      case False
      then have "unat (of_nat a :: u64) = a" by (simp add: unat_of_nat take_bit_nat_eq_self)
      with False show ?thesis using overflow_step [of v base a] v digit_val_less [OF v(1)] by simp
    qed
    have w: "of_nat a * of_nat base + of_nat v = (of_nat (a * base + v) :: u64)" by simp
    have "parse_loop (c # s) base (of_nat a) rv (2 ^ 64 \<le> a) =
        parse_loop s base (of_nat (a * base + v)) (Suc rv) (2 ^ 64 \<le> a * base + v)"
      using v c unfolding ov [symmetric] w [symmetric] by simp
    then show ?thesis unfolding Cons.IH using v by (simp add: Let_def)
  qed
qed

lemma parse_integer_exact:
  "parse_integer s base =
     (length (digit_prefix base s), 2 ^ 64 \<le> horner base (digit_prefix base s),
      of_nat (horner base (digit_prefix base s)))"
  using parse_loop_exact [of s base 0 0] by (simp add: parse_integer_def horner_def Let_def)

lemma tail_end:
  "char_at (if char_at s 0 = 0x0a then drop 1 s else s) 0 = 0 \<longleftrightarrow>
     takeWhile (\<lambda>c. c \<noteq> 0) s = [] \<or> takeWhile (\<lambda>c. c \<noteq> 0) s = [0x0a]"
proof (cases s)
  case (Cons c t)
  then show ?thesis by (cases t) (auto simp: char_at_def)
qed (simp add: char_at_def)

lemma raw_kstrtoull_read: "raw_kstrtoull s base = read_number s base"
proof -
  obtain t b where "parse_integer_fixup_radix s base = (t, b)" by fastforce
  then show ?thesis
    using tail_end [of "drop (length (digit_prefix b t)) t"]
    by (simp add: raw_kstrtoull_def read_number_def parse_integer_exact Let_def)
qed

section \<open>Signs and narrower types\<close>

lemma sint_neg_iff: "sint (x :: u64) < 0 \<longleftrightarrow> 2 ^ 63 \<le> unat x"
proof -
  have "sint x < 0 \<longleftrightarrow> odd (unat x div 2 ^ 63)"
    using bit_last_iff [of x] bit_iff_odd [of "unat x" 63] by (simp add: bit_unsigned_iff)
  moreover have "unat x div 2 ^ 63 < 2" using unsigned_less [of x] by (simp add: div_less_iff_less_mult)
  ultimately show ?thesis by (cases "unat x div 2 ^ 63 = 0") (auto simp: div_eq_0_iff less_2_cases_iff)
qed

lemma kstrtoll_minus:
  "kstrtoll (0x2d # s) base =
     (case read_number s base of
        Inl e \<Rightarrow> Inl e
      | Inr n \<Rightarrow> if n = 0 \<or> 2 ^ 63 < unat n then Inl ERANGE else Inr (- n))"
proof -
  have "0 \<le> sint (- n) \<longleftrightarrow> n = 0 \<or> 2 ^ 63 < unat n" for n :: u64
    using sint_neg_iff [of "- n"] unat_sub_if' [of 0 n] unat_gt_0 [of n]
    by (cases "n = 0") (auto simp: word_size)
  then show ?thesis by (simp add: kstrtoll_def char_at_def raw_kstrtoull_read cong: sum.case_cong)
qed

text \<open>C30.  Reading a number.  On every string and in every base, \<open>kstrtoull\<close> returns what the
  reference reading says: after an optional plus sign and the radix prefix, the number denoted by the
  longest run of digits, computed without a bound; \<open>ERANGE\<close> exactly when that number does not fit 64 bits,
  \<open>EINVAL\<close> when there is no digit or when anything but one newline follows.  So the overflow test of the
  loop, made on values that have already wrapped, is exact.  After a minus sign \<open>kstrtoll\<close> accepts the
  magnitudes from 1 to \<open>2^63\<close> and returns their negation; every other magnitude is \<open>ERANGE\<close>.  Zero is
  among the refused ones: \<open>"-0"\<close> is out of range for the code, although its value is representable.\<close>

theorem kstrtoull_reads_number:
  "kstrtoull s base = read_number (if char_at s 0 = 0x2b then drop 1 s else s) base \<and>
   kstrtoll (0x2d # s) base =
     (case read_number s base of
        Inl e \<Rightarrow> Inl e
      | Inr n \<Rightarrow> if n = 0 \<or> 2 ^ 63 < unat n then Inl ERANGE else Inr (- n))"
  by (simp add: kstrtoull_def raw_kstrtoull_read kstrtoll_minus)

lemma narrow_unsigned_Inr:
  assumes "\<And>w. ucast (widen w) = w"
  shows "narrow_unsigned widen r = Inr w \<longleftrightarrow> r = Inr (widen w)"
  using assms by (auto simp: narrow_unsigned_def split: sum.splits)

lemma widen_ucast: "LENGTH('a) \<le> 64 \<Longrightarrow> ucast (ucast (w :: 'a::len word) :: u64) = w"
  by (rule bit_word_eqI) (simp add: bit_simps)

lemma widen_scast: "LENGTH('a) \<le> 64 \<Longrightarrow> ucast (scast (w :: 'a::len word) :: u64) = w"
  by (rule bit_word_eqI) (auto simp: bit_simps)

text \<open>C32.  The narrower parsers.  Each of them accepts exactly the strings whose 64-bit reading is the
  zero- or sign-extension of a value of its type, and then returns that value; no value is truncated.\<close>

theorem kstrto_narrow_exact:
  "(kstrtoul s base = Inr w \<longleftrightarrow> kstrtoull s base = Inr (ucast w)) \<and>
   (kstrtol s base = Inr w \<longleftrightarrow> kstrtoll s base = Inr (scast w)) \<and>
   (kstrtouint s base = Inr w \<longleftrightarrow> kstrtoull s base = Inr (ucast w)) \<and>
   (kstrtoint s base = Inr w \<longleftrightarrow> kstrtoll s base = Inr (scast w)) \<and>
   (kstrtou16 s base = Inr h \<longleftrightarrow> kstrtoull s base = Inr (ucast h)) \<and>
   (kstrtos16 s base = Inr h \<longleftrightarrow> kstrtoll s base = Inr (scast h)) \<and>
   (kstrtou8 s base = Inr b \<longleftrightarrow> kstrtoull s base = Inr (ucast b)) \<and>
   (kstrtos8 s base = Inr b \<longleftrightarrow> kstrtoll s base = Inr (scast b))"
  unfolding kstrtoul_def kstrtol_def kstrtouint_def kstrtoint_def kstrtou16_def kstrtos16_def
    kstrtou8_def kstrtos8_def
  by (intro conjI narrow_unsigned_Inr widen_ucast widen_scast) simp_all

section \<open>Printing and reading back\<close>

lemma digit_val_char:
  assumes "d < 16" "l = 0 \<or> l = 0x20"
  shows "digit_val (digit_char d OR l) = Some d \<and> to_lower (digit_char d OR l) \<noteq> 0x78 \<and>
    digit_char d OR l \<noteq> 0x2b \<and> digit_char d OR l \<noteq> 0x2d"
proof -
  have "\<forall>d \<in> set [0..<16]. \<forall>l \<in> set [0, 0x20]. digit_val (digit_char d OR l) = Some d \<and>
      to_lower (digit_char d OR l) \<noteq> 0x78 \<and> digit_char d OR l \<noteq> 0x2b \<and> digit_char d OR l \<noteq> 0x2d"
    by code_simp
  with assms show ?thesis by auto
qed


abbreviation digit_chars :: "byte \<Rightarrow> nat list \<Rightarrow> byte list" where
  "digit_chars l \<equiv> map (\<lambda>d. digit_char d OR l)"

lemma digit_prefix_digit_chars:
  assumes "\<forall>d \<in> set ds. d < b" "b \<le> 16" "l = 0 \<or> l = 0x20"
  shows "digit_prefix b (digit_chars l ds) = ds"
  using assms(1) by (induction ds) (use assms(2,3) digit_val_char in \<open>auto\<close>)

lemma fixup_digit_chars:
  assumes "\<forall>d \<in> set ds. d < b" "b \<le> 16" "0 < b" "l = 0 \<or> l = 0x20"
  shows "parse_integer_fixup_radix (digit_chars l ds) b = (digit_chars l ds, b)"
proof -
  have "to_lower (char_at (digit_chars l ds) 1) \<noteq> 0x78"
  proof (cases "1 < length ds")
    case True
    then have "ds ! 1 < 16" using assms(1,2) nth_mem [OF True] order_less_le_trans by blast
    then show ?thesis using True assms(4) digit_val_char [of "ds ! 1" l] by (simp add: char_at_def)
  qed (simp add: char_at_def to_lower_def)
  then show ?thesis using assms(3) by (simp add: parse_integer_fixup_radix_def Let_def)
qed

lemma read_parsed:
  assumes "parse_integer_fixup_radix s base = (digit_chars l ds, b)"
    and ds: "\<forall>d \<in> set ds. d < b" "b \<le> 16" "l = 0 \<or> l = 0x20" "ds \<noteq> []" and n: "horner b ds = unat x"
  shows "read_number s base = Inr (x :: u64)"
  unfolding read_number_def assms(1)
  using digit_prefix_digit_chars [OF ds(1-3)] ds(4) n unsigned_less [of x, where 'a = nat]
  by (simp add: Let_def)

lemma horner_zeros: "horner b (replicate m 0 @ ds) = horner b ds"
  by (induction m) (simp_all add: horner_def)

lemma zero_char: "l = 0 \<or> l = 0x20 \<Longrightarrow> digit_char 0 OR l = 0x30"
  by (auto simp: digit_char_def)

lemma and_exp_cases: "(f :: u8) AND 2 ^ k = 0 \<or> f AND 2 ^ k = 2 ^ k"
proof (cases "bit f k")
  case True
  then have "f AND 2 ^ k = 2 ^ k" by (intro bit_word_eqI) (auto simp: bit_and_iff bit_exp_iff)
  then show ?thesis ..
next
  case False
  then have "f AND 2 ^ k = 0" by (intro bit_word_eqI) (auto simp: bit_and_iff bit_exp_iff)
  then show ?thesis ..
qed

lemma flag_cases: "(f :: u8) AND SMALL = 0 \<or> f AND SMALL = 0x20"
  using and_exp_cases [of f 5] by (simp add: SMALL_def)

text \<open>The prefix and the digits \<open>number\<close> prints.\<close>

definition prefix_chars :: "printf_spec \<Rightarrow> byte list" where
  "prefix_chars spec =
     (if ps_flags spec AND SPECIAL = 0 \<or> ps_base spec = 10 then []
      else if ps_base spec = 16 then [0x30, 0x58 OR (ps_flags spec AND SMALL)] else [0x30])"

definition magnitude :: "u64 \<Rightarrow> printf_spec \<Rightarrow> u64" where
  "magnitude x spec = (if ps_flags spec AND SIGN \<noteq> 0 \<and> sint x < 0 then - x else x)"

definition value_chars :: "u64 \<Rightarrow> printf_spec \<Rightarrow> byte list" where
  "value_chars x spec =
     digit_chars (ps_flags spec AND SMALL) (rev (nat_digits (ps_base spec) (unat (magnitude x spec))))"

lemma dec_byte_digit_char:
  assumes "d < 10" "l = 0 \<or> l = 0x20"
  shows "dec_byte d = digit_char d OR l"
proof -
  have "\<forall>d \<in> set [0..<10]. dec_byte d = digit_char d \<and> dec_byte d = digit_char d OR 0x20"
    by code_simp
  moreover have "d \<in> set [0..<10]" using assms(1) by simp
  ultimately have "dec_byte d = digit_char d" "dec_byte d = digit_char d OR 0x20" by blast+
  with assms(2) show ?thesis by auto
qed

lemma number_tmp:
  assumes "b \<in> {8, 10, 16}" "l = 0 \<or> l = 0x20"
  shows "(if num = 0 then [0x30] else if b \<noteq> 10 then pow2_digits (b = 16) l num else put_dec num) =
    digit_chars l (nat_digits b (unat num))"
proof (cases "num = 0")
  case True
  then show ?thesis using assms zero_char [OF assms(2)] by (subst nat_digits.simps) auto
next
  case False
  have "map dec_byte (nat_digits 10 n) = digit_chars l (nat_digits 10 n)" for n
    using dec_byte_digit_char [OF _ assms(2)] nat_digits_less [of 10 _ n] by simp
  then show ?thesis using False assms(1) by (auto simp: put_dec_digits pow2_digits_digits)
qed


lemma flags_left:
  fixes f :: u8
  shows "(f AND NOT ZEROPAD) AND SIGN = f AND SIGN" "(f AND NOT ZEROPAD) AND PLUS = f AND PLUS"
    "(f AND NOT ZEROPAD) AND SPACE = f AND SPACE" "(f AND NOT ZEROPAD) AND LEFT = f AND LEFT"
    "(f AND NOT ZEROPAD) AND ZEROPAD = 0"
    "f AND (ZEROPAD + LEFT) = 0 \<longleftrightarrow> f AND ZEROPAD = 0 \<and> f AND LEFT = 0"
proof -
  have "f AND 17 = (f AND 1) OR (f AND 16)" by (simp flip: bit.conj_disj_distrib)
  then show "f AND (ZEROPAD + LEFT) = 0 \<longleftrightarrow> f AND ZEROPAD = 0 \<and> f AND LEFT = 0"
    by (simp add: ZEROPAD_def LEFT_def or_eq_0_iff)
qed (simp_all add: format_flags and.assoc)

text \<open>Everything \<open>number\<close> prints, with the padding named by its length.\<close>

definition content_width :: "u64 \<Rightarrow> printf_spec \<Rightarrow> int" where
  "content_width x spec =
     int (length (number_sign (ps_flags spec) x)) + int (length (prefix_chars spec)) +
     max (precision spec) (int (length (value_chars x spec)))"

definition layout :: "u64 \<Rightarrow> printf_spec \<Rightarrow> byte list" where
  "layout x spec =
     (let f = ps_flags spec; gap = nat (field_width spec - content_width x spec);
          left = (f AND LEFT \<noteq> 0); zero = (f AND ZEROPAD \<noteq> 0)
      in (if \<not> left \<and> \<not> zero then replicate gap 0x20 else []) @ number_sign f x @ prefix_chars spec @
         (if \<not> left \<and> zero then replicate gap 0x30 else []) @
         replicate (nat (precision spec - int (length (value_chars x spec)))) 0x30 @ value_chars x spec @
         (if left then replicate gap 0x20 else []))"

lemma number_sign_left:
  "number_sign (if f AND LEFT \<noteq> 0 then f AND NOT ZEROPAD else f) x = number_sign f x"
  by (simp add: number_sign_def flags_left)

lemma number_sign_magnitude:
  "(if number_sign (ps_flags spec) x = [0x2d] then - x else x) = magnitude x spec"
  by (simp add: number_sign_def magnitude_def)

lemma prefix_chars_eq:
  "(if ps_flags spec AND SPECIAL \<noteq> 0 \<and> ps_base spec \<noteq> 10
    then 0x30 # (if ps_base spec = 16 then [0x58 OR (ps_flags spec AND SMALL)] else []) else []) = prefix_chars spec"
  "(if ps_flags spec AND SPECIAL \<noteq> 0 \<and> ps_base spec \<noteq> 10 then if ps_base spec = 16 then 2 else 1 else 0) =
    int (length (prefix_chars spec))"
  by (simp_all add: prefix_chars_def)

lemma s16_id: "- 32768 \<le> x \<Longrightarrow> x \<le> 32767 \<Longrightarrow> s16 x = x"
  by (simp add: s16_def)

lemma pad_chars: "- 32768 < fw \<Longrightarrow> fw \<le> 32767 \<Longrightarrow> pad c fw = replicate (nat fw) c"
  "- 32768 < fw \<Longrightarrow> fw \<le> 32767 \<Longrightarrow> pad_left fw = min fw 0 - 1"
  by (simp_all add: pad_def pad_left_def s16_id)

text \<open>The 16-bit arithmetic of the padding does not wrap.\<close>

definition widths_fit :: "u64 \<Rightarrow> printf_spec \<Rightarrow> bool" where
  "widths_fit x spec \<longleftrightarrow> field_width spec \<le> 32767 \<and> content_width x spec - field_width spec \<le> 32765"

lemma widths_fit_steps:
  assumes "widths_fit x spec"
  defines "fw \<equiv> field_width spec - content_width x spec"
  shows "s16 (s16 (s16 (field_width spec - int (length (number_sign (ps_flags spec) x)))
        - int (length (prefix_chars spec))) - max (precision spec) (int (length (value_chars x spec)))) = fw"
    "pad c fw = replicate (nat fw) c" "pad c (pad_left fw) = []" "pad c (pad_left (pad_left fw)) = []"
proof -
  have m: "0 \<le> max (precision spec) (int (length (value_chars x spec)))" by simp
  then show "s16 (s16 (s16 (field_width spec - int (length (number_sign (ps_flags spec) x)))
        - int (length (prefix_chars spec))) - max (precision spec) (int (length (value_chars x spec)))) = fw"
    using assms by (simp add: s16_id widths_fit_def content_width_def)
  have fw: "- 32765 \<le> fw" "fw \<le> 32767"
    using assms(1) m unfolding fw_def widths_fit_def content_width_def by linarith+
  then have p: "pad_left fw = min fw 0 - 1" "pad_left (min fw 0 - 1) = min fw 0 - 2" by (simp_all add: pad_chars)
  from fw show "pad c fw = replicate (nat fw) c" "pad c (pad_left fw) = []" "pad c (pad_left (pad_left fw)) = []"
    by (simp_all add: pad_chars p)
qed

lemma number_chars_layout:
  assumes "ps_base spec \<in> {8, 10, 16}" "widths_fit x spec"
  shows "number_chars x spec = layout x spec"
proof -
  let ?f = "ps_flags spec" and ?l = "ps_flags spec AND SMALL"
  let ?tmp = "digit_chars ?l (nat_digits (ps_base spec) (unat (magnitude x spec)))"
  have tmp: "(if magnitude x spec = 0 then [0x30]
      else if ps_base spec \<noteq> 10 then pow2_digits (ps_base spec = 16) ?l (magnitude x spec)
      else put_dec (magnitude x spec)) = ?tmp"
    by (rule number_tmp [OF assms(1) flag_cases])
  have v: "rev ?tmp = value_chars x spec" "length ?tmp = length (value_chars x spec)"
    by (simp_all add: value_chars_def rev_map)
  have prec: "(if int k > p then int k else p) = max p (int k)" for k p by (simp add: max_def)
  have gap: "max p (int k) - int k = int (nat (p - int k))" for k p by (simp add: max_def)
  note parts = number_sign_left number_sign_magnitude tmp prefix_chars_eq v prec gap
  note rules = flags_left widths_fit_steps [OF assms(2)] simp_thms if_True if_False nat_int append_Nil append_Nil2
  show ?thesis
  proof (cases "?f AND LEFT = 0")
    case True
    then show ?thesis
      unfolding number_chars_def Let_def parts layout_def
      by (cases "?f AND ZEROPAD = 0") (simp_all only: rules)
  next
    case False
    then show ?thesis
      unfolding number_chars_def Let_def parts layout_def
      by (simp only: rules not_False_eq_True)
  qed
qed

lemma fold_emit:
  "fold emit cs (mem, buf) =
     (take buf mem @ take (length mem - buf) cs @ drop (buf + length cs) mem, buf + length cs)"
proof (induction cs arbitrary: mem buf)
  case (Cons c cs)
  show ?case
  proof (cases "buf < length mem")
    case True
    then obtain k where "length mem - buf = Suc k" by (metis Suc_diff_Suc)
    moreover have "length mem - Suc buf = k" using calculation by simp
    ultimately show ?thesis
      using True Cons.IH [of "mem[buf := c]" "Suc buf"] by (simp add: emit_def take_Suc_conv_app_nth)
  next
    case False
    then show ?thesis using Cons.IH [of mem "Suc buf"] by (simp add: emit_def)
  qed
qed simp

lemma layout_length: "int (length (layout x spec)) = max (field_width spec) (content_width x spec)"
  by (simp add: layout_def content_width_def Let_def max_def)

lemma value_chars_length:
  assumes "ps_base spec \<in> {8, 10, 16}"
  shows "length (value_chars x spec) \<le> 22"
proof -
  have "unat (magnitude x spec) < 2 ^ 64" using unsigned_less [of "magnitude x spec"] by simp
  moreover have "(2::nat) ^ 64 \<le> b ^ Suc 21" if "b \<in> {8, 10, 16}" for b :: nat using that by auto
  ultimately have "unat (magnitude x spec) < ps_base spec ^ Suc 21"
    using assms order_less_le_trans by blast
  then show ?thesis
    using nat_digits_length [of "ps_base spec" "unat (magnitude x spec)" 21] assms by (auto simp: value_chars_def)
qed

text \<open>C33.  Printing a number.  For the bases the callers use, \<open>number\<close> writes the sign, the radix prefix,
  the zeros up to the precision and the digits of the magnitude, filled up to the field width with spaces
  on the left, with zeros behind the prefix, or with spaces on the right, as the flags say.  The part that
  lies below \<open>end\<close> is stored and nothing else in the buffer changes; the returned pointer has moved by the
  whole length, which is the larger of the field width and the width of the content; and the digits fit
  the 66 bytes of \<open>tmp\<close>.\<close>

theorem number_prints_layout:
  assumes "ps_base spec \<in> {8, 10, 16}" "widths_fit x spec"
  shows "number (mem, buf) x spec =
      (take buf mem @ take (length mem - buf) (layout x spec) @ drop (buf + length (layout x spec)) mem,
       buf + length (layout x spec)) \<and>
    int (length (layout x spec)) = max (field_width spec) (content_width x spec) \<and>
    length (value_chars x spec) \<le> 66"
  using value_chars_length [OF assms(1), of x]
  by (simp_all add: number_def number_chars_layout [OF assms] fold_emit layout_length)

theorem number_prints_layout_witness:
  "number (replicate 6 0, 1) 0x2a \<lparr>ps_type = FORMAT_TYPE_UINT, ps_flags = ZEROPAD OR SPECIAL OR SMALL, ps_base = 16, ps_qualifier = 255, field_width = 7, precision = -1\<rparr> =
     ([0, 0x30, 0x78, 0x30, 0x30, 0x30], 8)"
  using number_prints_layout [of "\<lparr>ps_type = FORMAT_TYPE_UINT, ps_flags = ZEROPAD OR SPECIAL OR SMALL, ps_base = 16, ps_qualifier = 255, field_width = 7, precision = -1\<rparr>"
      "0x2a" "replicate 6 0" 1]
  by code_simp

lemma layout_digits:
  assumes "field_width spec \<le> 0 \<or> ps_flags spec AND LEFT = 0 \<and> ps_flags spec AND ZEROPAD \<noteq> 0"
  obtains m where "layout x spec = number_sign (ps_flags spec) x @ prefix_chars spec @
    digit_chars (ps_flags spec AND SMALL)
      (replicate m 0 @ rev (nat_digits (ps_base spec) (unat (magnitude x spec))))"
proof -
  have "value_chars x spec \<noteq> []" by (simp add: value_chars_def nat_digits_not_Nil)
  then have "0 < max (precision spec) (int (length (value_chars x spec)))" by (simp add: less_max_iff_disj)
  then have c: "0 < content_width x spec" by (simp add: content_width_def)
  let ?z = "if ps_flags spec AND LEFT = 0 \<and> ps_flags spec AND ZEROPAD \<noteq> 0
      then nat (field_width spec - content_width x spec) else 0"
  let ?p = "nat (precision spec - int (length (value_chars x spec)))"
  have "layout x spec = number_sign (ps_flags spec) x @ prefix_chars spec @
      replicate (?z + ?p) 0x30 @ value_chars x spec"
    using assms c by (auto simp: layout_def Let_def replicate_add)
  then show thesis
    using that [of "?z + ?p"] zero_char [OF flag_cases, of "ps_flags spec"] by (simp add: value_chars_def map_replicate)
qed


lemma read_prefix_digits:
  assumes b: "ps_base spec \<in> {8, 10, 16}" and ds: "\<forall>d \<in> set ds. d < ps_base spec" "ds \<noteq> []"
    and n: "horner (ps_base spec) ds = unat x"
  shows "read_number (prefix_chars spec @ digit_chars (ps_flags spec AND SMALL) ds) (ps_base spec) = Inr x"
proof -
  let ?l = "ps_flags spec AND SMALL" and ?b = "ps_base spec"
  have le: "?b \<le> 16" "0 < ?b" using b by auto
  consider "prefix_chars spec = []" | "prefix_chars spec = [0x30]" "?b = 8"
    | "prefix_chars spec = [0x30, 0x58 OR ?l]" "?b = 16"
    using b by (cases "ps_flags spec AND SPECIAL = 0") (auto simp: prefix_chars_def)
  then show ?thesis
  proof cases
    case 1
    then show ?thesis
      using read_parsed [OF fixup_digit_chars [OF ds(1) le flag_cases] ds(1) le(1) flag_cases ds(2) n] by simp
  next
    case 2
    have ds': "\<forall>d \<in> set (0 # ds). d < ?b" "0 # ds \<noteq> []" using ds le by auto
    have n': "horner ?b (0 # ds) = unat x" using n by (simp add: horner_def)
    have "read_number (digit_chars ?l (0 # ds)) ?b = Inr x"
      by (rule read_parsed [OF fixup_digit_chars [OF ds'(1) le flag_cases] ds'(1) le(1) flag_cases ds'(2) n'])
    then show ?thesis using 2 zero_char [OF flag_cases, of "ps_flags spec"] by simp
  next
    case 3
    have "to_lower (0x58 OR ?l) = 0x78" using flag_cases [of "ps_flags spec"] by (auto simp: to_lower_def)
    then have "parse_integer_fixup_radix (prefix_chars spec @ digit_chars ?l ds) ?b = (digit_chars ?l ds, ?b)"
      using 3 by (simp add: parse_integer_fixup_radix_def char_at_def Let_def)
    then show ?thesis by (rule read_parsed) (use ds le flag_cases n in auto)
  qed
qed

lemma body_head:
  assumes b: "ps_base spec \<in> {8, 10, 16}" and ds: "\<forall>d \<in> set ds. d < ps_base spec" "ds \<noteq> []"
  defines "s \<equiv> prefix_chars spec @ digit_chars (ps_flags spec AND SMALL) ds"
  shows "char_at s 0 \<noteq> 0x2b" "char_at s 0 \<noteq> 0x2d"
proof -
  have "hd ds < ps_base spec" "ps_base spec \<le> 16" using b ds(1) hd_in_set [OF ds(2)] by auto
  then have "hd ds < 16" by simp
  note h = digit_val_char [OF this flag_cases, of "ps_flags spec"]
  have "char_at s 0 = 0x30 \<or> char_at s 0 = digit_char (hd ds) OR (ps_flags spec AND SMALL)"
    using ds(2) by (auto simp: s_def char_at_def prefix_chars_def hd_conv_nth)
  then show "char_at s 0 \<noteq> 0x2b" "char_at s 0 \<noteq> 0x2d" using h by auto
qed

lemma kstrto_signed_body:
  assumes s: "char_at s 0 \<noteq> 0x2b" "char_at s 0 \<noteq> 0x2d"
    and r: "read_number s b = Inr (magnitude x spec)" and sp: "ps_flags spec AND SPACE = 0"
  shows "(if ps_flags spec AND SIGN = 0 then kstrtoull else kstrtoll) (number_sign (ps_flags spec) x @ s) b = Inr x"
proof -
  have ull: "kstrtoull s b = Inr (magnitude x spec)" "kstrtoull (0x2b # s) b = Inr (magnitude x spec)"
    using s r by (simp_all add: kstrtoull_def raw_kstrtoull_read char_at_def)
  consider "ps_flags spec AND SIGN = 0" | "ps_flags spec AND SIGN \<noteq> 0" "sint x < 0"
    | "ps_flags spec AND SIGN \<noteq> 0" "\<not> sint x < 0" by blast
  then show ?thesis
  proof cases
    case 1
    then show ?thesis using ull by (simp add: number_sign_def magnitude_def)
  next
    case 2
    then show ?thesis using r
      by (simp add: number_sign_def magnitude_def kstrtoll_def char_at_def raw_kstrtoull_read)
  next
    case 3
    have "kstrtoll s b = Inr x" "kstrtoll (0x2b # s) b = Inr x"
      using 3 s ull by (simp_all add: kstrtoll_def magnitude_def) (simp add: char_at_def)
    with 3 sp show ?thesis by (simp add: number_sign_def)
  qed
qed

text \<open>C34.  Printing and reading back.  Whatever \<open>number\<close> prints in base 8, 10 or 16 without padding by
  spaces and without the space flag, \<open>kstrtoull\<close> or, for the signed conversions, \<open>kstrtoll\<close> reads back as
  the same 64-bit number: with or without prefix, in either case, zero-padded or with a precision, with
  either sign.\<close>

theorem number_kstrto_roundtrip:
  assumes "ps_base spec \<in> {8, 10, 16}" "ps_flags spec AND SPACE = 0" "widths_fit x spec"
    and "field_width spec \<le> 0 \<or> ps_flags spec AND LEFT = 0 \<and> ps_flags spec AND ZEROPAD \<noteq> 0"
  shows "(if ps_flags spec AND SIGN = 0 then kstrtoull else kstrtoll) (number_chars x spec) (ps_base spec) = Inr x"
proof -
  obtain m where l: "layout x spec = number_sign (ps_flags spec) x @ prefix_chars spec @
      digit_chars (ps_flags spec AND SMALL)
        (replicate m 0 @ rev (nat_digits (ps_base spec) (unat (magnitude x spec))))"
    using layout_digits [OF assms(4)] by blast
  let ?ds = "replicate m 0 @ rev (nat_digits (ps_base spec) (unat (magnitude x spec)))"
  have b: "2 \<le> ps_base spec" using assms(1) by auto
  have ds: "\<forall>d \<in> set ?ds. d < ps_base spec" "?ds \<noteq> []"
    using nat_digits_less [OF b] b by (auto simp: nat_digits_not_Nil)
  have "horner (ps_base spec) ?ds = unat (magnitude x spec)"
    unfolding horner_zeros by (simp add: horner_def nat_digits_value [OF b])
  note r = read_prefix_digits [OF assms(1) ds this]
  show ?thesis
    unfolding number_chars_layout [OF assms(1,3)] l
    by (rule kstrto_signed_body [OF body_head [OF assms(1) ds] r assms(2)])
qed

theorem number_kstrto_roundtrip_witness:
  "kstrtoll (number_chars (- 42) \<lparr>ps_type = FORMAT_TYPE_INT, ps_flags = SIGN, ps_base = 10, ps_qualifier = 255,
     field_width = 0, precision = 5\<rparr>) 10 = Inr (- 42)"
proof -
  let ?spec = "\<lparr>ps_type = FORMAT_TYPE_INT, ps_flags = SIGN, ps_base = 10, ps_qualifier = 255,
     field_width = 0, precision = 5\<rparr>"
  have "widths_fit (- 42) ?spec" by code_simp
  then show ?thesis using number_kstrto_roundtrip [of ?spec "- 42"] by (simp add: format_flags)
qed

text \<open>With the largest precision a 16-bit member holds the width wraps: a number printed with precision
  32767 and no field width is preceded by 32768 spaces.\<close>

lemma number_precision_wrap:
  "length (number_chars 7 \<lparr>ps_type = FORMAT_TYPE_UINT, ps_flags = 0, ps_base = 10, ps_qualifier = 255,
     field_width = - 1, precision = 32767\<rparr>) = 32768 + 32767"
proof -
  have d: "put_dec 7 = [0x37]" by code_simp
  have w: "s16 (- 32768) = - 32768" "s16 (- 1) = - 1" by (simp_all add: s16_def)
  have p: "length (pad c (- 32768)) = 32768" "pad_left (- 32768) = - 1" "pad c (- 1) = []" "pad_left (- 1) = - 2"
    "pad c (- 2) = []" for c
    by (simp_all add: pad_def pad_left_def s16_def)
  show ?thesis
    by (simp add: number_chars_def number_sign_def format_flags Let_def d w p)
qed

end
