(* ===== verification/Vsprintf_Props.thy ===== *)
theory Vsprintf_Props
  imports Vsprintf Knum_Props
begin

text \<open>
  \<open>vsnprintf\<close> against the text its format and arguments denote: what reaches the buffer, what is returned,
  and that neither depends on the size of the buffer.
\<close>

section \<open>The text of a format\<close>

text \<open>The reference: the characters of all tokens, one after the other, without a buffer.\<close>

function vsn_text ::
  "print_env \<Rightarrow> byte list \<Rightarrow> printf_spec \<Rightarrow> va_arg list \<Rightarrow> nat \<Rightarrow> (byte list \<times> nat list) option" where
  "vsn_text env fmt spec args pos =
     (if char_at fmt 0 = 0 then Some ([], [])
      else let rest = fst (format_decode fmt spec); spec' = snd (format_decode fmt spec)
           in if ps_type spec' = FORMAT_TYPE_NONE
              then let lit = take (length fmt - length rest) fmt
                   in map_option (\<lambda>(chars, cnt). (lit @ chars, cnt)) (vsn_text env rest spec' args (pos + length lit))
              else case vsn_convert env spec' rest args pos of
                     None \<Rightarrow> None
                   | Some (out, rest, args, spec, c) \<Rightarrow>
                       map_option (\<lambda>(chars, cnt). (out @ chars, c @ cnt)) (vsn_text env rest spec args (pos + length out)))"
  by pat_completeness auto
termination
  by (relation "measure (\<lambda>(env, fmt, spec, args, pos). fmt_measure fmt spec)")
     (auto intro: format_decode_progress order_le_less_trans [OF vsn_convert_measure format_decode_progress])

declare vsn_text.simps [simp del]

definition format_text :: "print_env \<Rightarrow> byte list \<Rightarrow> va_arg list \<Rightarrow> (byte list \<times> nat list) option" where
  "format_text env fmt args = vsn_text env fmt spec_init args 0"

lemma put_literal_emit: "put_literal lit (mem, str) = fold emit lit (mem, str)"
  unfolding fold_emit put_literal_def Let_def
  by (cases "length lit \<le> length mem - str") (auto simp: min_def)

lemma fold_emit_step: "\<exists>mem'. fold emit out (mem, str) = (mem', str + length out)"
  by (simp add: fold_emit)

lemma vsn_loop_text:
  "vsn_loop env (mem, str) fmt spec args cnt =
     map_option (\<lambda>(chars, c). (fold emit chars (mem, str), cnt @ c)) (vsn_text env fmt spec args str)"
proof (induction env fmt spec args str arbitrary: mem cnt rule: vsn_text.induct)
  case (1 env fmt spec args pos)
  let ?rest = "fst (format_decode fmt spec)" and ?spec = "snd (format_decode fmt spec)"
  consider "char_at fmt 0 = 0" | "char_at fmt 0 \<noteq> 0" "ps_type ?spec = FORMAT_TYPE_NONE"
    | "char_at fmt 0 \<noteq> 0" "ps_type ?spec \<noteq> FORMAT_TYPE_NONE" by blast
  then show ?case
  proof cases
    case 1
    then show ?thesis by (simp add: vsn_loop.simps [of env "(mem, pos)"] vsn_text.simps [of env fmt])
  next
    case 2
    let ?lit = "take (length fmt - length ?rest) fmt"
    obtain mem' where m: "fold emit ?lit (mem, pos) = (mem', pos + length ?lit)" using fold_emit_step by blast
    show ?thesis
      using 2 1(1) [OF 2(1) refl refl 2(2) refl, of mem' cnt]
      unfolding vsn_loop.simps [of env "(mem, pos)"] vsn_text.simps [of env fmt] Let_def put_literal_emit m
      by (simp add: m option.map_comp comp_def case_prod_unfold)
  next
    case 3
    show ?thesis
    proof (cases "vsn_convert env ?spec ?rest args pos")
      case None
      with 3 show ?thesis
        by (simp add: vsn_loop.simps [of env "(mem, pos)"] vsn_text.simps [of env fmt] Let_def)
    next
      case (Some r)
      obtain out rest args' spec' c where r: "r = (out, rest, args', spec', c)" by (cases r)
      obtain mem' where m: "fold emit out (mem, pos) = (mem', pos + length out)" using fold_emit_step by blast
      show ?thesis
        using 3 Some r 1(2) [OF 3(1) refl refl 3(2) Some, unfolded r, OF refl refl refl refl, of mem' "cnt @ c"]
        unfolding vsn_loop.simps [of env "(mem, pos)"] vsn_text.simps [of env fmt] Let_def
        by (simp add: m option.map_comp comp_def case_prod_unfold)
    qed
  qed
qed

section \<open>The buffer\<close>

text \<open>A buffer holding as much of a text as fits, with its terminator.\<close>

definition terminated :: "byte list \<Rightarrow> byte list \<Rightarrow> byte list" where
  "terminated mem chars =
     (if mem = [] then [] else let k = min (length chars) (length mem - 1) in take k chars @ 0 # drop (Suc k) mem)"

lemma terminate_emit:
  assumes "fold emit chars (mem, 0) = (mem', str)"
  shows "str = length chars"
    "(if 0 < length mem' then if str < length mem' then mem'[str := 0] else mem'[length mem' - 1 := 0] else mem') =
      terminated mem chars"
proof -
  have m: "mem' = take (length mem) chars @ drop (length chars) mem" and str: "str = length chars"
    using assms by (auto simp: fold_emit)
  show "str = length chars" by (rule str)
  show "(if 0 < length mem' then if str < length mem' then mem'[str := 0] else mem'[length mem' - 1 := 0] else mem') =
      terminated mem chars"
  proof (cases "length mem")
    case 0
    then show ?thesis by (simp add: m terminated_def)
  next
    case (Suc n)
    show ?thesis
    proof (cases "length chars \<le> n")
      case True
      then have "mem' = chars @ mem ! length chars # drop (Suc (length chars)) mem"
        using Suc by (simp add: m Cons_nth_drop_Suc)
      then show ?thesis using True Suc str by (auto simp: terminated_def Let_def)
    next
      case False
      then have "mem' = take n chars @ [chars ! n]"
        using Suc by (simp add: m take_Suc_conv_app_nth)
      moreover have "length (take n chars) = n" using False by simp
      then have "(take n chars @ [chars ! n])[n := 0] = take n chars @ [0]" by (simp add: list_update_append)
      ultimately show ?thesis using False Suc str by (auto simp: terminated_def Let_def min_def)
    qed
  qed
qed

lemma terminated_length: "length (terminated mem chars) = length mem"
  by (cases mem) (simp_all add: terminated_def Let_def min_def)

lemma vsnprintf_text:
  assumes "length mem < 2 ^ 31"
  shows "vsnprintf env mem fmt args =
      map_option (\<lambda>(chars, cnt). (terminated mem chars, length chars, cnt)) (format_text env fmt args)"
proof (cases "format_text env fmt args")
  case None
  then show ?thesis using assms by (simp add: vsnprintf_def vsn_loop_text format_text_def)
next
  case (Some r)
  obtain chars cnt where r: "r = (chars, cnt)" by (cases r)
  obtain mem' str where m: "fold emit chars (mem, 0) = (mem', str)" by fastforce
  have "vsnprintf env mem fmt args = Some (terminated mem chars, length chars, cnt)"
    using assms Some r unfolding vsnprintf_def vsn_loop_text format_text_def
    by (simp add: m terminate_emit(2) [OF m, symmetric] terminate_emit(1) [OF m])
  then show ?thesis using Some r by simp
qed



section \<open>Addresses\<close>

lemma hex_byte_pack_length: "length (hex_byte_pack b) = 2"
  by (simp add: hex_byte_pack_def)

lemma length_concat_map_le:
  "(\<And>i. i \<in> set is \<Longrightarrow> length (f i) \<le> k) \<Longrightarrow> length (concat (map f is)) \<le> k * length is"
  by (induction "is") (auto intro: add_le_mono)

lemma mac_length: "mac_address_chars addr fmt = Some s \<Longrightarrow> length s \<le> 17"
  by (auto simp: mac_address_chars_def Let_def hex_byte_pack_length upt_rec split: option.splits)

lemma ip6_length: "ip6_chars addr fmt = Some s \<Longrightarrow> length s \<le> 39"
  by (auto simp: ip6_chars_def hex_byte_pack_length upt_rec split: option.splits)

lemma uuid_length: "uuid_chars addr fmt = Some s \<Longrightarrow> length s = 36"
  by (auto simp: uuid_chars_def Let_def hex_byte_pack_length upt_rec split: option.splits if_splits)

lemma put_dec_byte_length: "length (put_dec_trunc (ucast (b :: byte))) \<le> 3"
proof -
  have "unat b < 256" using unsigned_less [of b, where 'a = nat] by simp
  moreover have "unat (of_nat (unat b) :: u32) = unat b" using calculation by (intro unat_of_nat_small) simp
  ultimately have u: "unat (ucast b :: u32) < 256" unfolding ucast_of_nat_unat [of b] by (simp only:)
  then have "length (nat_digits 10 (unat (ucast b :: u32))) \<le> Suc 2" by (intro nat_digits_length) simp_all
  then show ?thesis using u put_dec_trunc_digits [of "ucast b"] by simp
qed

lemma ip4_length:
  assumes "ip4_chars addr fmt = Some s"
  shows "length s \<le> 15"
proof -
  let ?z = "char_at fmt 0 = 0x69"
  obtain bs :: "byte list" where s: "s = concat (map (\<lambda>i. (if ?z then replicate (3 - length (put_dec_trunc (ucast (bs ! i)))) 0x30 else []) @
      rev (put_dec_trunc (ucast (bs ! i))) @ (if i < 3 then [0x2e] else [])) [0..<4])"
    using assms by (auto simp: ip4_chars_def Let_def split: option.splits)
  have q: "length (if ?z then replicate (3 - length (put_dec_trunc (ucast b))) (0x30 :: byte) else []) +
      length (put_dec_trunc (ucast (b :: byte))) \<le> 3" for b
    using put_dec_byte_length [of b] by simp
  show ?thesis
    unfolding s using q [of "bs ! 0"] q [of "bs ! 1"] q [of "bs ! 2"] q [of "bs ! 3"]
    by (simp add: upt_rec numeral_2_eq_2 numeral_3_eq_3)
qed

lemma halfword_length: "length (halfword_chars w) \<le> 4"
  by (cases w) (simp add: halfword_chars_def hex_byte_pack_length)

lemma ip6_emit_length:
  "ip6_emit bs rng longest colonpos i needcolon = (out, nc) \<Longrightarrow>
     length out + (if nc then 1 else 0) \<le> 5 * (rng - i) + (if needcolon then 1 else 0)"
proof (induction bs rng longest colonpos i needcolon arbitrary: out nc rule: ip6_emit.induct)
  case (1 bs rng longest colonpos i needcolon)
  consider "rng \<le> i" | "i < rng" "Some i = colonpos" | "i < rng" "Some i \<noteq> colonpos" by linarith
  then show ?case
  proof cases
    case 1
    with "1.prems" show ?thesis by (subst (asm) ip6_emit.simps) auto
  next
    case 2
    obtain o' where o': "ip6_emit bs rng longest colonpos (i + max 1 longest) False = (o', nc)"
      and out: "out = (if needcolon \<or> i = 0 then [0x3a] else []) @ [0x3a] @ o'"
      using "1.prems" 2 by (subst (asm) ip6_emit.simps) (auto split: prod.splits)
    have "length o' + (if nc then 1 else 0) \<le> 5 * (rng - (i + max 1 longest))"
      using "1.IH"(1) [OF _ 2(2) o'] 2(1) by simp
    moreover have "5 * (rng - (i + max 1 longest)) + 5 \<le> 5 * (rng - i)" using 2(1) by simp
    ultimately show ?thesis unfolding out by (cases nc; cases needcolon; cases "i = 0") simp_all
  next
    case 3
    obtain o' where o': "ip6_emit bs rng longest colonpos (i + 1) True = (o', nc)"
      and out: "out = (if needcolon then [0x3a] else []) @ halfword_chars (ip6_halfword bs i) @ o'"
      using "1.prems" 3 by (subst (asm) ip6_emit.simps) (auto split: prod.splits)
    have "length o' + (if nc then 1 else 0) \<le> 5 * (rng - (i + 1)) + 1"
      using "1.IH"(2) [OF _ 3(2) o'] 3(1) by simp
    moreover have "5 * (rng - (i + 1)) + 5 = 5 * (rng - i)" using 3(1) by simp
    ultimately show ?thesis
      unfolding out using halfword_length [of "ip6_halfword bs i"] by (simp split: if_splits)
  qed
qed

lemma ip6_compressed_length:
  assumes "ip6_compressed_chars addr = Some s"
  shows "length s \<le> 45"
proof -
  obtain bs rng longest colonpos out nc v4 where
    e: "ip6_emit bs rng longest colonpos 0 False = (out, nc)"
    and s: "rng = 8 \<and> s = out \<or> rng = 6 \<and> ip4_chars (drop 12 bs) [0x49, 0x34] = Some v4 \<and>
      s = out @ (if nc then [0x3a] else []) @ v4"
    using assms by (auto simp: ip6_compressed_chars_def Let_def split: option.splits prod.splits if_splits)
  from s show ?thesis using ip6_emit_length [OF e] ip4_length [of "drop 12 bs" "[0x49, 0x34]" v4] by auto
qed


lemma hex_to_bin_asc: "d < 16 \<Longrightarrow> hex_to_bin (hex_asc d) = int d"
proof -
  assume d: "d < 16"
  have "\<forall>d \<in> set [0..<16]. hex_to_bin (hex_asc d) = int d" by code_simp
  moreover have "d \<in> set [0..<16]" using d by simp
  ultimately show ?thesis by blast
qed

lemma nibbles_join:
  fixes b :: byte
  shows "push_bit 4 ((b AND 0xf0) div 16) OR (b AND 0x0f) = b"
proof -
  have k: "(0xf0 :: byte) = push_bit 4 (mask 4)" "(0x0f :: byte) = mask 4"
    by (simp_all add: mask_eq_exp_minus_1)
  have "(b AND 0xf0) div 16 = drop_bit 4 (b AND 0xf0)" by (simp add: drop_bit_eq_div)
  then show ?thesis
    unfolding k by (intro bit_word_eqI) (auto simp: bit_simps)
qed

lemma nibble_less: "unat (((b :: byte) AND 0xf0) div 16) < 16" "unat ((b :: byte) AND 0x0f) < 16"
proof -
  have "unat (b AND 0xf0) < 256" using unsigned_less [of "b AND 0xf0", where 'a = nat] by simp
  then show "unat ((b AND 0xf0) div 16) < 16" by (simp add: unat_div div_less_iff_less_mult)
  have "b AND 0x0f = take_bit 4 b" by (simp add: take_bit_eq_mask mask_eq_exp_minus_1)
  then show "unat (b AND 0x0f) < 16" by (simp add: take_bit_eq_mod unat_mod)
qed

lemma hex2bin_pack: "hex2bin (concat (map hex_byte_pack bs) @ s) (length bs) = (bs, True)"
proof (induction bs)
  case (Cons b bs)
  let ?h = "(b AND 0xf0) div 16" and ?l = "b AND 0x0f"
  have "word_of_int (int (unat ?h) * 16) OR word_of_int (int (unat ?l)) = b"
    using nibbles_join [of b] by (simp add: push_bit_eq_mult mult.commute)
  then show ?case
    using Cons by (simp add: hex_byte_pack_def char_at_def hex_to_bin_asc [OF nibble_less(1)]
        hex_to_bin_asc [OF nibble_less(2)])
qed simp

lemma bytes_at_nth: "\<forall>i \<in> set is. i < length addr \<Longrightarrow> bytes_at addr is = Some (map ((!) addr) is)"
  unfolding bytes_at_def by (induction "is") (auto simp: byte_at_def)

lemma bytes_at_take: "n \<le> length addr \<Longrightarrow> bytes_at addr [0..<n] = Some (take n addr)"
  by (subst bytes_at_nth) (auto simp: list_eq_iff_nth_eq)

lemma ip4_some: "4 \<le> length addr \<Longrightarrow> \<exists>s. ip4_chars addr fmt = Some s"
proof -
  assume len: "4 \<le> length addr"
  have "bytes_at addr [3, 2, 1, 0] = Some (map ((!) addr) [3, 2, 1, 0])"
    "bytes_at addr [0, 1, 2, 3] = Some (map ((!) addr) [0, 1, 2, 3])"
    by (rule bytes_at_nth; use len in auto)+
  then show ?thesis unfolding ip4_chars_def Let_def by (cases "char_at fmt 2 = 0x68 \<or> char_at fmt 2 = 0x6c") auto
qed

lemma addresses_some:
  assumes "16 \<le> length addr"
  shows "\<exists>s. mac_address_chars addr fmt = Some s" "\<exists>s. ip6_chars addr fmt = Some s"
    "\<exists>s. uuid_chars addr fmt = Some s" "\<exists>s. ip6_compressed_chars addr = Some s"
proof -
  show "\<exists>s. mac_address_chars addr fmt = Some s" "\<exists>s. ip6_chars addr fmt = Some s"
    using assms by (simp_all add: mac_address_chars_def ip6_chars_def bytes_at_take Let_def)
  show "\<exists>s. uuid_chars addr fmt = Some s"
  proof -
    have "bytes_at addr uuid_le = Some (map ((!) addr) uuid_le)" "bytes_at addr uuid_be = Some (map ((!) addr) uuid_be)"
      by (rule bytes_at_nth; use assms in \<open>auto simp: uuid_le_def uuid_be_def\<close>)+
    then show ?thesis unfolding uuid_chars_def Let_def by (cases "char_at fmt 1 = 0x4c \<or> char_at fmt 1 = 0x6c") auto
  qed
  have "4 \<le> length (drop 12 (take 16 addr))" using assms by simp
  then show "\<exists>s. ip6_compressed_chars addr = Some s"
    using ip4_some [of "drop 12 (take 16 addr)" "[0x49, 0x34]"] assms
    by (auto simp: ip6_compressed_chars_def bytes_at_take Let_def split: prod.split)
qed

lemma mac_hex:
  assumes "6 \<le> length addr"
  shows "mac_address_chars addr [0x6d] = Some (concat (map hex_byte_pack (take 6 addr)))"
proof -
  have "map (\<lambda>i. hex_byte_pack (take 6 addr ! i)) [0..<6] = map hex_byte_pack (take 6 addr)"
    using assms by (simp add: list_eq_iff_nth_eq)
  then show ?thesis using assms by (simp add: mac_address_chars_def bytes_at_take char_at_def)
qed




section \<open>The decoder's state\<close>

definition in_s16 :: "int \<Rightarrow> bool" where "in_s16 x \<longleftrightarrow> - 32768 \<le> x \<and> x \<le> 32767"

definition is_int_type :: "format_type \<Rightarrow> bool" where
  "is_int_type t \<longleftrightarrow> t \<notin> {FORMAT_TYPE_NONE, FORMAT_TYPE_WIDTH, FORMAT_TYPE_PRECISION, FORMAT_TYPE_CHAR, FORMAT_TYPE_STR,
     FORMAT_TYPE_PTR, FORMAT_TYPE_PERCENT_CHAR, FORMAT_TYPE_INVALID, FORMAT_TYPE_NRCHARS}"

definition spec_wf :: "printf_spec \<Rightarrow> bool" where
  "spec_wf spec \<longleftrightarrow> in_s16 (field_width spec) \<and> in_s16 (precision spec) \<and>
     (is_int_type (ps_type spec) \<longrightarrow> ps_base spec \<in> {8, 10, 16})"

definition widths_wf :: "printf_spec \<Rightarrow> bool" where
  "widths_wf spec \<longleftrightarrow> in_s16 (field_width spec) \<and> in_s16 (precision spec)"

lemma s16_in: "in_s16 (s16 x)" "in_s16 (- 1)" "in_s16 0" "in_s16 (max (s16 x) 0)"
proof -
  have "0 \<le> (x + 32768) mod 65536" "(x + 32768) mod 65536 < 65536" by simp_all
  then show "in_s16 (s16 x)" "in_s16 (max (s16 x) 0)" unfolding in_s16_def s16_def by linarith+
qed (simp_all add: in_s16_def)

lemma in_s16_max: "in_s16 x \<Longrightarrow> in_s16 (max x 0)"
  by (simp add: in_s16_def)

lemma decode_conversion_wf: "widths_wf spec \<Longrightarrow> spec_wf (snd (decode_conversion fmt spec))"
  by (simp add: decode_conversion_def spec_wf_def widths_wf_def Let_def is_int_type_def)

lemma decode_qualifier_wf: "widths_wf spec \<Longrightarrow> spec_wf (snd (decode_qualifier fmt spec))"
  by (simp add: decode_qualifier_def Let_def decode_conversion_wf widths_wf_def)

lemma spec_wf_other: "widths_wf spec \<Longrightarrow> \<not> is_int_type (ps_type spec) \<Longrightarrow> spec_wf spec"
  by (simp add: spec_wf_def widths_wf_def)

lemma not_int_types: "\<not> is_int_type FORMAT_TYPE_NONE" "\<not> is_int_type FORMAT_TYPE_WIDTH" "\<not> is_int_type FORMAT_TYPE_PRECISION"
  by (simp_all add: is_int_type_def)

lemma decode_precision_wf: "in_s16 (field_width spec) \<Longrightarrow> spec_wf (snd (decode_precision fmt spec))"
  by (simp add: decode_precision_def Let_def decode_qualifier_wf spec_wf_other widths_wf_def s16_in not_int_types
      split: prod.split)

lemma decode_width_wf: "in_s16 (precision spec) \<Longrightarrow> spec_wf (snd (decode_width fmt spec))"
  by (simp add: decode_width_def decode_precision_wf s16_in spec_wf_other widths_wf_def not_int_types split: prod.split)

lemma format_decode_wf:
  assumes "spec_wf spec"
  shows "spec_wf (snd (format_decode fmt spec))"
proof -
  have w: "in_s16 (field_width spec)" "in_s16 (precision spec)" using assms by (simp_all add: spec_wf_def)
  have "in_s16 (field_width ((if field_width spec < 0
      then spec\<lparr>field_width := s16 (- field_width spec), ps_flags := ps_flags spec OR LEFT\<rparr> else spec)
      \<lparr>ps_type := FORMAT_TYPE_NONE\<rparr>))" using w by (simp add: s16_in)
  then show ?thesis
    unfolding format_decode_def Let_def
    using w by (simp add: decode_precision_wf decode_qualifier_wf decode_width_wf widths_wf_def in_s16_max
        spec_wf_other not_int_types split: prod.split)
qed



end
