(* ===== verification/Format_Pieces.thy ===== *)
theory Format_Pieces
  imports Vsprintf_Props
begin

text \<open>
  The text of the formats the drivers use: literal characters, strings, decimal numbers and
  hexadecimal numbers, plain or padded with zeros.  A format is a list of pieces; its text is the
  texts of the pieces, one after the other.
\<close>

section \<open>Numbers\<close>

definition dec_text :: "nat \<Rightarrow> byte list" where
  "dec_text n = digit_chars 0 (rev (nat_digits 10 n))"

definition hex_text :: "nat \<Rightarrow> nat \<Rightarrow> byte list" where
  "hex_text w n =
     (let ds = digit_chars 0x20 (rev (nat_digits 16 n)) in replicate (w - length ds) 0x30 @ ds)"

lemma scast_nonneg:
  fixes v :: u32
  assumes "unat v < 2 ^ 31"
  shows "unat (scast v :: u64) = unat v" "0 \<le> sint (scast v :: u64)"
proof -
  obtain n where n: "unat v = n" by blast
  have "sint v = int n" using sint_eq_unat [OF assms] n by simp
  then have "(scast v :: u64) = of_nat n" by (simp add: scast_eq)
  then show "unat (scast v :: u64) = unat v"
    using assms n by (simp add: unat_of_nat)
  then show "0 \<le> sint (scast v :: u64)" using sint_neg_iff [of "scast v"] assms by simp
qed

lemma number_chars_d:
  fixes v :: u32
  assumes "unat v < 2 ^ 31" "ps_flags spec = SIGN" "ps_base spec = 10" "field_width spec = - 1" "precision spec = - 1"
  shows "number_chars (scast v) spec = dec_text (unat v)"
proof -
  have m: "magnitude (scast v) spec = scast v" using scast_nonneg(2) [OF assms(1)] by (simp add: magnitude_def)
  have vc: "value_chars (scast v) spec = dec_text (unat v)"
    by (simp add: value_chars_def m scast_nonneg(1) [OF assms(1)] dec_text_def assms format_flags)
  have sg: "number_sign SIGN (scast v) = []"
    using scast_nonneg(2) [OF assms(1)] by (simp add: number_sign_def format_flags)
  have cw: "content_width (scast v) spec = int (length (dec_text (unat v)))" "prefix_chars spec = []"
    by (simp_all add: content_width_def sg vc prefix_chars_def assms max_def)
  have "length (dec_text (unat v)) \<le> 22" using value_chars_length [of spec "scast v"] vc assms by simp
  then have "widths_fit (scast v) spec" by (simp add: widths_fit_def cw assms)
  then show ?thesis
    using number_chars_layout [of spec "scast v"] assms by (simp add: layout_def Let_def sg [unfolded SIGN_def] vc cw format_flags)
qed

lemma unat_widen: "unat (ucast (v :: u32) :: u64) = unat v"
  by (simp add: unsigned_ucast_eq take_bit_nat_eq_self unsigned_less [of v, THEN order_less_le_trans])

lemma number_chars_x:
  fixes v :: u32
  assumes "ps_flags spec = (if w = 0 then SMALL else ZEROPAD OR SMALL)" "ps_base spec = 16"
    "field_width spec = (if w = 0 then - 1 else int w)" "precision spec = - 1" "w < 10"
  shows "number_chars (ucast v) spec = hex_text w (unat v)"
proof -
  let ?ds = "digit_chars 0x20 (rev (nat_digits 16 (unat v)))"
  have f: "ps_flags spec AND SMALL = 0x20" "ps_flags spec AND SIGN = 0" "ps_flags spec AND SPECIAL = 0"
    "ps_flags spec AND LEFT = 0" "ps_flags spec AND ZEROPAD = 0 \<longleftrightarrow> w = 0"
    by (simp_all add: assms(1) format_flags)
  have vc: "value_chars (ucast v) spec = ?ds" by (simp add: value_chars_def f magnitude_def assms(2) unat_widen)
  have sg: "number_sign (ps_flags spec) (ucast v) = []" "prefix_chars spec = []"
    by (simp_all add: number_sign_def prefix_chars_def f)
  have len: "length ?ds \<le> 22" using value_chars_length [of spec "ucast v"] vc assms(2) by simp
  have cw: "content_width (ucast v) spec = int (length ?ds)"
    by (simp add: content_width_def sg vc assms(4) max_def)
  have gap: "nat (int a - int b) = a - b" for a b by simp
  have "widths_fit (ucast v) spec" using len assms(5) by (auto simp: widths_fit_def cw assms(3))
  then show ?thesis
    using number_chars_layout [of spec "ucast v"] assms(2)
    by (simp add: layout_def Let_def sg vc cw f assms(3,4) hex_text_def gap)
qed

lemma string_chars_plain:
  assumes "\<forall>c \<in> set s. c \<noteq> 0" "field_width spec = - 1" "precision spec = - 1"
  shows "string_chars s spec = s"
  using assms by (simp add: string_chars_def strnlen_def Let_def takeWhile_eq_all_conv [THEN iffD2] s16_def)

section \<open>Pieces\<close>

datatype piece = Lit "byte list" | Str "byte list" | Dec u32 | Hex nat u32

fun piece_fmt :: "piece \<Rightarrow> byte list" where
  "piece_fmt (Lit l) = l"
| "piece_fmt (Str s) = [0x25, 0x73]"
| "piece_fmt (Dec v) = [0x25, 0x64]"
| "piece_fmt (Hex w v) = (if w = 0 then [0x25, 0x78] else [0x25, 0x30, 0x30 + of_nat w, 0x78])"

fun piece_args :: "piece \<Rightarrow> va_arg list" where
  "piece_args (Lit l) = []"
| "piece_args (Str s) = [VStr (Some s)]"
| "piece_args (Dec v) = [VInt v]"
| "piece_args (Hex w v) = [VInt v]"

fun piece_text :: "piece \<Rightarrow> byte list" where
  "piece_text (Lit l) = l"
| "piece_text (Str s) = s"
| "piece_text (Dec v) = dec_text (unat v)"
| "piece_text (Hex w v) = hex_text w (unat v)"

fun piece_ok :: "piece \<Rightarrow> bool" where
  "piece_ok (Lit l) \<longleftrightarrow> l \<noteq> [] \<and> list_all plain_char l"
| "piece_ok (Str s) \<longleftrightarrow> 0 \<notin> set s"
| "piece_ok (Dec v) \<longleftrightarrow> unat v < 2 ^ 31"
| "piece_ok (Hex w v) \<longleftrightarrow> w < 10"

fun pieces_ok :: "piece list \<Rightarrow> bool" where
  "pieces_ok (Lit l # Lit l' # ps) \<longleftrightarrow> False"
| "pieces_ok (p # ps) \<longleftrightarrow> piece_ok p \<and> pieces_ok ps"
| "pieces_ok [] \<longleftrightarrow> True"

definition pieces_fmt :: "piece list \<Rightarrow> byte list" where "pieces_fmt ps = concat (map piece_fmt ps)"
definition pieces_args :: "piece list \<Rightarrow> va_arg list" where "pieces_args ps = concat (map piece_args ps)"
definition pieces_text :: "piece list \<Rightarrow> byte list" where "pieces_text ps = concat (map piece_text ps)"

definition piece_spec :: "piece \<Rightarrow> printf_spec" where
  "piece_spec p =
     (case p of
        Dec v \<Rightarrow> \<lparr>ps_type = FORMAT_TYPE_INT, ps_flags = SIGN, ps_base = 10, ps_qualifier = 255, field_width = - 1, precision = - 1\<rparr>
      | Hex w v \<Rightarrow> \<lparr>ps_type = FORMAT_TYPE_UINT, ps_flags = (if w = 0 then SMALL else ZEROPAD OR SMALL), ps_base = 16,
           ps_qualifier = 255, field_width = (if w = 0 then - 1 else int w), precision = - 1\<rparr>
      | _ \<Rightarrow> \<lparr>ps_type = FORMAT_TYPE_STR, ps_flags = 0, ps_base = 10, ps_qualifier = 255, field_width = - 1, precision = - 1\<rparr>)"

definition is_lit :: "piece \<Rightarrow> bool" where
  "is_lit p = (case p of Lit _ \<Rightarrow> True | _ \<Rightarrow> False)"

definition fresh_spec :: "printf_spec \<Rightarrow> bool" where
  "fresh_spec spec \<longleftrightarrow> ps_type spec \<noteq> FORMAT_TYPE_WIDTH \<and> ps_type spec \<noteq> FORMAT_TYPE_PRECISION"

lemmas decode_defs = format_decode_def decode_width_def decode_precision_def decode_qualifier_def
  decode_conversion_def char_at_def to_lower_def int_type_def Let_def isdigit_def

lemma decode_piece:
  assumes "fresh_spec spec" "\<not> is_lit p" "piece_ok p"
  shows "format_decode (piece_fmt p @ fmt) spec = (fmt, piece_spec p)"
proof (cases p)
  case (Hex w v)
  have "w < 10" using assms(3) by (simp add: Hex)
  then have "w \<in> {0, 1, 2, 3, 4, 5, 6, 7, 8, 9}" by (simp add: eval_nat_numeral less_Suc_eq)
  then show ?thesis using assms(1) unfolding Hex
    by (elim insertE emptyE) (simp_all add: fresh_spec_def decode_defs piece_spec_def format_flags s16_def)
qed (use assms in \<open>simp_all add: fresh_spec_def decode_defs piece_spec_def is_lit_def format_flags\<close>)

lemma convert_piece:
  assumes "\<not> is_lit p" "piece_ok p"
  shows "vsn_convert env (piece_spec p) fmt (piece_args p @ args) pos = Some (piece_text p, fmt, args, piece_spec p, [])"
proof (cases p)
  case (Hex w v)
  then show ?thesis
    using assms number_chars_x [of "piece_spec p" w v] by (simp add: vsn_convert_def piece_spec_def int_value_def)
next
  case (Dec v)
  then show ?thesis
    using assms number_chars_d [of v "piece_spec p"] by (simp add: vsn_convert_def piece_spec_def int_value_def)
next
  case (Str s)
  then have "\<forall>c \<in> set s. c \<noteq> 0" using assms(2) by auto
  with Str show ?thesis by (simp add: vsn_convert_def piece_spec_def string_chars_plain)
qed (use assms in \<open>simp add: is_lit_def\<close>)

lemma vsn_text_literal:
  assumes "char_at fmt 0 \<noteq> 0" "format_decode fmt spec = (rest, spec')" "ps_type spec' = FORMAT_TYPE_NONE"
    "fmt = lit @ rest"
  shows "vsn_text env fmt spec args pos =
    map_option (\<lambda>(chars, cnt). (lit @ chars, cnt)) (vsn_text env rest spec' args (pos + length lit))"
  using assms by (subst vsn_text.simps) (simp add: Let_def)

lemma vsn_text_convert:
  assumes "char_at fmt 0 \<noteq> 0" "format_decode fmt spec = (rest, spec')" "ps_type spec' \<noteq> FORMAT_TYPE_NONE"
    "vsn_convert env spec' rest args pos = Some (out, rest', args', spec'', c)"
  shows "vsn_text env fmt spec args pos =
    map_option (\<lambda>(chars, cnt). (out @ chars, c @ cnt)) (vsn_text env rest' spec'' args' (pos + length out))"
  using assms by (subst vsn_text.simps) (simp add: Let_def)

lemma pieces_step:
  assumes "pieces_ok (p # ps)"
  shows "piece_ok p" "pieces_ok ps" "is_lit p \<Longrightarrow> pieces_fmt ps = [] \<or> hd (pieces_fmt ps) = 0x25"
proof -
  show "piece_ok p" "pieces_ok ps" using assms by (induction "p # ps" rule: pieces_ok.induct) auto
  show "pieces_fmt ps = [] \<or> hd (pieces_fmt ps) = 0x25" if "is_lit p"
  proof (cases ps)
    case (Cons q qs)
    then show ?thesis using that assms by (cases p; cases q) (auto simp: is_lit_def pieces_fmt_def)
  qed (simp add: pieces_fmt_def)
qed

lemma vsn_text_pieces:
  "pieces_ok ps \<Longrightarrow> fresh_spec spec \<Longrightarrow>
   vsn_text env (pieces_fmt ps) spec (pieces_args ps) pos = Some (pieces_text ps, [])"
proof (induction ps arbitrary: spec pos)
  case Nil
  then show ?case by (subst vsn_text.simps) (simp add: pieces_fmt_def pieces_text_def char_at_def)
next
  case (Cons p ps)
  note ok = pieces_step [OF Cons.prems(1)]
  have fmt: "pieces_fmt (p # ps) = piece_fmt p @ pieces_fmt ps" "pieces_args (p # ps) = piece_args p @ pieces_args ps"
    "pieces_text (p # ps) = piece_text p @ pieces_text ps"
    by (simp_all add: pieces_fmt_def pieces_args_def pieces_text_def)
  show ?case
  proof (cases "is_lit p")
    case True
    then obtain l where p: "p = Lit l" by (cases p) (auto simp: is_lit_def)
    then have l: "l \<noteq> []" "\<forall>c \<in> set l. plain_char c" using ok(1) by (auto simp: list_all_iff)
    have "dropWhile plain_char (l @ pieces_fmt ps) = pieces_fmt ps"
      using l(2) ok(3) [OF True] by (cases "pieces_fmt ps") (auto simp: plain_char_def)
    moreover have "char_at (l @ pieces_fmt ps) 0 = hd l" "plain_char (hd l)"
      using l by (cases l; simp add: char_at_def)+
    ultimately have "format_decode (l @ pieces_fmt ps) spec = (pieces_fmt ps, spec\<lparr>ps_type := FORMAT_TYPE_NONE\<rparr>)"
      "char_at (l @ pieces_fmt ps) 0 \<noteq> 0"
      using Cons.prems(2) by (simp_all add: fresh_spec_def format_decode_def Let_def plain_char_def)
    from vsn_text_literal [OF this(2,1) _ refl] show ?thesis
      using Cons.IH [OF ok(2)] unfolding fmt by (simp add: p fresh_spec_def)
  next
    case False
    have "char_at (piece_fmt p @ pieces_fmt ps) 0 \<noteq> 0" using False by (cases p) (simp_all add: is_lit_def char_at_def)
    from vsn_text_convert [OF this decode_piece [OF Cons.prems(2) False ok(1)] _ convert_piece [OF False ok(1)]]
    show ?thesis
      using Cons.IH [OF ok(2), of "piece_spec p"]
      by (simp add: fmt piece_spec_def fresh_spec_def split: piece.splits)
  qed
qed

lemma format_text_pieces:
  "pieces_ok ps \<Longrightarrow> format_text env (pieces_fmt ps) (pieces_args ps) = Some (pieces_text ps, [])"
  by (simp add: format_text_def vsn_text_pieces fresh_spec_def spec_init_def)

end
