(* ===== verification/Ale_Sysfs.thy ===== *)
theory Ale_Sysfs
  imports Ale_Control Format_Pieces
begin

text \<open>
  The control file of the address lookup engine, \<open>ale_control\<close> in sysfs: what reading it prints and what
  writing a line to it does.
\<close>

section \<open>The two methods\<close>

definition bytes_of :: "string \<Rightarrow> byte list" where "bytes_of = map of_char"

definition errno_val :: "errno \<Rightarrow> u32" where
  "errno_val e = (case e of EPERM \<Rightarrow> 1 | ENOENT \<Rightarrow> 2 | ENOMEM \<Rightarrow> 12 | EFAULT \<Rightarrow> 14 | EBUSY \<Rightarrow> 16 | ENODEV \<Rightarrow> 19 | EINVAL \<Rightarrow> 22
     | ERANGE \<Rightarrow> 34)"

text \<open>The int a call returns: a value, or a negative error number.\<close>

definition int_result :: "u32 result \<Rightarrow> u32" where
  "int_result r = (case r of Inl e \<Rightarrow> - errno_val e | Inr v \<Rightarrow> v)"

definition global_line :: "print_env \<Rightarrow> byte list \<Rightarrow> nat \<Rightarrow> u32 \<Rightarrow> (byte list \<times> nat \<times> nat list) option" where
  "global_line env buf i v =
     snprintf env buf (bytes_of ''%s=%d'' @ [0x0a])
       [VStr (Some (bytes_of (ci_name (ale_controls (ale_control_enum ! i))))), VInt v]"

definition port_line :: "print_env \<Rightarrow> byte list \<Rightarrow> nat \<Rightarrow> nat \<Rightarrow> u32 \<Rightarrow> (byte list \<times> nat \<times> nat list) option" where
  "port_line env buf i port v =
     snprintf env buf (bytes_of ''%s.%d=%d'' @ [0x0a])
       [VStr (Some (bytes_of (ci_name (ale_controls (ale_control_enum ! i))))), VInt (of_nat port), VInt v]"

text \<open>One \<open>snprintf\<close> at offset \<open>len\<close> of the page.  A negative size makes it return 0.\<close>

definition at_offset ::
  "(byte list \<Rightarrow> (byte list \<times> nat \<times> nat list) option) \<Rightarrow> byte list \<times> nat \<Rightarrow> (byte list \<times> nat) option" where
  "at_offset print st =
     (case st of (buf, len) \<Rightarrow>
        if length buf < len then Some (buf, len)
        else case print (drop len buf) of
               None \<Rightarrow> None
             | Some (rest, n, _) \<Rightarrow> Some (take len buf @ rest, len + n))"

fun print_all ::
  "(byte list \<Rightarrow> (byte list \<times> nat \<times> nat list) option) list \<Rightarrow> byte list \<times> nat \<Rightarrow> (byte list \<times> nat) option" where
  "print_all [] st = Some st"
| "print_all (p # ps) st = (case at_offset p st of None \<Rightarrow> None | Some st \<Rightarrow> print_all ps st)"

text \<open>\<open>cpsw_ale_control_show\<close> on the page \<open>buf\<close> of 4096 bytes.\<close>

definition cpsw_ale_control_show ::
  "'h ale_dev \<Rightarrow> print_env \<Rightarrow> byte list \<Rightarrow> 'h cpsw_ale \<Rightarrow> (byte list \<times> nat) option" where
  "cpsw_ale_control_show dev env buf ale =
     print_all (concat (map (\<lambda>i.
         let info = ale_controls (ale_control_enum ! i)
         in if ci_port_shift info = 0 \<and> ci_port_offset info = 0
            then [\<lambda>buf. global_line env buf i (int_result (cpsw_ale_control_get dev 0 (int i) ale))]
            else map (\<lambda>port buf. port_line env buf i port
                   (int_result (cpsw_ale_control_get dev (int port) (int i) ale))) [0..<ale_ports ale])
       [0..<length ale_control_enum])) (buf, 0)"

definition strcspn :: "byte list \<Rightarrow> byte list \<Rightarrow> nat" where
  "strcspn s reject = length (takeWhile (\<lambda>c. c \<noteq> 0 \<and> c \<notin> set reject) s)"

fun control_index :: "byte list \<Rightarrow> ale_control list \<Rightarrow> nat" where
  "control_index name [] = 0"
| "control_index name (c # cs) =
     (if name = bytes_of (ci_name (ale_controls c)) then 0 else Suc (control_index name cs))"

definition cpsw_ale_control_store ::
  "'h ale_dev \<Rightarrow> byte list \<Rightarrow> nat \<Rightarrow> 'h cpsw_ale \<Rightarrow> nat result \<times> 'h cpsw_ale" where
  "cpsw_ale_control_store dev buf count ale =
     (let len = strcspn buf [0x2e, 0x3d]
      in if 32 \<le> len then (Inl ENOMEM, ale)
         else let ctrl_str = take len buf; buf = drop len buf;
                  (port, buf) = (if char_at buf 0 = 0x2e
                                 then case simple_strtoul (drop 1 buf) 0 of (p, e) \<Rightarrow> (sint p, e)
                                 else (0, buf))
              in if char_at buf 0 \<noteq> 0x3d then (Inl EINVAL, ale)
                 else let value = fst (simple_strtoul (drop 1 buf) 0);
                          control = control_index ctrl_str ale_control_enum
                      in if length ale_control_enum \<le> control then (Inl ENOENT, ale)
                         else case cpsw_ale_control_set dev port (int control) value ale of
                                (Inl e, ale) \<Rightarrow> (Inl e, ale)
                              | (Inr _, ale) \<Rightarrow> (Inr count, ale))"


section \<open>The text of a line\<close>

lemma global_text:
  assumes "\<forall>c \<in> set name. c \<noteq> 0" "unat v < 2 ^ 31"
  shows "format_text env (bytes_of ''%s=%d'' @ [0x0a]) [VStr (Some name), VInt v] =
    Some (name @ [0x3d] @ dec_text (unat v) @ [0x0a], [])"
proof -
  let ?ps = "[Str name, Lit [0x3d], Dec v, Lit [0x0a]]"
  have "pieces_fmt ?ps = bytes_of ''%s=%d'' @ [0x0a]" by (simp add: pieces_fmt_def bytes_of_def)
  moreover have "pieces_ok ?ps" using assms by (auto simp: plain_char_def)
  ultimately show ?thesis
    using format_text_pieces [of ?ps env] by (simp add: pieces_args_def pieces_text_def)
qed

lemma port_text:
  assumes "\<forall>c \<in> set name. c \<noteq> 0" "unat p < 2 ^ 31" "unat v < 2 ^ 31"
  shows "format_text env (bytes_of ''%s.%d=%d'' @ [0x0a]) [VStr (Some name), VInt p, VInt v] =
    Some (name @ [0x2e] @ dec_text (unat p) @ [0x3d] @ dec_text (unat v) @ [0x0a], [])"
proof -
  let ?ps = "[Str name, Lit [0x2e], Dec p, Lit [0x3d], Dec v, Lit [0x0a]]"
  have "pieces_fmt ?ps = bytes_of ''%s.%d=%d'' @ [0x0a]" by (simp add: pieces_fmt_def bytes_of_def)
  moreover have "pieces_ok ?ps" using assms by (auto simp: plain_char_def)
  ultimately show ?thesis
    using format_text_pieces [of ?ps env] by (simp add: pieces_args_def pieces_text_def)
qed


section \<open>Reading a line back\<close>

lemma nat_digits_last:
  assumes "2 \<le> b" "0 < n"
  shows "last (nat_digits b n) \<noteq> 0"
  using assms by (induction b n rule: nat_digits.induct) (subst nat_digits.simps, auto simp: nat_digits_not_Nil div_greater_zero_iff)

lemma digit_prefix_stop:
  assumes "\<forall>d \<in> set ds. d < b" "b \<le> 16" "digit_val c = None"
  shows "digit_prefix b (digit_chars 0 ds @ c # s) = ds"
proof -
  have "digit_val (digit_char d) = Some d" if "d < b" for d using digit_val_char [of d 0] that assms(2) by simp
  with assms(1,3) show ?thesis by (induction ds) auto
qed

lemma strtoul_dec_text:
  assumes n: "n < 2 ^ 31" and c: "digit_val c = None" "to_lower c \<noteq> 0x78"
  shows "simple_strtoul (dec_text n @ c # s) 0 = (of_nat n, c # s)"
proof -
  let ?ds = "rev (nat_digits 10 n)"
  have lt: "\<forall>d \<in> set ?ds. d < 10" using nat_digits_less [of 10 _ n] by auto
  have u: "ucast (of_nat n :: u64) = (of_nat n :: u32)"
    using n by (simp add: unsigned_of_nat take_bit_nat_eq_self)
  have parsed: "simple_strtoul (dec_text n @ c # s) 0 = (of_nat n, c # s)"
    if fx: "parse_integer_fixup_radix (dec_text n @ c # s) 0 = (dec_text n @ c # s, b)"
      and b: "b \<le> 16" "\<forall>d \<in> set ?ds. d < b" "horner b ?ds = n" for b
  proof -
    have p: "digit_prefix b (dec_text n @ c # s) = ?ds"
      unfolding dec_text_def using digit_prefix_stop [OF b(2,1) c(1)] .
    have "drop (length ?ds) (dec_text n @ c # s) = c # s" by (simp add: dec_text_def)
    then show ?thesis by (simp add: simple_strtoul_def simple_strtoull_def fx parse_integer_exact p b(3) u)
  qed
  show ?thesis
  proof (cases "n = 0")
    case True
    have "dec_text n @ c # s = 0x30 # c # s" "?ds = [0]"
      by (simp_all add: True dec_text_def nat_digits.simps [of 10 0] digit_char_def)
    then show ?thesis
      using c(2) by (intro parsed [of 8]) (simp_all add: parse_integer_fixup_radix_def char_at_def Let_def horner_def True)
  next
    case False
    let ?d = "last (nat_digits 10 n)"
    have "?d < 10" using nat_digits_less [of 10 ?d n] last_in_set [OF nat_digits_not_Nil] by simp
    then have d: "?d \<noteq> 0" "?d < 16" using nat_digits_last [of 10 n] False by simp_all
    have "digit_char ?d \<noteq> 0x30"
      using digit_val_char [OF d(2), of 0] digit_val_char [of 0 0] d(1) zero_char [of 0] by auto
    moreover have "char_at (dec_text n @ c # s) 0 = digit_char ?d"
      using nat_digits_not_Nil [of 10 n] by (simp add: dec_text_def char_at_def nth_append rev_nth last_conv_nth)
    ultimately show ?thesis
      using lt by (intro parsed [of 10])
        (simp_all add: parse_integer_fixup_radix_def Let_def horner_def nat_digits_value)
  qed
qed


text \<open>The first control with the name of control \<open>i\<close>.\<close>

definition named_control :: "nat \<Rightarrow> nat" where "named_control i = (if i = 16 then 15 else i)"

definition control_name :: "nat \<Rightarrow> byte list" where
  "control_name i = bytes_of (ci_name (ale_controls (ale_control_enum ! i)))"

definition name_char :: "byte \<Rightarrow> bool" where "name_char c \<longleftrightarrow> c \<noteq> 0 \<and> c \<noteq> 0x2e \<and> c \<noteq> 0x3d"

lemma of_char_byte_eq: "(of_char c :: byte) = of_char d \<longleftrightarrow> c = d"
proof
  have u: "unat (of_char e :: byte) = of_char e" for e
  proof -
    obtain n where n: "n = (of_char e :: nat)" by blast
    then have "n < 256" by simp
    then have "unat (of_nat n :: byte) = n" by (simp add: unat_of_nat take_bit_nat_eq_self)
    moreover have "(of_nat n :: byte) = of_char e" unfolding n by (rule of_nat_of_char)
    ultimately show ?thesis using n by simp
  qed
  assume "(of_char c :: byte) = of_char d"
  then have "(of_char c :: nat) = of_char d" using u [of c] u [of d] by (simp only:)
  then show "c = d" by simp
qed simp

lemma bytes_of_eq: "bytes_of s = bytes_of t \<longleftrightarrow> s = t"
  unfolding bytes_of_def by (rule inj_map_eq_map) (simp add: inj_def of_char_byte_eq)

lemma control_names:
  "\<forall>i \<in> set [0..<23]. list_all name_char (control_name i) \<and> length (control_name i) < 32"
  by code_simp

lemma control_indices:
  "\<forall>i \<in> set [0..<23]. control_index (control_name i) ale_control_enum = named_control i"
  unfolding control_name_def
  by (simp add: upt_rec ale_control_enum_def bytes_of_eq named_control_def CTRL_GLOBAL_def CTRL_UNK_def CTRL_PORTCTL_def)

lemma control_name_facts:
  assumes "i < 23"
  shows "\<forall>c \<in> set (control_name i). name_char c" "length (control_name i) < 32"
    "control_index (control_name i) ale_control_enum = named_control i"
  using bspec [OF control_names, of i] bspec [OF control_indices, of i] assms by (auto simp: list_all_iff)

lemma strcspn_name:
  assumes "\<forall>c \<in> set name. name_char c" "\<not> name_char c"
  shows "strcspn (name @ c # s) [0x2e, 0x3d] = length name"
proof -
  have "takeWhile (\<lambda>c. c \<noteq> 0 \<and> c \<notin> set [0x2e, 0x3d]) (name @ c # s) = name"
    using assms by (subst takeWhile_append2) (auto simp: name_char_def)
  then show ?thesis by (simp add: strcspn_def)
qed

text \<open>What the two kinds of line say when they are written to the file.\<close>

definition set_control :: "'h ale_dev \<Rightarrow> nat \<Rightarrow> nat \<Rightarrow> u32 \<Rightarrow> nat \<Rightarrow> 'h cpsw_ale \<Rightarrow> nat result \<times> 'h cpsw_ale" where
  "set_control dev port i v count ale =
     map_prod (map_sum id (\<lambda>_. count)) id (cpsw_ale_control_set dev (int port) (int i) v ale)"

lemma store_lines:
  assumes "i < 23" "unat v < 2 ^ 31" "p < 2 ^ 31"
  shows "cpsw_ale_control_store dev (control_name i @ [0x3d] @ dec_text (unat v) @ [0x0a]) count ale =
      set_control dev 0 (named_control i) v count ale"
    "cpsw_ale_control_store dev
      (control_name i @ [0x2e] @ dec_text p @ [0x3d] @ dec_text (unat v) @ [0x0a]) count ale =
      set_control dev p (named_control i) v count ale"
proof -
  note n = control_name_facts [OF assms(1)]
  have nc: "named_control i < 23" using assms(1) by (simp add: named_control_def)
  have len: "length ale_control_enum = 23" by (simp add: ale_control_enum_def)
  have dig: "digit_val 0x0a = None" "digit_val 0x3d = None" "to_lower 0x0a \<noteq> 0x78" "to_lower 0x3d \<noteq> 0x78"
    by (simp_all add: digit_val_def to_lower_def)
  have v: "simple_strtoul (dec_text (unat v) @ [0x0a]) 0 = (v, [0x0a])"
    using strtoul_dec_text [OF assms(2) dig(1,3), of "[]"] by simp
  have p: "simple_strtoul (dec_text p @ 0x3d # s) 0 = (of_nat p, 0x3d # s)" for s
    using strtoul_dec_text [OF assms(3) dig(2,4)] .
  have up: "unat (of_nat p :: u32) = p" using assms(3) by (simp add: unat_of_nat take_bit_nat_eq_self)
  then have sp: "sint (of_nat p :: u32) = int p" using sint_eq_unat [of "of_nat p"] assms(3) by simp
  have fin: "(case cpsw_ale_control_set dev q (int j) v ale of (Inl e, ale) \<Rightarrow> (Inl e, ale) | (Inr _, ale) \<Rightarrow> (Inr count, ale)) =
      map_prod (map_sum id (\<lambda>_. count)) id (cpsw_ale_control_set dev q (int j) v ale)" for q j
    by (simp split: prod.split sum.split)
  show "cpsw_ale_control_store dev (control_name i @ [0x3d] @ dec_text (unat v) @ [0x0a]) count ale =
      set_control dev 0 (named_control i) v count ale"
    using n nc v strcspn_name [OF n(1), of "0x3d" "dec_text (unat v) @ [0x0a]"]
    by (simp add: cpsw_ale_control_store_def Let_def len set_control_def fin name_char_def char_at_def)
  show "cpsw_ale_control_store dev
      (control_name i @ [0x2e] @ dec_text p @ [0x3d] @ dec_text (unat v) @ [0x0a]) count ale =
      set_control dev p (named_control i) v count ale"
    using n nc v p [of "dec_text (unat v) @ [0x0a]"] sp
      strcspn_name [OF n(1), of "0x2e" "dec_text p @ 0x3d # dec_text (unat v) @ [0x0a]"]
    by (simp add: cpsw_ale_control_store_def Let_def len set_control_def fin name_char_def char_at_def)
qed


lemma dec_text_length: "n < 2 ^ 31 \<Longrightarrow> length (dec_text n) \<le> 10"
  using nat_digits_length [of 10 n 9] by (simp add: dec_text_def)

lemma snprintf_whole:
  assumes "format_text env fmt args = Some (chars, [])" "length chars < length buf" "length buf < 2 ^ 31"
  shows "\<exists>buf'. snprintf env buf fmt args = Some (buf', length chars, []) \<and> take (length chars) buf' = chars"
proof -
  have "snprintf env buf fmt args = Some (terminated buf chars, length chars, [])"
    using vsnprintf_text [OF assms(3), of env fmt args] assms(1) by (simp add: snprintf_def)
  moreover have "take (length chars) (terminated buf chars) = chars"
    using assms(2) by (auto simp: terminated_def Let_def)
  ultimately show ?thesis by blast
qed

text \<open>C37.  The control file.  A line that reading the file prints for a control, with the value and the port
  of a port control, is accepted when it is written back: \<open>cpsw_ale_control_store\<close> finds the name, reads the
  numbers back as they were printed, and calls \<open>cpsw_ale_control_set\<close> for that port with that value; the
  result is the count or that call's error.  The control it sets is the one printed, except that a line
  printed for \<open>ALE_PORT_NO_SA_UPDATE\<close>, control 16, sets \<open>ALE_PORT_NOLEARN\<close>, control 15, whose name it has.\<close>

theorem control_file_roundtrip:
  assumes "i < 23" "unat v < 2 ^ 31" "port < 2 ^ 31" "60 \<le> length buf" "length buf < 2 ^ 31"
  shows "(\<exists>buf' n. global_line env buf i v = Some (buf', n, []) \<and>
      cpsw_ale_control_store dev (take n buf') count ale = set_control dev 0 (named_control i) v count ale) \<and>
    (\<exists>buf' n. port_line env buf i port v = Some (buf', n, []) \<and>
      cpsw_ale_control_store dev (take n buf') count ale = set_control dev port (named_control i) v count ale)"
proof -
  note n = control_name_facts [OF assms(1)]
  have nz: "\<forall>c \<in> set (control_name i). c \<noteq> 0" using n(1) by (auto simp: name_char_def)
  have up: "unat (of_nat port :: u32) = port" using assms(3) by (simp add: unat_of_nat take_bit_nat_eq_self)
  note len = dec_text_length [OF assms(2)] dec_text_length [OF assms(3)]
  let ?g = "control_name i @ [0x3d] @ dec_text (unat v) @ [0x0a]"
  let ?p = "control_name i @ [0x2e] @ dec_text port @ [0x3d] @ dec_text (unat v) @ [0x0a]"
  have "length ?g < length buf" "length ?p < length buf" using n(2) len assms(4) by simp_all
  then obtain b1 b2 where "global_line env buf i v = Some (b1, length ?g, [])" "take (length ?g) b1 = ?g"
    "port_line env buf i port v = Some (b2, length ?p, [])" "take (length ?p) b2 = ?p"
    using snprintf_whole [OF global_text [OF nz assms(2)] _ assms(5), of env]
      snprintf_whole [OF port_text [OF nz _ assms(2), of "of_nat port" env, unfolded up, OF assms(3)] _ assms(5)]
    unfolding global_line_def port_line_def control_name_def by meson
  then show ?thesis using store_lines [OF assms(1-3)] by metis
qed

theorem control_file_roundtrip_witness:
  "\<exists>buf' n. port_line \<lparr>in_interrupt = False, kptr_restrict = 0, cap_syslog = False\<rparr> (replicate 60 0) 16 1 1 = Some (buf', n, []) \<and>
     cpsw_ale_control_store sim_dev (take n buf') 12 sim_ale = set_control sim_dev 1 15 1 12 sim_ale"
  using control_file_roundtrip [of 16 1 1 "replicate 60 0" "\<lparr>in_interrupt = False, kptr_restrict = 0, cap_syslog = False\<rparr>" sim_dev 12 sim_ale]
  by (simp add: named_control_def)

end
