(* ===== verification/Ale_Dump.thy ===== *)
theory Ale_Dump
  imports Ale_Sysfs
begin

text \<open>
  The table file of the address lookup engine, \<open>ale_table\<close> in sysfs: the text of an entry, the
  functions that print it into the page, and what a reader of the file gets.
\<close>

section \<open>The code\<close>

text \<open>One \<open>snprintf (buf + outlen, len - outlen, ...)\<close> with \<open>outlen += ...\<close>.\<close>

definition put :: "print_env \<Rightarrow> byte list \<Rightarrow> va_arg list \<Rightarrow> byte list \<times> nat \<Rightarrow> (byte list \<times> nat) option" where
  "put env fmt args = at_offset (\<lambda>buf. snprintf env buf fmt args)"

definition VText :: "string \<Rightarrow> va_arg" where "VText s = VStr (Some (bytes_of s))"

definition cpsw_ale_dump_mcast :: "print_env \<Rightarrow> ale_entry \<Rightarrow> byte list \<times> nat \<Rightarrow> (byte list \<times> nat) option" where
  "cpsw_ale_dump_mcast env e st =
     (let mcast_state = ale_get Mcast_state e;
          port_mask = ale_get Port_mask e;
          super = ale_get Super e
      in do {
        state \<leftarrow> mem_get [''f'', ''blf'', ''lf'', ''f''] (unat mcast_state);
        st \<leftarrow> put env (bytes_of ''mcstate: %s(%d), '') [VText state, VInt mcast_state] st;
        put env (bytes_of ''port mask: %x, %ssuper'' @ [0x0a])
          [VInt port_mask, VText (if super \<noteq> 0 then '''' else ''no '')] st
      })"

definition cpsw_ale_dump_ucast :: "print_env \<Rightarrow> ale_entry \<Rightarrow> byte list \<times> nat \<Rightarrow> (byte list \<times> nat) option" where
  "cpsw_ale_dump_ucast env e st =
     (let ucast_type = ale_get Ucast_type e;
          port_num = ale_get Port_num e;
          secure = ale_get Secure e;
          blocked = ale_get Blocked e
      in do {
        name \<leftarrow> mem_get [''persistant'', ''untouched'', ''oui'', ''touched''] (unat ucast_type);
        st \<leftarrow> put env (bytes_of ''uctype: %s(%d), '') [VText name, VInt ucast_type] st;
        put env (bytes_of ''port: %d%s%s'' @ [0x0a])
          [VInt port_num, VText (if secure \<noteq> 0 then '', Secure'' else ''''),
           VText (if blocked \<noteq> 0 then '', Blocked'' else '''')] st
      })"

definition cpsw_ale_dump_vlan :: "print_env \<Rightarrow> ale_entry \<Rightarrow> byte list \<times> nat \<Rightarrow> (byte list \<times> nat) option" where
  "cpsw_ale_dump_vlan env e st =
     do {
       st \<leftarrow> put env (bytes_of ''vlanuntag: %x, '') [VInt (ale_get Vlan_untag_force e)] st;
       st \<leftarrow> put env (bytes_of ''vlanregmcast: %x, '') [VInt (ale_get Vlan_reg_mcast e)] st;
       st \<leftarrow> put env (bytes_of ''vlanunregmcast: %x, '') [VInt (ale_get Vlan_unreg_mcast e)] st;
       put env (bytes_of ''vlanmemberlist: %x'' @ [0x0a]) [VInt (ale_get Vlan_member_list e)] st
     }"

definition cpsw_ale_dump_entry ::
  "print_env \<Rightarrow> int \<Rightarrow> ale_entry \<Rightarrow> byte list \<times> nat \<Rightarrow> (byte list \<times> nat) option" where
  "cpsw_ale_dump_entry env idx e st =
     (let type = ale_get Entry_type e
      in if type = ALE_TYPE_FREE then Some st
         else do {
           st \<leftarrow> (if idx \<ge> 0 then put env (bytes_of ''index %d, '') [VInt (word_of_int idx)] st else Some st);
           st \<leftarrow> put env (bytes_of ''raw: %08x %08x %08x, '') [VInt (e ! 0), VInt (e ! 1), VInt (e ! 2)] st;
           name \<leftarrow> mem_get [''free'', ''addr'', ''vlan'', ''vlan+addr''] (unat type);
           st \<leftarrow> put env (bytes_of ''type: %s(%d), '') [VText name, VInt type] st;
           st \<leftarrow> (if type = ALE_TYPE_VLAN \<or> type = ALE_TYPE_VLAN_ADDR
                 then put env (bytes_of ''vlan: %d, '') [VInt (ale_get Vlan_id e)] st else Some st);
           if type = ALE_TYPE_ADDR \<or> type = ALE_TYPE_VLAN_ADDR
           then do {
             st \<leftarrow> put env (bytes_of ''addr: %02x:%02x:%02x:%02x:%02x:%02x, '')
               (map (\<lambda>b. VInt (ucast b)) (cpsw_ale_get_addr e)) st;
             if ale_get Mcast e \<noteq> 0 then cpsw_ale_dump_mcast env e st else cpsw_ale_dump_ucast env e st
           }
           else cpsw_ale_dump_vlan env e st
         })"

fun dump_entries ::
  "'h ale_dev \<Rightarrow> print_env \<Rightarrow> nat list \<Rightarrow> 'h \<Rightarrow> byte list \<times> nat \<Rightarrow> ((byte list \<times> nat) \<times> 'h) option" where
  "dump_entries dev env [] h st = Some (st, h)"
| "dump_entries dev env (idx # is) h st =
     (case cpsw_ale_read dev idx h of (e, h) \<Rightarrow>
        (case cpsw_ale_dump_entry env (int idx) e st of
           None \<Rightarrow> None
         | Some st \<Rightarrow> dump_entries dev env is h st))"

definition cpsw_ale_dump ::
  "'h ale_dev \<Rightarrow> print_env \<Rightarrow> 'h cpsw_ale \<Rightarrow> nat \<Rightarrow> byte list \<Rightarrow> ((byte list \<times> nat) \<times> 'h) option" where
  "cpsw_ale_dump dev env ale index buf =
     (if index \<noteq> 0 then dump_entries dev env [index] (ale_hw ale) (buf, 0)
      else dump_entries dev env [0..<ale_entries ale] (ale_hw ale) (buf, 0))"

definition cpsw_ale_table_show ::
  "'h ale_dev \<Rightarrow> print_env \<Rightarrow> 'h cpsw_ale \<Rightarrow> byte list \<Rightarrow> ((byte list \<times> nat) \<times> 'h) option" where
  "cpsw_ale_table_show dev env ale buf = dump_entries dev env [0..<ale_entries ale] (ale_hw ale) (buf, 0)"

text \<open>
  \<open>fill_read_buffer\<close> of \<open>fs/sysfs/file.c\<close>: the show method prints into a zeroed page; a count of a
  page or more is cut to one byte less.  The parameters say whether the page could be allocated and
  whether the attribute is still active.
\<close>

definition fill_read_buffer ::
  "bool \<Rightarrow> bool \<Rightarrow> (byte list \<Rightarrow> ((byte list \<times> nat) \<times> 'h) option) \<Rightarrow> ((byte list \<times> nat) \<times> 'h) result option" where
  "fill_read_buffer page_ok active ops_show =
     (if \<not> page_ok then Some (Inl ENOMEM)
      else if \<not> active then Some (Inl ENODEV)
      else case ops_show (replicate 4096 0) of
             None \<Rightarrow> None
           | Some ((page, count), h) \<Rightarrow> Some (Inr ((page, if count \<ge> 4096 then 4095 else count), h)))"

section \<open>The text of an entry\<close>

abbreviation lit :: "string \<Rightarrow> piece" where "lit s \<equiv> Lit (bytes_of s)"

definition mcast_prints :: "ale_entry \<Rightarrow> piece list list" where
  "mcast_prints e =
     [[lit ''mcstate: '', Str (bytes_of ([''f'', ''blf'', ''lf'', ''f''] ! unat (ale_get Mcast_state e))),
       lit ''('', Dec (ale_get Mcast_state e), lit ''), ''],
      [lit ''port mask: '', Hex 0 (ale_get Port_mask e), lit '', '',
       Str (bytes_of (if ale_get Super e \<noteq> 0 then '''' else ''no '')), Lit (bytes_of ''super'' @ [0x0a])]]"

definition ucast_prints :: "ale_entry \<Rightarrow> piece list list" where
  "ucast_prints e =
     [[lit ''uctype: '', Str (bytes_of ([''persistant'', ''untouched'', ''oui'', ''touched''] ! unat (ale_get Ucast_type e))),
       lit ''('', Dec (ale_get Ucast_type e), lit ''), ''],
      [lit ''port: '', Dec (ale_get Port_num e), Str (bytes_of (if ale_get Secure e \<noteq> 0 then '', Secure'' else '''')),
       Str (bytes_of (if ale_get Blocked e \<noteq> 0 then '', Blocked'' else '''')), Lit [0x0a]]]"

definition vlan_prints :: "ale_entry \<Rightarrow> piece list list" where
  "vlan_prints e =
     [[lit ''vlanuntag: '', Hex 0 (ale_get Vlan_untag_force e), lit '', ''],
      [lit ''vlanregmcast: '', Hex 0 (ale_get Vlan_reg_mcast e), lit '', ''],
      [lit ''vlanunregmcast: '', Hex 0 (ale_get Vlan_unreg_mcast e), lit '', ''],
      [lit ''vlanmemberlist: '', Hex 0 (ale_get Vlan_member_list e), Lit [0x0a]]]"

definition addr_print :: "byte list \<Rightarrow> piece list" where
  "addr_print a =
     [lit ''addr: '', Hex 2 (ucast (a ! 0)), lit '':'', Hex 2 (ucast (a ! 1)), lit '':'', Hex 2 (ucast (a ! 2)), lit '':'',
      Hex 2 (ucast (a ! 3)), lit '':'', Hex 2 (ucast (a ! 4)), lit '':'', Hex 2 (ucast (a ! 5)), lit '', '']"

definition entry_prints :: "nat \<Rightarrow> ale_entry \<Rightarrow> piece list list" where
  "entry_prints i e =
     (if is_free_entry e then []
      else [[lit ''index '', Dec (of_nat i), lit '', ''],
            [lit ''raw: '', Hex 8 (e ! 0), lit '' '', Hex 8 (e ! 1), lit '' '', Hex 8 (e ! 2), lit '', ''],
            [lit ''type: '', Str (bytes_of ([''free'', ''addr'', ''vlan'', ''vlan+addr''] ! unat (ale_get Entry_type e))),
             lit ''('', Dec (ale_get Entry_type e), lit ''), '']] @
           (if ale_get Entry_type e = ALE_TYPE_ADDR then []
            else [[lit ''vlan: '', Dec (ale_get Vlan_id e), lit '', '']]) @
           (if is_addr_entry e
            then addr_print (cpsw_ale_get_addr e) # (if ale_get Mcast e \<noteq> 0 then mcast_prints e else ucast_prints e)
            else vlan_prints e))"

definition prints_text :: "piece list list \<Rightarrow> byte list" where
  "prints_text pss = concat (map pieces_text pss)"

definition table_text :: "nat \<Rightarrow> (nat \<Rightarrow> ale_entry) \<Rightarrow> byte list" where
  "table_text n t = concat (map (\<lambda>i. prints_text (entry_prints i (t i))) [0..<n])"


section \<open>The calls print the pieces\<close>

lemma bytes_of_append: "bytes_of (s @ t) = bytes_of s @ bytes_of t"
  by (simp add: bytes_of_def)

lemma piece_bytes:
  "piece_fmt (Str s) = bytes_of ''%s''" "piece_fmt (Dec v) = bytes_of ''%d''" "piece_fmt (Hex 0 v) = bytes_of ''%x''"
  "piece_fmt (Hex 2 v) = bytes_of ''%02x''" "piece_fmt (Hex 8 v) = bytes_of ''%08x''"
  by (simp_all add: bytes_of_def)

lemmas fmt_simps = pieces_fmt_def list.map concat.simps piece_bytes piece_fmt.simps(1) append_Nil2
  append_assoc [symmetric] bytes_of_append [symmetric]

lemma entry_formats:
  "pieces_fmt [lit ''index '', Dec v, lit '', ''] = bytes_of ''index %d, ''"
  "pieces_fmt [lit ''raw: '', Hex 8 x, lit '' '', Hex 8 y, lit '' '', Hex 8 z, lit '', ''] = bytes_of ''raw: %08x %08x %08x, ''"
  "pieces_fmt [lit ''type: '', Str s, lit ''('', Dec v, lit ''), ''] = bytes_of ''type: %s(%d), ''"
  "pieces_fmt [lit ''vlan: '', Dec v, lit '', ''] = bytes_of ''vlan: %d, ''"
  "pieces_fmt (addr_print a) = bytes_of ''addr: %02x:%02x:%02x:%02x:%02x:%02x, ''"
  by (simp_all only: addr_print_def fmt_simps append.simps)

lemma mcast_formats:
  "pieces_fmt [lit ''mcstate: '', Str s, lit ''('', Dec v, lit ''), ''] = bytes_of ''mcstate: %s(%d), ''"
  "pieces_fmt [lit ''port mask: '', Hex 0 v, lit '', '', Str s, Lit (bytes_of ''super'' @ [0x0a])] =
     bytes_of ''port mask: %x, %ssuper'' @ [0x0a]"
  "pieces_fmt [lit ''uctype: '', Str s, lit ''('', Dec v, lit ''), ''] = bytes_of ''uctype: %s(%d), ''"
  "pieces_fmt [lit ''port: '', Dec v, Str s, Str t, Lit [0x0a]] = bytes_of ''port: %d%s%s'' @ [0x0a]"
  by (simp_all only: fmt_simps append.simps)

lemma vlan_formats:
  "pieces_fmt [lit ''vlanuntag: '', Hex 0 v, lit '', ''] = bytes_of ''vlanuntag: %x, ''"
  "pieces_fmt [lit ''vlanregmcast: '', Hex 0 v, lit '', ''] = bytes_of ''vlanregmcast: %x, ''"
  "pieces_fmt [lit ''vlanunregmcast: '', Hex 0 v, lit '', ''] = bytes_of ''vlanunregmcast: %x, ''"
  "pieces_fmt [lit ''vlanmemberlist: '', Hex 0 v, Lit [0x0a]] = bytes_of ''vlanmemberlist: %x'' @ [0x0a]"
  by (simp_all only: fmt_simps append.simps)

fun puts :: "print_env \<Rightarrow> piece list list \<Rightarrow> byte list \<times> nat \<Rightarrow> (byte list \<times> nat) option" where
  "puts env [] = Some"
| "puts env (ps # pss) = (\<lambda>st. Option.bind (put env (pieces_fmt ps) (pieces_args ps) st) (puts env pss))"

lemma puts_append: "puts env (pss @ qss) st = Option.bind (puts env pss st) (puts env qss)"
  by (induction pss arbitrary: st) (auto split: bind_split)

lemma two_bits:
  assumes "field_bits f = 2"
  shows "unat (ale_get f e) < 4"
proof -
  have "unat (ale_get f e AND mask 2) < 2 ^ 2" using unat_and_mask [of "ale_get f e" 2] by simp
  then show ?thesis using ale_get_mask [of f e] by (simp add: assms)
qed

lemma dump_mcast_puts: "cpsw_ale_dump_mcast env e st = puts env (mcast_prints e) st"
  using two_bits [of Mcast_state e]
  by (simp add: cpsw_ale_dump_mcast_def Let_def mem_get_def mcast_prints_def mcast_formats pieces_args_def VText_def
      field_bits_def)

lemma dump_ucast_puts: "cpsw_ale_dump_ucast env e st = puts env (ucast_prints e) st"
  using two_bits [of Ucast_type e]
  by (simp add: cpsw_ale_dump_ucast_def Let_def mem_get_def ucast_prints_def mcast_formats pieces_args_def VText_def
      field_bits_def)

lemma dump_vlan_puts: "cpsw_ale_dump_vlan env e st = puts env (vlan_prints e) st"
  by (simp add: cpsw_ale_dump_vlan_def vlan_prints_def vlan_formats pieces_args_def)

lemma entry_types: "ale_get Entry_type e = 0 \<or> ale_get Entry_type e = 1 \<or> ale_get Entry_type e = 2 \<or> ale_get Entry_type e = 3"
proof -
  have "unat (ale_get Entry_type e) \<in> {0, 1, 2, 3}" using two_bits [of Entry_type e] by (auto simp: field_bits_def)
  then show ?thesis by (auto simp: word_unat_eq_iff)
qed

lemma addr_args: "pieces_args (addr_print (cpsw_ale_get_addr e)) = map (\<lambda>b. VInt (ucast b)) (cpsw_ale_get_addr e)"
  by (simp add: pieces_args_def addr_print_def cpsw_ale_get_addr_def upt_0_6)

lemma dump_entry_puts: "cpsw_ale_dump_entry env (int i) e st = puts env (entry_prints i e) st"
proof -
  have names: "mem_get [''free'', ''addr'', ''vlan'', ''vlan+addr''] (unat (ale_get Entry_type e)) =
      Some ([''free'', ''addr'', ''vlan'', ''vlan+addr''] ! unat (ale_get Entry_type e))"
    using two_bits [of Entry_type e] by (simp add: mem_get_def field_bits_def)
  show ?thesis
    unfolding cpsw_ale_dump_entry_def Let_def names entry_prints_def dump_mcast_puts dump_ucast_puts dump_vlan_puts
    using entry_types [of e]
    by (elim disjE)
       (simp_all add: is_free_entry_def is_addr_entry_def ale_consts puts_append entry_formats addr_args
          VText_def pieces_args_def [of "_ # _"])
qed


section \<open>The pieces are well-formed, and an entry in use takes at least 106 characters\<close>

lemma plain_of_char: "plain_char (of_char c) \<longleftrightarrow> c \<noteq> CHR 0x00 \<and> c \<noteq> CHR ''%''"
  using of_char_byte_eq [of c "CHR 0x00"] of_char_byte_eq [of c "CHR ''%''"] by (simp add: plain_char_def)

lemma plain_bytes [simp]: "list_all plain_char (bytes_of s) \<longleftrightarrow> list_all (\<lambda>c. c \<noteq> CHR 0x00 \<and> c \<noteq> CHR ''%'') s"
  by (simp add: bytes_of_def list_all_iff plain_of_char)

lemma nonzero_bytes [simp]: "0 \<notin> set (bytes_of s) \<longleftrightarrow> list_all (\<lambda>c. c \<noteq> CHR 0x00) s"
proof -
  have "(of_char c :: byte) \<noteq> 0 \<longleftrightarrow> c \<noteq> CHR 0x00" for c using of_char_byte_eq [of c "CHR 0x00"] by simp
  then show ?thesis by (auto simp: bytes_of_def list_all_iff image_iff)
qed

lemma bytes_of_Nil [simp]: "bytes_of s = [] \<longleftrightarrow> s = []"
  by (simp add: bytes_of_def)

lemma bytes_of_length [simp]: "length (bytes_of s) = length s"
  by (simp add: bytes_of_def)

lemma field_small: "unat (ale_get f e) < 2 ^ 31"
proof -
  have "unat (ale_get f e) = unat (ale_get f e) mod 2 ^ field_bits f"
    using unat_and_mask [of "ale_get f e" "field_bits f"] ale_get_mask [of f e] by simp
  also have "\<dots> < 2 ^ field_bits f" by simp
  also have "\<dots> \<le> 2 ^ 31" by (cases f) (simp_all add: field_bits_def)
  finally show ?thesis .
qed

lemma dec_text_nonempty: "1 \<le> length (dec_text n)"
  using nat_digits_not_Nil [of 10 n] by (simp add: dec_text_def Suc_le_eq)

lemma hex_text_width: "w \<le> length (hex_text w n)" "1 \<le> length (hex_text w n)"
  using nat_digits_not_Nil [of 16 n] by (simp_all add: hex_text_def Let_def Suc_le_eq)

lemma nth4: "n < 4 \<Longrightarrow> P a \<Longrightarrow> P b \<Longrightarrow> P c \<Longrightarrow> P d \<Longrightarrow> P ([a, b, c, d] ! n)"
  by (auto simp: less_Suc_eq numeral_eq_Suc)

lemma tail_pieces_ok:
  "list_all pieces_ok (mcast_prints e)" "list_all pieces_ok (ucast_prints e)" "list_all pieces_ok (vlan_prints e)"
proof -
  have "list_all (\<lambda>c. c \<noteq> CHR 0x00) ([''f'', ''blf'', ''lf'', ''f''] ! unat (ale_get Mcast_state e))"
    by (rule nth4 [OF two_bits]) (simp_all add: field_bits_def)
  then show "list_all pieces_ok (mcast_prints e)"
    using field_small [of Mcast_state e] by (simp add: mcast_prints_def plain_char_def)
  have "list_all (\<lambda>c. c \<noteq> CHR 0x00) ([''persistant'', ''untouched'', ''oui'', ''touched''] ! unat (ale_get Ucast_type e))"
    by (rule nth4 [OF two_bits]) (simp_all add: field_bits_def)
  then show "list_all pieces_ok (ucast_prints e)"
    using field_small [of Ucast_type e] field_small [of Port_num e] by (simp add: ucast_prints_def plain_char_def)
  show "list_all pieces_ok (vlan_prints e)" by (simp add: vlan_prints_def plain_char_def)
qed

lemma entry_pieces_ok:
  assumes "i < 2 ^ 31"
  shows "list_all pieces_ok (entry_prints i e)"
proof -
  have "unat (of_nat i :: u32) = i" using assms by (simp add: unat_of_nat take_bit_nat_eq_self)
  moreover have "pieces_ok (addr_print a)" for a by (simp add: addr_print_def)
  moreover have "list_all (\<lambda>c. c \<noteq> CHR 0x00) ([''free'', ''addr'', ''vlan'', ''vlan+addr''] ! unat (ale_get Entry_type e))"
    using entry_types [of e] by auto
  ultimately show ?thesis
    using field_small [of _ e] assms tail_pieces_ok [of e] by (simp add: entry_prints_def)
qed

lemma pieces_length: "length (pieces_text []) = 0"
  "length (pieces_text (p # ps)) = length (piece_text p) + length (pieces_text ps)"
  by (simp_all add: pieces_text_def)

lemma prints_length: "length (prints_text []) = 0"
  "length (prints_text (ps # pss)) = length (pieces_text ps) + length (prints_text pss)"
  "length (prints_text (pss @ qss)) = length (prints_text pss) + length (prints_text qss)"
  by (simp_all add: prints_text_def)

lemma tails_length:
  "35 \<le> length (prints_text (mcast_prints e))" "24 \<le> length (prints_text (ucast_prints e))"
  "66 \<le> length (prints_text (vlan_prints e))" "25 \<le> length (pieces_text (addr_print a))"
proof -
  note d = dec_text_nonempty [of "unat (ale_get f e)" for f] and h = hex_text_width(2) [of 0 "unat (ale_get f e)" for f]
  show "35 \<le> length (prints_text (mcast_prints e))"
    using two_bits [of Mcast_state e] d [of Mcast_state] h [of Port_mask]
    by (auto simp: mcast_prints_def prints_length pieces_length field_bits_def less_Suc_eq numeral_eq_Suc)
  show "24 \<le> length (prints_text (ucast_prints e))"
    using two_bits [of Ucast_type e] d [of Ucast_type] d [of Port_num]
    by (auto simp: ucast_prints_def prints_length pieces_length field_bits_def less_Suc_eq numeral_eq_Suc)
  show "66 \<le> length (prints_text (vlan_prints e))"
    using h [of Vlan_untag_force] h [of Vlan_reg_mcast] h [of Vlan_unreg_mcast] h [of Vlan_member_list]
    by (simp add: vlan_prints_def prints_length pieces_length)
  have "2 \<le> length (hex_text 2 n)" for n by (rule hex_text_width(1))
  from this [of "unat (ucast (a ! 0) :: u32)"] this [of "unat (ucast (a ! 1) :: u32)"] this [of "unat (ucast (a ! 2) :: u32)"]
    this [of "unat (ucast (a ! 3) :: u32)"] this [of "unat (ucast (a ! 4) :: u32)"] this [of "unat (ucast (a ! 5) :: u32)"]
  show "25 \<le> length (pieces_text (addr_print a))"
    unfolding addr_print_def pieces_length piece_text.simps bytes_of_length by simp
qed

lemma entry_length:
  assumes "\<not> is_free_entry e"
  shows "106 \<le> length (prints_text (entry_prints i e))"
proof -
  let ?t = "[''free'', ''addr'', ''vlan'', ''vlan+addr''] ! unat (ale_get Entry_type e)"
  have "4 \<le> length ?t" using entry_types [of e] by auto
  moreover note dec_text_nonempty [of "unat (of_nat i :: u32)"] dec_text_nonempty [of "unat (ale_get Entry_type e)"]
    dec_text_nonempty [of "unat (ale_get Vlan_id e)"] hex_text_width(1) [of 8 "unat (e ! 0)"]
    hex_text_width(1) [of 8 "unat (e ! 1)"] hex_text_width(1) [of 8 "unat (e ! 2)"]
    tails_length(1-3) [of e] tails_length(4) [of "cpsw_ale_get_addr e"]
  ultimately show ?thesis
    using assms unfolding entry_prints_def by (auto simp: prints_length pieces_length is_addr_entry_def)
qed


section \<open>The page\<close>

text \<open>
  A page of \<open>N\<close> bytes holds a text: its first \<open>N - 1\<close> bytes, with a terminator.  The count is the
  length of the text while that is at most \<open>N\<close>; beyond it, the count has stopped somewhere above \<open>N\<close>.
\<close>

definition holds :: "nat \<Rightarrow> byte list \<Rightarrow> byte list \<times> nat \<Rightarrow> bool" where
  "holds N t st \<longleftrightarrow>
     (case st of (buf, len) \<Rightarrow>
        length buf = N \<and> take (min (length t) (N - 1)) buf = take (N - 1) t \<and> buf ! min (length t) (N - 1) = 0 \<and>
        (if length t \<le> N then len = length t else N < len))"

lemma put_pieces:
  assumes "pieces_ok ps" "length buf < 2 ^ 31"
  shows "put env (pieces_fmt ps) (pieces_args ps) (buf, len) =
    Some (if length buf < len then (buf, len)
          else (take len buf @ terminated (drop len buf) (pieces_text ps), len + length (pieces_text ps)))"
  using vsnprintf_text [of "drop len buf" env "pieces_fmt ps" "pieces_args ps"] format_text_pieces [OF assms(1), of env] assms(2)
  by (simp add: put_def at_offset_def snprintf_def)

lemma holds_append:
  assumes "holds N t (buf, len)" "len \<le> N" "0 < N"
  shows "holds N (t @ x) (take len buf @ terminated (drop len buf) x, len + length x)"
proof -
  have l: "length buf = N" "len = length t" "length t \<le> N" "take (min (length t) (N - 1)) buf = take (N - 1) t"
    "buf ! min (length t) (N - 1) = 0"
    using assms(1,2) by (auto simp: holds_def split: if_splits)
  show ?thesis
  proof (cases "length t = N")
    case True
    then have "min (length t) (N - 1) = N - 1" "min (length (t @ x)) (N - 1) = N - 1" by simp_all
    then show ?thesis using l True by (auto simp: holds_def terminated_def)
  next
    case False
    then have lt: "length t < N" using l(3) by simp
    define k where "k = min (length x) (N - length t - 1)"
    have "min (length t) (N - 1) = length t" using lt by simp
    then have t: "take (length t) buf = t" using l(4) lt by simp
    have "take len buf @ terminated (drop len buf) x = t @ take k x @ 0 # drop (Suc k) (drop len buf)"
      using lt l(1,2) t by (simp add: terminated_def k_def Let_def)
    moreover have "min (length (t @ x)) (N - 1) = length t + k" "take (N - 1) (t @ x) = t @ take k x" "k \<le> length x"
      using lt by (auto simp: k_def min_def)
    moreover have "Suc (length t + k) \<le> N" using lt by (auto simp: k_def)
    ultimately show ?thesis using l(1,2) by (simp add: holds_def nth_append)
  qed
qed

lemma put_holds:
  assumes "holds N t st" "pieces_ok ps" "0 < N" "N < 2 ^ 31"
  shows "\<exists>st'. put env (pieces_fmt ps) (pieces_args ps) st = Some st' \<and> holds N (t @ pieces_text ps) st'"
proof -
  obtain buf len where st: "st = (buf, len)" by (cases st)
  have lb: "length buf = N" using assms(1) by (simp add: st holds_def)
  note p = put_pieces [OF assms(2), of buf env len, unfolded lb, OF assms(4)]
  show ?thesis
  proof (cases "N < len")
    case True
    then have "N < length t" using assms(1) by (auto simp: st holds_def split: if_splits)
    then have "min (length t) (N - 1) = N - 1" "min (length (t @ pieces_text ps)) (N - 1) = N - 1" by simp_all
    then have "holds N (t @ pieces_text ps) (buf, len)"
      using assms(1) True \<open>N < length t\<close> by (simp add: st holds_def)
    then show ?thesis using p True by (simp add: st)
  next
    case False
    then show ?thesis using p holds_append [OF assms(1) [unfolded st] _ assms(3)] by (simp add: st)
  qed
qed

lemma puts_holds:
  assumes "0 < N" "N < 2 ^ 31"
  shows "holds N t st \<Longrightarrow> list_all pieces_ok pss \<Longrightarrow> \<exists>st'. puts env pss st = Some st' \<and> holds N (t @ prints_text pss) st'"
proof (induction pss arbitrary: t st)
  case (Cons ps pss)
  obtain st1 where "put env (pieces_fmt ps) (pieces_args ps) st = Some st1" "holds N (t @ pieces_text ps) st1"
    using put_holds [OF Cons.prems(1) _ assms, of ps env] Cons.prems(2) by auto
  then show ?case using Cons.IH [of "t @ pieces_text ps" st1] Cons.prems(2) by (simp add: prints_text_def)
qed (simp add: prints_text_def)

context ale_device
begin

lemma dump_entries_holds:
  assumes "0 < N" "N < 2 ^ 31" "slots \<le> 2 ^ 31"
  shows "holds N t st \<Longrightarrow> \<forall>i \<in> set is. i < slots \<Longrightarrow>
    \<exists>st' h'. dump_entries dev env is h st = Some (st', h') \<and> tbl h' = tbl h \<and>
      holds N (t @ concat (map (\<lambda>i. prints_text (entry_prints i (tbl h i))) is)) st'"
proof (induction "is" arbitrary: t st h)
  case (Cons i js)
  obtain h1 where r: "cpsw_ale_read dev i h = (tbl h i, h1)" "tbl h1 = tbl h" using read_tbl [of i h] Cons.prems(2) by auto
  have "i < 2 ^ 31" using Cons.prems(2) assms(3) by auto
  then obtain st1 where s: "cpsw_ale_dump_entry env (int i) (tbl h i) st = Some st1"
    "holds N (t @ prints_text (entry_prints i (tbl h i))) st1"
    using puts_holds [OF assms(1,2) Cons.prems(1) entry_pieces_ok, of i env "tbl h i"] by (auto simp: dump_entry_puts)
  then show ?case using Cons.IH [OF s(2), of h1] Cons.prems(2) r by auto
qed simp

end

lemma table_text_length:
  "106 * card {i. i < n \<and> \<not> is_free_entry (t i)} \<le> length (table_text n t)"
proof (induction n)
  case (Suc n)
  have e: "{i. i < Suc n \<and> \<not> is_free_entry (t i)} =
      {i. i < n \<and> \<not> is_free_entry (t i)} \<union> (if is_free_entry (t n) then {} else {n})"
    by (auto simp: less_Suc_eq)
  show ?case using Suc entry_length [of "t n" n] unfolding e by (auto simp: table_text_def)
qed (simp add: table_text_def)

section \<open>Property\<close>

text \<open>
  C31.  Reading the table file.  On a device that keeps the laws of its table, \<open>cpsw_ale_table_show\<close>
  never fails and does not change the table; the page holds the text of the entries in use, one after
  the other, up to one byte less than a page, and is terminated, so a reader gets exactly that part of
  the text.  The count returned is the length of the text only while that is at most a page; a longer
  text makes it larger than the page, which happens from 39 entries in use on.
\<close>

theorem ale_table_file:
  assumes "ale_device dev tbl slots" "ale_entries ale \<le> slots" "slots \<le> 2 ^ 31"
    "text = table_text (ale_entries ale) (tbl (ale_hw ale))"
  shows "\<exists>page count h n. cpsw_ale_table_show dev env ale (replicate 4096 0) = Some ((page, count), h) \<and>
    tbl h = tbl (ale_hw ale) \<and> length page = 4096 \<and>
    fill_read_buffer True True (cpsw_ale_table_show dev env ale) = Some (Inr ((page, n), h)) \<and>
    take n page = take 4095 text \<and> page ! min (length text) 4095 = 0 \<and>
    (if length text \<le> 4096 then count = length text else 4096 < count) \<and>
    (39 \<le> card {i. i < ale_entries ale \<and> \<not> is_free_entry (tbl (ale_hw ale) i)} \<longrightarrow> 4096 < count)"
proof -
  have "holds 4096 [] (replicate 4096 0, 0)" by (simp add: holds_def)
  from ale_device.dump_entries_holds [OF assms(1) _ _ assms(3) this, of "[0..<ale_entries ale]" env "ale_hw ale"]
  obtain page count h where p: "cpsw_ale_table_show dev env ale (replicate 4096 0) = Some ((page, count), h)"
    "tbl h = tbl (ale_hw ale)" "holds 4096 text (page, count)"
    using assms(2) by (auto simp: cpsw_ale_table_show_def assms(4) table_text_def)
  define n where "n = (if count \<ge> 4096 then 4095 else count)"
  have h: "length page = 4096" "take (min (length text) 4095) page = take 4095 text" "page ! min (length text) 4095 = 0"
    "if length text \<le> 4096 then count = length text else 4096 < count" using p(3) by (auto simp: holds_def)
  have "n = min (length text) 4095" using h(4) by (auto simp: n_def split: if_splits)
  then have "take n page = take 4095 text" using h(2) by simp
  moreover have "4096 < count" if "39 \<le> card {i. i < ale_entries ale \<and> \<not> is_free_entry (tbl (ale_hw ale) i)}"
    using table_text_length [of "ale_entries ale" "tbl (ale_hw ale)"] that h(4) by (auto simp: assms(4) split: if_splits)
  moreover have "fill_read_buffer True True (cpsw_ale_table_show dev env ale) = Some (Inr ((page, n), h))"
    by (simp add: fill_read_buffer_def p(1) n_def)
  ultimately show ?thesis using p(1,2) h by blast
qed

theorem ale_table_file_witness:
  "\<exists>page count h n.
    cpsw_ale_table_show sim_dev \<lparr>in_interrupt = False, kptr_restrict = 0, cap_syslog = False\<rparr> static_ale (replicate 4096 0) =
      Some ((page, count), h) \<and>
    take n page = take 4095 (table_text 1 (\<lambda>_. [0, 0x20050000, 7]))"
  using ale_table_file [OF sim.ale_device_axioms, of static_ale "table_text 1 (\<lambda>_. [0, 0x20050000, 7])"
      "\<lparr>in_interrupt = False, kptr_restrict = 0, cap_syslog = False\<rparr>"]
  by (force simp: static_ale_def sim_table_def [abs_def])

end
