(* ===== verification/Memblock.thy ===== *)
theory Memblock
  imports Kernel_Prelude
begin

text \<open>
  The boot memory allocator, \<^verbatim>\<open>mm/memblock.c\<close>.  A table of regions is the list of its first
  \<open>cnt\<close> array entries; an empty table holds one region of sz zero, as in the source.  Physical
  addresses are 32-bit words.  The value \<open>None\<close> stands for a stopped kernel (\<open>BUG_ON\<close>, \<open>panic\<close>) or
  a loop that does not end.  What the allocator asks of the rest of the kernel (whether the slab
  allocator runs, and what \<open>kmalloc\<close> returns) is an argument.
\<close>

section \<open>Data\<close>

record memblock_region =
  rbase :: u32
  rsize :: u32

text \<open>\<open>mt_array\<close> is the physical address of the array; \<open>None\<close> is the static initial array.\<close>

record memblock_type =
  mt_max :: nat
  mt_array :: "u32 option"
  mt_regions :: "memblock_region list"

record memblock =
  current_limit :: u32
  memory_size :: u32
  memory :: memblock_type
  reserved :: memblock_type
  memblock_can_resize :: bool

datatype mtype = Memory | Reserved

record boot_env =
  slab_is_available :: bool
  kmalloc_pa :: "u32 \<Rightarrow> u32"

definition mt_of :: "mtype \<Rightarrow> memblock \<Rightarrow> memblock_type" where
  "mt_of w m = (case w of Memory \<Rightarrow> memory m | Reserved \<Rightarrow> reserved m)"

definition set_mt :: "mtype \<Rightarrow> memblock_type \<Rightarrow> memblock \<Rightarrow> memblock" where
  "set_mt w t m = (case w of Memory \<Rightarrow> m\<lparr>memory := t\<rparr> | Reserved \<Rightarrow> m\<lparr>reserved := t\<rparr>)"

definition set_regions :: "mtype \<Rightarrow> memblock_region list \<Rightarrow> memblock \<Rightarrow> memblock" where
  "set_regions w xs m = set_mt w ((mt_of w m)\<lparr>mt_regions := xs\<rparr>) m"

definition no_region :: memblock_region where "no_region = \<lparr>rbase = 0, rsize = 0\<rparr>"

definition INIT_MEMBLOCK_REGIONS :: nat where "INIT_MEMBLOCK_REGIONS = 128"
definition MEMBLOCK_ERROR :: u32 where "MEMBLOCK_ERROR = 0"
definition MEMBLOCK_ALLOC_ANYWHERE :: u32 where "MEMBLOCK_ALLOC_ANYWHERE = NOT 0"
definition MEMBLOCK_ALLOC_ACCESSIBLE :: u32 where "MEMBLOCK_ALLOC_ACCESSIBLE = 0"
definition PAGE_SIZE :: u32 where "PAGE_SIZE = push_bit 12 1"

section \<open>Searching for free space\<close>

definition memblock_align_down :: "u32 \<Rightarrow> u32 \<Rightarrow> u32" where
  "memblock_align_down addr sz = addr AND NOT (sz - 1)"

definition memblock_align_up :: "u32 \<Rightarrow> u32 \<Rightarrow> u32" where
  "memblock_align_up addr sz = (addr + (sz - 1)) AND NOT (sz - 1)"

definition memblock_addrs_overlap :: "u32 \<Rightarrow> u32 \<Rightarrow> u32 \<Rightarrow> u32 \<Rightarrow> bool" where
  "memblock_addrs_overlap base1 size1 base2 size2 \<longleftrightarrow> base1 < base2 + size2 \<and> base2 < base1 + size1"

text \<open>The index of the first overlapping region; \<open>None\<close> is the result \<open>-1\<close>.\<close>

fun overlaps_from :: "nat \<Rightarrow> memblock_region list \<Rightarrow> u32 \<Rightarrow> u32 \<Rightarrow> nat option" where
  "overlaps_from i [] base sz = None"
| "overlaps_from i (r # rs) base sz =
     (if memblock_addrs_overlap base sz (rbase r) (rsize r) then Some i
      else overlaps_from (Suc i) rs base sz)"

definition memblock_overlaps_region :: "memblock_type \<Rightarrow> u32 \<Rightarrow> u32 \<Rightarrow> nat option" where
  "memblock_overlaps_region type base sz = overlaps_from 0 (mt_regions type) base sz"

partial_function (option) find_loop :: "memblock_type \<Rightarrow> u32 \<Rightarrow> u32 \<Rightarrow> u32 \<Rightarrow> u32 \<Rightarrow> u32 option" where
  "find_loop res start base sz align =
     (if start \<le> base
      then case memblock_overlaps_region res base sz of
             None \<Rightarrow> Some base
           | Some j \<Rightarrow>
               (let res_base = rbase (mt_regions res ! j)
                in if res_base < sz then Some MEMBLOCK_ERROR
                   else find_loop res start (memblock_align_down (res_base - sz) align) sz align)
      else Some MEMBLOCK_ERROR)"

definition memblock_find_region ::
  "memblock_type \<Rightarrow> u32 \<Rightarrow> u32 \<Rightarrow> u32 \<Rightarrow> u32 \<Rightarrow> u32 option" where
  "memblock_find_region res start end sz align =
     (if end < sz then Some MEMBLOCK_ERROR
      else let base = memblock_align_down (end - sz) align;
               start = (if start = 0 then PAGE_SIZE else start)
           in find_loop res start base sz align)"

text \<open>The regions of memory from the top of the table down.\<close>

fun find_in_regions ::
  "memblock_type \<Rightarrow> memblock_region list \<Rightarrow> u32 \<Rightarrow> u32 \<Rightarrow> u32 \<Rightarrow> u32 \<Rightarrow> u32 option" where
  "find_in_regions res [] sz align start end = Some MEMBLOCK_ERROR"
| "find_in_regions res (r # rs) sz align start end =
     (if rsize r < sz then find_in_regions res rs sz align start end
      else if rbase r + rsize r \<le> start then Some MEMBLOCK_ERROR
      else let bottom = max (rbase r) start; top = min (rbase r + rsize r) end
           in if top \<le> bottom then find_in_regions res rs sz align start end
              else (case memblock_find_region res bottom top sz align of
                      None \<Rightarrow> None
                    | Some found \<Rightarrow>
                        if found \<noteq> MEMBLOCK_ERROR then Some found
                        else find_in_regions res rs sz align start end))"

definition memblock_find_base :: "memblock \<Rightarrow> u32 \<Rightarrow> u32 \<Rightarrow> u32 \<Rightarrow> u32 \<Rightarrow> u32 option" where
  "memblock_find_base m sz align start end =
     (if sz = 0 then None
      else let end = (if end = MEMBLOCK_ALLOC_ACCESSIBLE then current_limit m else end)
           in find_in_regions (reserved m) (rev (mt_regions (memory m))) sz align start end)"

definition memblock_find_in_range :: "memblock \<Rightarrow> u64 \<Rightarrow> u64 \<Rightarrow> u64 \<Rightarrow> u64 \<Rightarrow> u64 option" where
  "memblock_find_in_range m start end sz align =
     map_option ucast (memblock_find_base m (ucast sz) (ucast align) (ucast start) (ucast end))"

section \<open>Adding and removing regions\<close>

definition memblock_remove_region :: "nat \<Rightarrow> memblock_region list \<Rightarrow> memblock_region list" where
  "memblock_remove_region r xs =
     (let xs = take r xs @ drop (Suc r) xs in if xs = [] then [no_region] else xs)"

definition memblock_memory_can_coalesce :: "u32 \<Rightarrow> u32 \<Rightarrow> u32 \<Rightarrow> u32 \<Rightarrow> bool" where
  "memblock_memory_can_coalesce addr1 size1 addr2 size2 \<longleftrightarrow> True"

text \<open>One turn of the loop that coalesces a new block with the table: it leaves the loop
  (\<open>Brk\<close>), returns with the region changed (\<open>Ret\<close>), jumps to the label \<open>new_block\<close> (\<open>Goto_new\<close>),
  takes the region out of the table and continues with the larger block (\<open>Absorb\<close>), or goes on to
  the next region (\<open>Cont\<close>).\<close>

datatype (plugins only: code size) turn =
    Brk | Ret memblock_region | Goto_new memblock_region u32 u32 | Absorb u32 u32
  | Cont memblock_region u32 u32

definition add_top :: "memblock_region \<Rightarrow> u32 \<Rightarrow> u32 \<Rightarrow> u32 \<Rightarrow> u32 \<Rightarrow> turn" where
  "add_top r rend base sz end =
     (if base \<le> rend \<and> rend \<le> end
      then if \<not> memblock_memory_can_coalesce (rbase r) (rsize r) base sz then Goto_new r base sz
           else Absorb (rbase r) (sz + (base - rbase r))
      else Cont r base sz)"

definition add_turn :: "memblock_region \<Rightarrow> u32 \<Rightarrow> u32 \<Rightarrow> u32 \<Rightarrow> turn" where
  "add_turn r base sz end =
     (let rend = rbase r + rsize r
      in if end < rbase r \<or> rsize r = 0 then Brk
         else if rbase r \<le> base \<and> end \<le> rend then Ret r
         else if base < rbase r \<and> rbase r \<le> end
         then if \<not> memblock_memory_can_coalesce base sz (rbase r) (rsize r) then Goto_new r base sz
              else let r = r\<lparr>rbase := base, rsize := rend - base\<rparr>
                   in if end \<le> rend then Ret r else add_top r rend rend (end - rend) end
         else add_top r rend base sz end)"

datatype (plugins only: code size) add_exit =
    Added "memblock_region list"
  | After_loop u32 u32 "memblock_region list"
  | New_block u32 u32 "memblock_region list"

fun add_scan ::
  "memblock_region list \<Rightarrow> memblock_region list \<Rightarrow> u32 \<Rightarrow> u32 \<Rightarrow> u32 \<Rightarrow> add_exit" where
  "add_scan pre [] base sz end = After_loop base sz pre"
| "add_scan pre (r # rest) base sz end =
     (case add_turn r base sz end of
        Brk \<Rightarrow> After_loop base sz (pre @ r # rest)
      | Ret r \<Rightarrow> Added (pre @ r # rest)
      | Goto_new r base sz \<Rightarrow> New_block base sz (pre @ r # rest)
      | Absorb base sz \<Rightarrow>
          (if pre = [] \<and> rest = [] then After_loop base sz [no_region]
           else add_scan pre rest base sz end)
      | Cont r base sz \<Rightarrow> add_scan (pre @ [r]) rest base sz end)"

text \<open>The insertion loop runs from the top of the table down: here on the reversed list.\<close>

fun shift_in :: "memblock_region \<Rightarrow> memblock_region list \<Rightarrow> memblock_region list" where
  "shift_in n [] = [n]"
| "shift_in n (r # rs) = (if rbase n < rbase r then r # shift_in n rs else n # r # rs)"

fun shift_slot :: "u32 \<Rightarrow> memblock_region list \<Rightarrow> nat" where
  "shift_slot base [] = 0"
| "shift_slot base (r # rs) = (if base < rbase r then shift_slot base rs else Suc (length rs))"

type_synonym mb_fun = "mtype \<Rightarrow> u32 \<Rightarrow> u32 \<Rightarrow> memblock \<Rightarrow> (bool \<times> memblock) option"

definition add_new_block ::
  "(mtype \<Rightarrow> memblock \<Rightarrow> (bool \<times> memblock) option) \<Rightarrow> mtype \<Rightarrow> u32 \<Rightarrow> u32 \<Rightarrow> memblock_region list \<Rightarrow>
   memblock \<Rightarrow> (bool \<times> memblock) option" where
  "add_new_block double_array w base sz xs m =
     (if mt_max (mt_of w m) \<le> length xs then Some (False, set_regions w xs m)
      else let ys = rev (shift_in \<lparr>rbase = base, rsize = sz\<rparr> (rev xs));
               slot = shift_slot base (rev xs);
               m = set_regions w ys m
           in if length ys = mt_max (mt_of w m)
              then (case double_array w m of
                      None \<Rightarrow> None
                    | Some (True, m) \<Rightarrow> Some (True, m)
                    | Some (False, m) \<Rightarrow>
                        Some (False, set_regions w (memblock_remove_region slot (mt_regions (mt_of w m))) m))
              else Some (True, m))"

text \<open>\<open>memblock_add_region\<close> calls \<open>memblock_double_array\<close>, which calls it again for the new array
  and frees the old one: each is written over the functions it calls, and \<open>memblock_add_region\<close>
  closes the cycle with a bound on the nesting.\<close>

definition add_region_with ::
  "(mtype \<Rightarrow> memblock \<Rightarrow> (bool \<times> memblock) option) \<Rightarrow> mb_fun" where
  "add_region_with double_array w base sz m =
     (case add_scan [] (mt_regions (mt_of w m)) base sz (base + sz) of
        Added xs \<Rightarrow> Some (True, set_regions w xs m)
      | After_loop base sz xs \<Rightarrow>
          (if length xs = 1 \<and> rsize (xs ! 0) = 0
           then Some (True, set_regions w [\<lparr>rbase = base, rsize = sz\<rparr>] m)
           else add_new_block double_array w base sz xs m)
      | New_block base sz xs \<Rightarrow> add_new_block double_array w base sz xs m)"

datatype (plugins only: code size) remove_exit =
    Removed "memblock_region list"
  | Split "memblock_region list" memblock_region "memblock_region list"

fun remove_scan ::
  "memblock_region list \<Rightarrow> memblock_region list \<Rightarrow> u32 \<Rightarrow> u32 \<Rightarrow> remove_exit" where
  "remove_scan pre [] base end = Removed pre"
| "remove_scan pre (r # rest) base end =
     (let rend = rbase r + rsize r
      in if end < rbase r \<or> rsize r = 0 then Removed (pre @ r # rest)
         else if base \<le> rbase r \<and> rend \<le> end
         then if pre = [] \<and> rest = [] then Removed [no_region] else remove_scan pre rest base end
         else if rbase r < base \<and> end < rend then Split pre r rest
         else if rbase r < end \<and> end < rend
         then Removed (pre @ r\<lparr>rsize := rsize r - (end - rbase r), rbase := end\<rparr> # rest)
         else let r = (if base < rend then r\<lparr>rsize := rsize r - (rend - base)\<rparr> else r)
              in remove_scan (pre @ [r]) rest base end)"

definition remove_with :: "mb_fun \<Rightarrow> mb_fun" where
  "remove_with add_region w base sz m =
     (let end = base + sz
      in case remove_scan [] (mt_regions (mt_of w m)) base end of
           Removed xs \<Rightarrow> Some (True, set_regions w xs m)
         | Split pre r rest \<Rightarrow>
             (let rend = rbase r + rsize r;
                  m = set_regions w (pre @ r\<lparr>rsize := base - rbase r\<rparr> # rest) m
              in case add_region w end (rend - end) m of
                   None \<Rightarrow> None
                 | Some (True, m) \<Rightarrow> Some (True, m)
                 | Some (False, m) \<Rightarrow>
                     (let xs = mt_regions (mt_of w m); q = xs ! length pre
                      in Some (False,
                           set_regions w (xs[length pre := q\<lparr>rsize := rend - rbase q\<rparr>]) m))))"

definition double_array_with ::
  "boot_env \<Rightarrow> mb_fun \<Rightarrow> mtype \<Rightarrow> memblock \<Rightarrow> (bool \<times> memblock) option" where
  "double_array_with env add_region w m =
     (let use_slab = slab_is_available env
      in if \<not> memblock_can_resize m then Some (False, m)
         else let old_size = of_nat (mt_max (mt_of w m)) * 8;
                  new_size = push_bit 1 old_size
              in do {
                   addr \<leftarrow> (if use_slab then Some (kmalloc_pa env new_size)
                            else memblock_find_base m new_size 4 0 MEMBLOCK_ALLOC_ACCESSIBLE);
                   if addr = MEMBLOCK_ERROR then Some (False, m)
                   else let old_array = mt_array (mt_of w m);
                            m = set_mt w ((mt_of w m)\<lparr>mt_array := Some addr,
                                                        mt_max := 2 * mt_max (mt_of w m)\<rparr>) m
                        in if use_slab then Some (True, m)
                           else do {
                             (ok, m) \<leftarrow> add_region Reserved addr new_size m;
                             if \<not> ok then None
                             else case old_array of
                                    None \<Rightarrow> Some (True, m)
                                  | Some old \<Rightarrow>
                                      do { (_, m) \<leftarrow> remove_with add_region Reserved old old_size m;
                                           Some (True, m) } } })"

primrec add_region_nest :: "boot_env \<Rightarrow> nat \<Rightarrow> mb_fun" where
  "add_region_nest env 0 = (\<lambda>w base sz m. None)"
| "add_region_nest env (Suc n) = add_region_with (double_array_with env (add_region_nest env n))"

definition memblock_add_region :: "boot_env \<Rightarrow> mb_fun" where
  "memblock_add_region env = add_region_nest env 4"

definition memblock_double_array ::
  "boot_env \<Rightarrow> mtype \<Rightarrow> memblock \<Rightarrow> (bool \<times> memblock) option" where
  "memblock_double_array env = double_array_with env (memblock_add_region env)"

definition memblock_add :: "boot_env \<Rightarrow> u32 \<Rightarrow> u32 \<Rightarrow> memblock \<Rightarrow> (bool \<times> memblock) option" where
  "memblock_add env base sz m = memblock_add_region env Memory base sz m"

definition raw_memblock_remove :: "boot_env \<Rightarrow> mb_fun" where
  "raw_memblock_remove env = remove_with (memblock_add_region env)"

definition memblock_remove :: "boot_env \<Rightarrow> u32 \<Rightarrow> u32 \<Rightarrow> memblock \<Rightarrow> (bool \<times> memblock) option" where
  "memblock_remove env base sz m = raw_memblock_remove env Memory base sz m"

definition memblock_free :: "boot_env \<Rightarrow> u32 \<Rightarrow> u32 \<Rightarrow> memblock \<Rightarrow> (bool \<times> memblock) option" where
  "memblock_free env base sz m = raw_memblock_remove env Reserved base sz m"

definition memblock_reserve :: "boot_env \<Rightarrow> u32 \<Rightarrow> u32 \<Rightarrow> memblock \<Rightarrow> (bool \<times> memblock) option" where
  "memblock_reserve env base sz m =
     (if sz = 0 then None else memblock_add_region env Reserved base sz m)"

definition memblock_free_reserved_regions :: "boot_env \<Rightarrow> memblock \<Rightarrow> (bool \<times> memblock) option" where
  "memblock_free_reserved_regions env m =
     (case mt_array (reserved m) of None \<Rightarrow> Some (True, m)
      | Some a \<Rightarrow> memblock_free env a (8 * of_nat (mt_max (reserved m))) m)"

definition memblock_reserve_reserved_regions :: "boot_env \<Rightarrow> memblock \<Rightarrow> (bool \<times> memblock) option" where
  "memblock_reserve_reserved_regions env m =
     (case mt_array (reserved m) of None \<Rightarrow> Some (True, m)
      | Some a \<Rightarrow> memblock_reserve env a (8 * of_nat (mt_max (reserved m))) m)"

section \<open>Allocating\<close>

definition raw_memblock_alloc_base ::
  "boot_env \<Rightarrow> u32 \<Rightarrow> u32 \<Rightarrow> u32 \<Rightarrow> memblock \<Rightarrow> (u32 \<times> memblock) option" where
  "raw_memblock_alloc_base env sz align max_addr m =
     (let sz = memblock_align_up sz align
      in do {
           found \<leftarrow> memblock_find_base m sz align 0 max_addr;
           if found = MEMBLOCK_ERROR then Some (0, m)
           else do {
             (ok, m) \<leftarrow> memblock_add_region env Reserved found sz m;
             Some (if ok then found else 0, m) } })"

definition memblock_alloc_base ::
  "boot_env \<Rightarrow> u32 \<Rightarrow> u32 \<Rightarrow> u32 \<Rightarrow> memblock \<Rightarrow> (u32 \<times> memblock) option" where
  "memblock_alloc_base env sz align max_addr m =
     do { (alloc, m) \<leftarrow> raw_memblock_alloc_base env sz align max_addr m;
          if alloc = 0 then None else Some (alloc, m) }"

definition memblock_alloc :: "boot_env \<Rightarrow> u32 \<Rightarrow> u32 \<Rightarrow> memblock \<Rightarrow> (u32 \<times> memblock) option" where
  "memblock_alloc env sz align m = memblock_alloc_base env sz align MEMBLOCK_ALLOC_ACCESSIBLE m"

text \<open>ARM has no node map, so the range of a node is all of the region and its node is 0.\<close>

definition memblock_nid_range :: "u32 \<Rightarrow> u32 \<Rightarrow> u32 \<times> nat" where
  "memblock_nid_range start end = (end, 0)"

text \<open>The loop over the node ranges of a region: the first range ends the region.\<close>

definition memblock_alloc_nid_region ::
  "boot_env \<Rightarrow> memblock_region \<Rightarrow> u32 \<Rightarrow> u32 \<Rightarrow> nat \<Rightarrow> memblock \<Rightarrow> (u32 \<times> memblock) option" where
  "memblock_alloc_nid_region env mp sz align nid m =
     (let end = rbase mp + rsize mp; start = memblock_align_up (rbase mp) align
      in if end \<le> start then Some (MEMBLOCK_ERROR, m)
         else case memblock_nid_range start end of (this_end, this_nid) \<Rightarrow>
           if this_nid \<noteq> nid then Some (MEMBLOCK_ERROR, m)
           else do {
             ret \<leftarrow> memblock_find_region (reserved m) start this_end sz align;
             if ret = MEMBLOCK_ERROR then Some (MEMBLOCK_ERROR, m)
             else do {
               (ok, m) \<leftarrow> memblock_add_region env Reserved ret sz m;
               Some (if ok then ret else MEMBLOCK_ERROR, m) } })"

fun alloc_nid_regions ::
  "boot_env \<Rightarrow> memblock_region list \<Rightarrow> u32 \<Rightarrow> u32 \<Rightarrow> nat \<Rightarrow> memblock \<Rightarrow> (u32 \<times> memblock) option" where
  "alloc_nid_regions env [] sz align nid m = Some (0, m)"
| "alloc_nid_regions env (mp # mps) sz align nid m =
     (case memblock_alloc_nid_region env mp sz align nid m of
        None \<Rightarrow> None
      | Some (ret, m) \<Rightarrow>
          if ret \<noteq> MEMBLOCK_ERROR then Some (ret, m) else alloc_nid_regions env mps sz align nid m)"

definition memblock_alloc_nid ::
  "boot_env \<Rightarrow> u32 \<Rightarrow> u32 \<Rightarrow> nat \<Rightarrow> memblock \<Rightarrow> (u32 \<times> memblock) option" where
  "memblock_alloc_nid env sz align nid m =
     (if sz = 0 then None
      else alloc_nid_regions env (mt_regions (memory m)) (memblock_align_up sz align) align nid m)"

definition memblock_alloc_try_nid ::
  "boot_env \<Rightarrow> u32 \<Rightarrow> u32 \<Rightarrow> nat \<Rightarrow> memblock \<Rightarrow> (u32 \<times> memblock) option" where
  "memblock_alloc_try_nid env sz align nid m =
     do { (res, m) \<leftarrow> memblock_alloc_nid env sz align nid m;
          if res \<noteq> 0 then Some (res, m)
          else memblock_alloc_base env sz align MEMBLOCK_ALLOC_ANYWHERE m }"

section \<open>Queries, limits and initialisation\<close>

definition memblock_phys_mem_size :: "memblock \<Rightarrow> u32" where
  "memblock_phys_mem_size m = memory_size m"

definition memblock_start_of_DRAM :: "memblock \<Rightarrow> u32" where
  "memblock_start_of_DRAM m = rbase (mt_regions (memory m) ! 0)"

definition memblock_end_of_DRAM :: "memblock \<Rightarrow> u32" where
  "memblock_end_of_DRAM m =
     (let r = mt_regions (memory m) ! (length (mt_regions (memory m)) - 1) in rbase r + rsize r)"

fun limit_memory :: "u32 \<Rightarrow> memblock_region list \<Rightarrow> memblock_region list" where
  "limit_memory limit [] = []"
| "limit_memory limit (r # rs) =
     (if rsize r < limit then r # limit_memory (limit - rsize r) rs else [r\<lparr>rsize := limit\<rparr>])"

partial_function (option) limit_reserved ::
  "u32 \<Rightarrow> nat \<Rightarrow> memblock_region list \<Rightarrow> memblock_region list option" where
  "limit_reserved limit i xs =
     (if i < length xs
      then let p = xs ! i;
               p = (if limit < rbase p then p\<lparr>rsize := 0\<rparr>
                    else if limit < rbase p + rsize p then p\<lparr>rsize := limit - rbase p\<rparr> else p)
           in if rsize p = 0 then limit_reserved limit i (memblock_remove_region i (xs[i := p]))
              else limit_reserved limit (Suc i) (xs[i := p])
      else Some xs)"

definition memblock_enforce_memory_limit :: "u32 \<Rightarrow> memblock \<Rightarrow> memblock option" where
  "memblock_enforce_memory_limit memory_limit m =
     (if memory_limit = 0 then Some m
      else let m = set_regions Memory (limit_memory memory_limit (mt_regions (memory m))) m
           in do { xs \<leftarrow> limit_reserved (memblock_end_of_DRAM m) 0 (mt_regions (reserved m));
                   Some (set_regions Reserved xs m) })"

function search_loop :: "memblock_region list \<Rightarrow> u32 \<Rightarrow> nat \<Rightarrow> nat \<Rightarrow> nat option" where
  "search_loop xs addr left right =
     (if left < right
      then let mid = (right + left) div 2
           in if addr < rbase (xs ! mid) then search_loop xs addr left mid
              else if rbase (xs ! mid) + rsize (xs ! mid) \<le> addr then search_loop xs addr (mid + 1) right
              else Some mid
      else None)"
  by pat_completeness auto
termination by (relation "measure (\<lambda>(xs, addr, left, right). right - left)") auto

declare search_loop.simps [simp del]

definition memblock_search :: "memblock_type \<Rightarrow> u32 \<Rightarrow> nat option" where
  "memblock_search type addr = search_loop (mt_regions type) addr 0 (length (mt_regions type))"

definition memblock_is_reserved :: "memblock \<Rightarrow> u32 \<Rightarrow> bool" where
  "memblock_is_reserved m addr \<longleftrightarrow> memblock_search (reserved m) addr \<noteq> None"

definition memblock_is_memory :: "memblock \<Rightarrow> u32 \<Rightarrow> bool" where
  "memblock_is_memory m addr \<longleftrightarrow> memblock_search (memory m) addr \<noteq> None"

definition memblock_is_region_memory :: "memblock \<Rightarrow> u32 \<Rightarrow> u32 \<Rightarrow> bool" where
  "memblock_is_region_memory m base sz \<longleftrightarrow>
     (case memblock_search (memory m) base of
        None \<Rightarrow> False
      | Some idx \<Rightarrow>
          (let r = mt_regions (memory m) ! idx in rbase r \<le> base \<and> base + sz \<le> rbase r + rsize r))"

definition memblock_is_region_reserved :: "memblock \<Rightarrow> u32 \<Rightarrow> u32 \<Rightarrow> bool" where
  "memblock_is_region_reserved m base sz \<longleftrightarrow> memblock_overlaps_region (reserved m) base sz \<noteq> None"

definition memblock_set_current_limit :: "u32 \<Rightarrow> memblock \<Rightarrow> memblock" where
  "memblock_set_current_limit limit m = m\<lparr>current_limit := limit\<rparr>"

definition memblock_analyze :: "memblock \<Rightarrow> memblock" where
  "memblock_analyze m =
     m\<lparr>memory_size := fold (\<lambda>r sum. sum + rsize r) (mt_regions (memory m)) 0,
       memblock_can_resize := True\<rparr>"

text \<open>The second argument is the static flag \<open>init_done\<close>.\<close>

definition memblock_init :: "memblock \<Rightarrow> bool \<Rightarrow> memblock \<times> bool" where
  "memblock_init m init_done =
     (if init_done then (m, True)
      else let t = \<lparr>mt_max = INIT_MEMBLOCK_REGIONS, mt_array = None, mt_regions = [no_region]\<rparr>
           in (m\<lparr>memory := t, reserved := t, current_limit := MEMBLOCK_ALLOC_ANYWHERE\<rparr>, True))"

end
