(* ===== verification/Memblock_Cover.thy ===== *)
theory Memblock_Cover
  imports Memblock
begin

text \<open>
  The tables of the boot memory allocator as sets of addresses.  A table is separated when its
  regions are non-empty, in ascending order and neither overlap nor touch; adding a block gives
  the union, removing one the difference, and both keep the table separated.
\<close>

section \<open>Tables as sets\<close>

definition rlo :: "memblock_region \<Rightarrow> nat" where "rlo r = unat (rbase r)"
definition rhi :: "memblock_region \<Rightarrow> nat" where "rhi r = unat (rbase r) + unat (rsize r)"

definition cover :: "memblock_region list \<Rightarrow> nat set" where
  "cover xs = (\<Union>r \<in> set xs. {rlo r..<rhi r})"

definition region_ok :: "memblock_region \<Rightarrow> bool" where
  "region_ok r \<longleftrightarrow> rsize r \<noteq> 0 \<and> rhi r < 2 ^ 32"

definition separated :: "memblock_region list \<Rightarrow> bool" where
  "separated xs \<longleftrightarrow> sorted_wrt (\<lambda>a b. rhi a < rlo b) xs \<and> (\<forall>r \<in> set xs. region_ok r)"

text \<open>The table of a type: separated, or the single empty region.\<close>

definition table_ok :: "memblock_region list \<Rightarrow> bool" where
  "table_ok xs \<longleftrightarrow> xs = [no_region] \<or> xs \<noteq> [] \<and> separated xs"

lemma cover_simps [simp]:
  "cover [] = {}" "cover (r # xs) = {rlo r..<rhi r} \<union> cover xs"
  "cover (xs @ ys) = cover xs \<union> cover ys"
  by (auto simp: cover_def)

lemma cover_no_region [simp]: "rlo no_region = 0" "rhi no_region = 0" "rsize no_region = 0"
  by (simp_all add: rlo_def rhi_def no_region_def)

lemma separated_append:
  "separated (xs @ ys) \<longleftrightarrow>
     separated xs \<and> separated ys \<and> (\<forall>a \<in> set xs. \<forall>b \<in> set ys. rhi a < rlo b)"
  by (auto simp: separated_def sorted_wrt_append)

lemma separated_Cons:
  "separated (r # xs) \<longleftrightarrow> region_ok r \<and> (\<forall>b \<in> set xs. rhi r < rlo b) \<and> separated xs"
  by (auto simp: separated_def)

lemma separated_Nil [simp]: "separated []"
  by (simp add: separated_def)

lemma region_ok_words:
  assumes "region_ok r"
  shows "unat (rbase r + rsize r) = rhi r" "rlo r < rhi r" "unat (rbase r) = rlo r"
    "unat (rsize r) = rhi r - rlo r" "rhi r < 2 ^ 32"
proof -
  show lt: "rhi r < 2 ^ 32" using assms by (simp add: region_ok_def)
  show "unat (rbase r + rsize r) = rhi r" using lt by (simp add: rhi_def unat_add_nowrap)
  show "rlo r < rhi r" using assms by (simp add: region_ok_def rlo_def rhi_def unat_gt_0)
qed (simp_all add: rlo_def rhi_def)

lemma separated_shrink:
  assumes "separated (pre @ r # rest)" "region_ok q" "rlo r \<le> rlo q" "rhi q \<le> rhi r"
  shows "separated (pre @ q # rest)"
proof -
  have "\<forall>a \<in> set pre. rhi a < rlo q" "\<forall>b \<in> set rest. rhi q < rlo b"
    using assms(1,3,4) by (auto simp: separated_append separated_Cons intro: order.strict_trans1
        order.strict_trans2)
  then show ?thesis using assms(1,2) by (simp add: separated_append separated_Cons)
qed

section \<open>Adding\<close>

text \<open>A block: its bounds as numbers.\<close>

definition block :: "u32 \<Rightarrow> u32 \<Rightarrow> u32 \<Rightarrow> bool" where
  "block base sz end \<longleftrightarrow> unat base + unat sz = unat end \<and> unat base < unat end"

lemma block_region:
  assumes "block base sz end"
  shows "region_ok \<lparr>rbase = base, rsize = sz\<rparr>" "rlo \<lparr>rbase = base, rsize = sz\<rparr> = unat base"
    "rhi \<lparr>rbase = base, rsize = sz\<rparr> = unat end"
proof -
  have "unat end < 2 ^ 32" using unsigned_less [of "end"] by simp
  moreover have "sz \<noteq> 0" using assms by (auto simp: block_def)
  ultimately show "region_ok \<lparr>rbase = base, rsize = sz\<rparr>"
    using assms by (simp add: region_ok_def rhi_def block_def)
qed (use assms in \<open>simp_all add: rlo_def rhi_def block_def\<close>)

text \<open>The turns of the loop, by the position of the region.\<close>

lemma add_turn_cases:
  assumes r: "region_ok r" and b: "block base sz end"
  shows "(unat end < rlo r \<longrightarrow> add_turn r base sz end = Brk) \<and>
    (rlo r \<le> unat base \<and> unat end \<le> rhi r \<longrightarrow> add_turn r base sz end = Ret r) \<and>
    (unat base < rlo r \<and> rlo r \<le> unat end \<and> unat end \<le> rhi r \<longrightarrow>
       (\<exists>q. add_turn r base sz end = Ret q \<and> region_ok q \<and> rlo q = unat base \<and> rhi q = rhi r)) \<and>
    (unat base \<le> rhi r \<and> rlo r \<le> unat end \<and> rhi r < unat end \<longrightarrow>
       (\<exists>c z. add_turn r base sz end = Absorb c z \<and> block c z end \<and>
              unat c = min (unat base) (rlo r))) \<and>
    (rhi r < unat base \<longrightarrow> add_turn r base sz end = Cont r base sz)"
proof -
  define rend where "rend = rbase r + rsize r"
  note w = region_ok_words [OF r]
  have rend: "unat rend = rhi r" using w by (simp add: rend_def)
  have be: "unat base < unat end" "unat sz = unat end - unat base" using b by (auto simp: block_def)
  have sz: "rsize r \<noteq> 0" using r by (simp add: region_ok_def)
  have t: "add_turn r base sz end =
     (if end < rbase r then Brk
      else if rbase r \<le> base \<and> end \<le> rend then Ret r
      else if base < rbase r \<and> rbase r \<le> end
      then if end \<le> rend then Ret (r\<lparr>rbase := base, rsize := rend - base\<rparr>)
           else add_top (r\<lparr>rbase := base, rsize := rend - base\<rparr>) rend rend (end - rend) end
      else add_top r rend base sz end)"
    by (simp add: add_turn_def rend_def sz memblock_memory_can_coalesce_def Let_def)
  have low: "region_ok (r\<lparr>rbase := base, rsize := rend - base\<rparr>)"
    "rlo (r\<lparr>rbase := base, rsize := rend - base\<rparr>) = unat base"
    "rhi (r\<lparr>rbase := base, rsize := rend - base\<rparr>) = rhi r" if "unat base < rlo r"
  proof -
    have e: "unat (rend - base) = rhi r - unat base"
      using that w rend by (simp add: unat_sub_nowrap)
    have ne: "rend - base \<noteq> 0" using e that w(2) by (auto simp: unat_eq_0)
    show lo: "rlo (r\<lparr>rbase := base, rsize := rend - base\<rparr>) = unat base" by (simp add: rlo_def)
    have "rhi (r\<lparr>rbase := base, rsize := rend - base\<rparr>) = unat base + unat (rend - base)"
      by (simp add: rhi_def)
    then show hi: "rhi (r\<lparr>rbase := base, rsize := rend - base\<rparr>) = rhi r"
      using e that w(2) by linarith
    show "region_ok (r\<lparr>rbase := base, rsize := rend - base\<rparr>)"
      unfolding region_ok_def hi using ne w(5) by simp
  qed
  have ab1: "block base (end - rend + (rend - base)) end" if "rhi r < unat end" "unat base < rlo r"
    using be by (simp add: block_def unat_sub_nowrap)
  have ab2: "block (rbase r) (sz + (base - rbase r)) end" if "rlo r \<le> unat base"
  proof -
    have "unat (base - rbase r) = unat base - rlo r" using that w by (simp add: unat_sub_nowrap)
    moreover have "unat sz + (unat base - rlo r) \<le> unat end" using that be by linarith
    moreover from this have "unat sz + (unat base - rlo r) < 2 ^ 32"
      using unat_less_2p32 [of "end"] by simp
    ultimately show ?thesis using that be w by (simp add: block_def unat_add_nowrap)
  qed
  show ?thesis using w rend be low ab1 ab2
    by (auto simp: t add_top_def memblock_memory_can_coalesce_def word_le_nat_alt word_less_nat_alt)
qed

lemma turn_position:
  fixes lo hi b e :: nat
  assumes "lo < hi" "b < e"
  obtains (above) "e < lo" | (inside) "lo \<le> b" "e \<le> hi" | (bottom) "b < lo" "lo \<le> e" "e \<le> hi"
    | (absorb) "b \<le> hi" "lo \<le> e" "hi < e" | (below) "hi < b"
  using assms by linarith

text \<open>What the scan leaves: the table with the block in it, or the table without the regions that
  the block, grown downwards, has absorbed.\<close>

fun scan_result :: "nat set \<Rightarrow> u32 \<Rightarrow> add_exit \<Rightarrow> bool" where
  "scan_result S end (Added xs) \<longleftrightarrow> separated xs \<and> xs \<noteq> [] \<and> cover xs = S"
| "scan_result S end (After_loop b z xs) \<longleftrightarrow>
     block b z end \<and> table_ok xs \<and> cover xs \<union> {unat b..<unat end} = S \<and>
     (\<forall>r \<in> set xs. rsize r \<noteq> 0 \<longrightarrow> rhi r < unat b \<or> unat end < rlo r)"
| "scan_result S end (New_block b z xs) \<longleftrightarrow> False"

lemma add_scan_result:
  assumes "separated (pre @ rest)" "pre @ rest \<noteq> []" "block base sz end"
    "\<forall>r \<in> set pre. rhi r < unat base"
  shows "scan_result (cover (pre @ rest) \<union> {unat base..<unat end}) end (add_scan pre rest base sz end)"
  using assms
proof (induction pre rest base sz "end" rule: add_scan.induct)
  case (1 pre base sz "end")
  then show ?case by (auto simp: table_ok_def)
next
  case (2 pre r rest base sz "end")
  have r: "region_ok r" and above: "\<forall>b \<in> set rest. rhi r < rlo b"
    and low: "\<forall>a \<in> set pre. rhi a < rlo r" and sep: "separated (pre @ rest)"
    using 2(3) by (auto simp: separated_append separated_Cons)
  have b: "unat base < unat end" using 2(5) by (simp add: block_def)
  note t = add_turn_cases [OF r 2(5)] and w = region_ok_words [OF r]
  from w(2) b show ?case
  proof (cases rule: turn_position)
    case above: above
    then have "add_turn r base sz end = Brk" using t by blast
    moreover have "\<forall>b \<in> set rest. unat end < rlo b"
      using above \<open>\<forall>b \<in> set rest. rhi r < rlo b\<close> w(2) by fastforce
    ultimately show ?thesis using 2 above by (auto simp: table_ok_def)
  next
    case inside
    then have "add_turn r base sz end = Ret r" using t by blast
    then show ?thesis using 2(3) inside by (auto simp: separated_append)
  next
    case bottom
    then obtain q where q: "add_turn r base sz end = Ret q" "region_ok q" "rlo q = unat base" "rhi q = rhi r"
      using t by blast
    have "separated (pre @ q # rest)"
      using 2(3,6) q by (auto simp: separated_append separated_Cons)
    moreover have "{rlo r..<rhi r} \<union> {unat base..<unat end} = {unat base..<rhi r}"
      using bottom b w(2) by auto
    ultimately show ?thesis using q by auto
  next
    case absorb
    then obtain c z where c: "add_turn r base sz end = Absorb c z" "block c z end"
      "unat c = min (unat base) (rlo r)" using t by blast
    have u: "{rlo r..<rhi r} \<union> {unat base..<unat end} = {unat c..<unat end}"
      using absorb b w(2) c(3) by auto
    have pre: "\<forall>a \<in> set pre. rhi a < unat c" using 2(6) low c(3) by auto
    show ?thesis
    proof (cases "pre = [] \<and> rest = []")
      case True
      then show ?thesis using c u by (simp add: table_ok_def)
    next
      case False
      then have "scan_result (cover (pre @ rest) \<union> {unat c..<unat end}) end (add_scan pre rest c z end)"
        using 2(1) [OF c(1) False sep _ c(2) pre] by blast
      moreover have "add_scan pre (r # rest) base sz end = add_scan pre rest c z end"
        using False c(1) by auto
      moreover have "cover (pre @ r # rest) \<union> {unat base..<unat end} = cover (pre @ rest) \<union> {unat c..<unat end}"
        using u by auto
      ultimately show ?thesis by simp
    qed
  next
    case below
    then have "add_turn r base sz end = Cont r base sz" using t by blast
    then show ?thesis using 2(2) [of r base sz] 2(3-6) below by auto
  qed
qed

lemma add_scan_kept:
  assumes "separated (pre @ rest)" "block base sz end"
    "add_scan pre rest base sz end = After_loop b z xs"
  shows "xs = pre @ rest \<and> b = base \<and> z = sz \<or> length xs < length (pre @ rest) \<or> xs = [no_region]"
  using assms
proof (induction pre rest base sz "end" rule: add_scan.induct)
  case (2 pre r rest base sz "end")
  have r: "region_ok r" and sep: "separated (pre @ rest)"
    using 2(3) by (auto simp: separated_append separated_Cons)
  have b: "unat base < unat end" using 2(4) by (simp add: block_def)
  note t = add_turn_cases [OF r 2(4)] and w = region_ok_words [OF r]
  from w(2) b show ?case
  proof (cases rule: turn_position)
    case absorb
    then obtain c z' where c: "add_turn r base sz end = Absorb c z'" "block c z' end" using t by blast
    show ?thesis
    proof (cases "pre = [] \<and> rest = []")
      case False
      then have eq: "add_scan pre (r # rest) base sz end = add_scan pre rest c z' end" using c(1) by auto
      then have "length xs \<le> length (pre @ rest) \<or> xs = [no_region]"
        using 2(1) [OF c(1) False sep c(2)] 2(5) by auto
      then show ?thesis by auto
    qed (use 2(5) c in auto)
  next
    case below
    then have eq: "add_turn r base sz end = Cont r base sz" using t by blast
    then have "add_scan pre (r # rest) base sz end = add_scan (pre @ [r]) rest base sz end" by simp
    then show ?thesis using 2(2) [OF eq] 2(3-5) by simp
  next
    case bottom
    then obtain q where "add_turn r base sz end = Ret q" using t by blast
    then show ?thesis using 2(5) by simp
  qed (use t 2(5) in auto)
qed simp

lemma shift_in_cover: "cover (shift_in n xs) = {rlo n..<rhi n} \<union> cover xs"
  by (induction xs) auto

lemma set_shift_in: "set (shift_in n xs) = insert n (set xs)"
  by (induction xs) auto

lemma length_shift_in [simp]: "length (shift_in n xs) = Suc (length xs)"
  by (induction xs) auto

lemma shift_in_separated:
  assumes "separated (rev xs)" "region_ok n" "\<forall>r \<in> set xs. rhi r < rlo n \<or> rhi n < rlo r"
  shows "separated (rev (shift_in n xs))"
  using assms
proof (induction xs)
  case (Cons r xs)
  note wr = region_ok_words and n = region_ok_words [OF Cons.prems(2)]
  have r: "region_ok r" "\<forall>a \<in> set xs. rhi a < rlo r" "separated (rev xs)"
    using Cons.prems(1) by (auto simp: separated_append separated_Cons)
  show ?case
  proof (cases "rbase n < rbase r")
    case True
    then have lt: "rlo n < rlo r" by (simp add: rlo_def word_less_nat_alt)
    then have "rhi n < rlo r" using Cons.prems(3) region_ok_words(2) [OF r(1)] by fastforce
    then show ?thesis using True r Cons
      by (simp add: separated_append separated_Cons set_shift_in)
  next
    case False
    then have "rlo r \<le> rlo n" by (simp add: rlo_def word_less_nat_alt)
    then have "rhi r < rlo n" using Cons.prems(3) n(2) by fastforce
    moreover from this have "\<forall>a \<in> set xs. rhi a < rlo n"
      using r(2) region_ok_words(2) [OF r(1)] by fastforce
    ultimately show ?thesis using False r Cons.prems(2)
      by (auto simp: separated_append separated_Cons)
  qed
qed (simp add: separated_Cons)

lemma shift_undo:
  "xs \<noteq> [] \<Longrightarrow> memblock_remove_region (shift_slot (rbase n) xs) (rev (shift_in n xs)) = rev xs"
proof -
  have "take (shift_slot (rbase n) xs) (rev (shift_in n xs)) @
        drop (Suc (shift_slot (rbase n) xs)) (rev (shift_in n xs)) = rev xs \<and>
        shift_slot (rbase n) xs \<le> length xs"
    by (induction xs) auto
  then show "xs \<noteq> [] \<Longrightarrow> ?thesis" by (simp add: memblock_remove_region_def Let_def)
qed

section \<open>The operations on the state\<close>

definition regs :: "mtype \<Rightarrow> memblock \<Rightarrow> memblock_region list" where
  "regs w m = mt_regions (mt_of w m)"

lemma set_regions_simps [simp]:
  "mt_max (mt_of w (set_regions v xs m)) = mt_max (mt_of w m)"
  "mt_regions (mt_of w (set_regions w xs m)) = xs"
  "regs w (set_regions w xs m) = xs"
  "set_regions w (regs w m) m = m"
  "set_regions w ys (set_regions w xs m) = set_regions w ys m"
  "memblock_can_resize (set_regions w xs m) = memblock_can_resize m"
  by (cases w; cases v; simp add: set_regions_def set_mt_def mt_of_def regs_def)+

text \<open>A block of the address space: not empty, and below its top.\<close>

definition in_space :: "u32 \<Rightarrow> u32 \<Rightarrow> bool" where
  "in_space base sz \<longleftrightarrow> sz \<noteq> 0 \<and> unat base + unat sz < 2 ^ 32"

lemma in_space_block: "in_space base sz \<Longrightarrow> block base sz (base + sz)"
  by (simp add: in_space_def block_def unat_add_nowrap unat_gt_0)

lemma in_space_end: "in_space base sz \<Longrightarrow> unat (base + sz) = unat base + unat sz"
  by (simp add: in_space_def unat_add_nowrap)

lemma new_block_cover:
  assumes b: "block b z end" and xs: "separated xs" "xs \<noteq> []"
    and far: "\<forall>r \<in> set xs. rhi r < unat b \<or> unat end < rlo r"
    and res: "add_new_block dbl w b z xs m = Some (True, m')"
    and room: "Suc (length xs) < mt_max (mt_of w m)"
  shows "m' = set_regions w (regs w m') m \<and> separated (regs w m') \<and> regs w m' \<noteq> [] \<and>
         cover (regs w m') = cover xs \<union> {unat b..<unat end}"
proof -
  define n where "n = \<lparr>rbase = b, rsize = z\<rparr>"
  have n: "region_ok n" "rlo n = unat b" "rhi n = unat end" using block_region [OF b] by (simp_all add: n_def)
  have m': "m' = set_regions w (rev (shift_in n (rev xs))) m"
    using res room by (simp add: add_new_block_def n_def Let_def)
  have "separated (rev (shift_in n (rev xs)))"
    by (rule shift_in_separated) (use n xs far in auto)
  moreover have "cover (rev (shift_in n (rev xs))) = cover xs \<union> {unat b..<unat end}"
    using n by (auto simp: cover_def set_shift_in)
  moreover have "rev (shift_in n (rev xs)) \<noteq> []" by (metis length_rev length_shift_in list.size(3) nat.distinct(1))
  ultimately show ?thesis by (simp add: m')
qed

lemma new_block_ok:
  assumes "Suc (length xs) < mt_max (mt_of w m)"
  shows "add_new_block dbl w b z xs m =
    Some (True, set_regions w (rev (shift_in \<lparr>rbase = b, rsize = z\<rparr> (rev xs))) m)"
  using assms by (simp add: add_new_block_def Let_def)

lemma add_scan_no_region:
  "add_scan [] [no_region] base sz end = After_loop base sz [no_region]"
  by (simp add: add_turn_def)

text \<open>What \<open>memblock_add_region\<close> comes to: it is done without a new region, or inserts the block
  into the regions that remain.\<close>

definition union_ok :: "mtype \<Rightarrow> u32 \<Rightarrow> u32 \<Rightarrow> memblock \<Rightarrow> memblock \<Rightarrow> bool" where
  "union_ok w base sz m m' \<longleftrightarrow> m' = set_regions w (regs w m') m \<and> table_ok (regs w m') \<and>
     cover (regs w m') = cover (regs w m) \<union> {unat base..<unat base + unat sz}"

lemma add_region_shape:
  assumes t: "table_ok (regs w m)" and sp: "in_space base sz"
  obtains (fitted) m' where "add_region_with dbl w base sz m = Some (True, m')" "union_ok w base sz m m'"
  | (insert) b z xs e where "add_region_with dbl w base sz m = add_new_block dbl w b z xs m"
      "block b z e" "separated xs" "xs \<noteq> []" "\<forall>r \<in> set xs. rhi r < unat b \<or> unat e < rlo r"
      "cover xs \<union> {unat b..<unat e} = cover (regs w m) \<union> {unat base..<unat base + unat sz}"
      "xs = regs w m \<or> length xs < length (regs w m)"
proof (cases "regs w m = [no_region]")
  case True
  define n where "n = \<lparr>rbase = base, rsize = sz\<rparr>"
  have n: "region_ok n" "rlo n = unat base" "rhi n = unat base + unat sz"
    using block_region [OF in_space_block [OF sp]] in_space_end [OF sp] by (simp_all add: n_def)
  have "add_region_with dbl w base sz m = Some (True, set_regions w [n] m)"
    using True by (simp add: add_region_with_def add_scan_no_region n_def regs_def del: add_scan.simps)
  moreover have "union_ok w base sz m (set_regions w [n] m)"
    using True n by (simp add: union_ok_def table_ok_def separated_Cons)
  ultimately show thesis by (rule fitted)
next
  case False
  define e where "e = base + sz"
  have sep: "separated ([] @ regs w m)" "[] @ regs w m \<noteq> []" using t False by (auto simp: table_ok_def)
  have bl: "block base sz e" using in_space_block [OF sp] by (simp add: e_def)
  have ue: "unat e = unat base + unat sz" using in_space_end [OF sp] by (simp add: e_def)
  have sr: "scan_result (cover (regs w m) \<union> {unat base..<unat e}) e (add_scan [] (regs w m) base sz e)"
    using add_scan_result [OF sep bl] by simp
  show thesis
  proof (cases "add_scan [] (regs w m) base sz e")
    case (Added xs)
    then have "add_region_with dbl w base sz m = Some (True, set_regions w xs m)"
      by (simp add: add_region_with_def e_def [symmetric] regs_def [symmetric])
    moreover have "union_ok w base sz m (set_regions w xs m)"
      using sr Added ue by (simp add: table_ok_def union_ok_def)
    ultimately show thesis by (rule fitted)
  next
    case (After_loop b z xs)
    have a: "block b z e" "table_ok xs" "cover xs \<union> {unat b..<unat e} = cover (regs w m) \<union> {unat base..<unat e}"
      "\<forall>r \<in> set xs. rsize r \<noteq> 0 \<longrightarrow> rhi r < unat b \<or> unat e < rlo r"
      using sr After_loop by auto
    show thesis
    proof (cases "xs = [no_region]")
      case True
      have n: "region_ok \<lparr>rbase = b, rsize = z\<rparr>" "rlo \<lparr>rbase = b, rsize = z\<rparr> = unat b"
        "rhi \<lparr>rbase = b, rsize = z\<rparr> = unat e" by (rule block_region [OF a(1)])+
      have "add_region_with dbl w base sz m = Some (True, set_regions w [\<lparr>rbase = b, rsize = z\<rparr>] m)"
        using After_loop True by (simp add: add_region_with_def e_def [symmetric] regs_def [symmetric])
      moreover have "union_ok w base sz m (set_regions w [\<lparr>rbase = b, rsize = z\<rparr>] m)"
        using n True a(3) ue by (simp add: union_ok_def table_ok_def separated_Cons)
      ultimately show thesis by (rule fitted)
    next
      case False
      then have xs: "separated xs" "xs \<noteq> []" using a(2) by (auto simp: table_ok_def)
      then have nz: "\<forall>r \<in> set xs. rsize r \<noteq> 0" by (auto simp: separated_def region_ok_def)
      have nb: "add_region_with dbl w base sz m = add_new_block dbl w b z xs m"
        using After_loop xs nz
        by (cases xs) (auto simp: add_region_with_def e_def [symmetric] regs_def [symmetric])
      have "xs = regs w m \<or> length xs < length (regs w m)"
        using add_scan_kept [OF sep(1) bl] After_loop False by auto
      with a(3,4) nz ue show thesis by (intro insert [OF nb a(1) xs]) simp_all
    qed
  next
    case (New_block b z xs)
    then show thesis using sr by simp
  qed
qed

lemma new_block_union:
  assumes "block b z e" "separated xs" "xs \<noteq> []" "\<forall>r \<in> set xs. rhi r < unat b \<or> unat e < rlo r"
    "cover xs \<union> {unat b..<unat e} = cover (regs w m) \<union> {unat base..<unat base + unat sz}"
    "Suc (length xs) < mt_max (mt_of w m)"
  obtains m' where "add_new_block dbl w b z xs m = Some (True, m')" "union_ok w base sz m m'"
proof -
  note ok = new_block_ok [OF assms(6), of dbl b z]
  show thesis
    by (rule that [OF ok])
       (use new_block_cover [OF assms(1-4) ok assms(6)] assms(5) in \<open>simp add: union_ok_def table_ok_def\<close>)
qed

lemma add_region_cover:
  assumes t: "table_ok (regs w m)" and sp: "in_space base sz"
    and room: "Suc (length (regs w m)) < mt_max (mt_of w m)"
  shows "\<exists>m'. add_region_with dbl w base sz m = Some (True, m') \<and>
    m' = set_regions w (regs w m') m \<and> table_ok (regs w m') \<and>
    cover (regs w m') = cover (regs w m) \<union> {unat base..<unat base + unat sz}"
  using t sp
proof (cases rule: add_region_shape [where dbl = dbl])
  case (fitted m')
  then show ?thesis by (auto simp: union_ok_def)
next
  case (insert b z xs e)
  have "Suc (length xs) < mt_max (mt_of w m)" using insert(7) room by auto
  then obtain m' where "add_new_block dbl w b z xs m = Some (True, m')" "union_ok w base sz m m'"
    using new_block_union [OF insert(2-6)] by blast
  then show ?thesis using insert(1) by (auto simp: union_ok_def)
qed

text \<open>While the array may not be resized, an add that fails changes nothing.\<close>

lemma add_region_total:
  assumes t: "table_ok (regs w m)" and sp: "in_space base sz"
    and dbl: "\<And>m. \<not> memblock_can_resize m \<Longrightarrow> dbl w m = Some (False, m)"
    and fixed: "\<not> memblock_can_resize m"
    and lt: "length (regs w m) < mt_max (mt_of w m)"
  shows "add_region_with dbl w base sz m = Some (False, m) \<or>
    (\<exists>m'. add_region_with dbl w base sz m = Some (True, m') \<and> union_ok w base sz m m')"
  using t sp
proof (cases rule: add_region_shape [where dbl = dbl])
  case (insert b z xs e)
  show ?thesis
  proof (cases "Suc (length xs) < mt_max (mt_of w m)")
    case True
    then show ?thesis using new_block_union [OF insert(2-6)] insert(1) by metis
  next
    case False
    then have xs: "xs = regs w m" "Suc (length xs) = mt_max (mt_of w m)" using insert(7) lt by auto
    have "add_new_block dbl w b z xs m = Some (False, set_regions w xs m)"
      using xs(2) dbl fixed shift_undo [of "rev xs" "\<lparr>rbase = b, rsize = z\<rparr>"] insert(4)
      by (simp add: add_new_block_def Let_def)
    then show ?thesis using insert(1) xs(1) by simp
  qed
qed blast

section \<open>Removing\<close>

text \<open>A region that starts where the removed block ends is the case the loop gets wrong.\<close>

definition no_start_at :: "u32 \<Rightarrow> memblock_region list \<Rightarrow> bool" where
  "no_start_at end xs \<longleftrightarrow> (\<forall>r \<in> set xs. rbase r \<noteq> end)"

lemma trim_bottom:
  assumes "region_ok r" "rlo r < unat end" "unat end < rhi r"
  shows "region_ok (r\<lparr>rsize := rsize r - (end - rbase r), rbase := end\<rparr>)"
    "rlo (r\<lparr>rsize := rsize r - (end - rbase r), rbase := end\<rparr>) = unat end"
    "rhi (r\<lparr>rsize := rsize r - (end - rbase r), rbase := end\<rparr>) = rhi r"
proof -
  note w = region_ok_words [OF assms(1)]
  have "unat (end - rbase r) = unat end - rlo r" using assms w(3) by (simp add: unat_sub_nowrap)
  then have z: "unat (rsize r - (end - rbase r)) = rhi r - unat end"
    using assms w(4) by (simp add: unat_sub_nowrap)
  then have "rsize r - (end - rbase r) \<noteq> 0" using assms by (auto simp: unat_eq_0)
  moreover show "rhi (r\<lparr>rsize := rsize r - (end - rbase r), rbase := end\<rparr>) = rhi r"
    using z assms(3) unfolding rhi_def [of "r\<lparr>rsize := rsize r - (end - rbase r), rbase := end\<rparr>"] by simp
  ultimately show "region_ok (r\<lparr>rsize := rsize r - (end - rbase r), rbase := end\<rparr>)"
    using w(5) by (simp add: region_ok_def)
qed (simp add: rlo_def)

lemma trim_top:
  assumes "region_ok r" "rlo r < unat base" "unat base < rhi r" "rend = rbase r + rsize r"
  shows "region_ok (r\<lparr>rsize := rsize r - (rend - base)\<rparr>)"
    "rlo (r\<lparr>rsize := rsize r - (rend - base)\<rparr>) = rlo r"
    "rhi (r\<lparr>rsize := rsize r - (rend - base)\<rparr>) = unat base"
proof -
  note w = region_ok_words [OF assms(1)]
  have "unat (rend - base) = rhi r - unat base" using assms w(1) by (simp add: unat_sub_nowrap)
  then have "unat (rend - base) \<le> unat (rsize r)" using assms(2,3) w(4) by linarith
  then have "unat (rsize r - (rend - base)) = unat (rsize r) - unat (rend - base)"
    by (rule unat_sub_nowrap)
  then have z: "unat (rsize r - (rend - base)) = unat base - rlo r"
    using \<open>unat (rend - base) = rhi r - unat base\<close> w(4) assms(2,3) by linarith
  then have "rsize r - (rend - base) \<noteq> 0" using assms by (auto simp: unat_eq_0)
  moreover show hi: "rhi (r\<lparr>rsize := rsize r - (rend - base)\<rparr>) = unat base"
    using z assms(2) w(3) by (simp add: rhi_def [of "r\<lparr>rsize := rsize r - (rend - base)\<rparr>"])
  moreover have "unat base < 2 ^ 32" using unat_less_2p32 [of base] by simp
  ultimately show "region_ok (r\<lparr>rsize := rsize r - (rend - base)\<rparr>)" by (simp add: region_ok_def)
qed (simp add: rlo_def)

lemma remove_position:
  fixes lo hi b e :: nat
  assumes "lo < hi" "b < e" "lo \<noteq> e"
  obtains (above) "e < lo" | (whole) "b \<le> lo" "hi \<le> e" "lo < e" | (middle) "lo < b" "e < hi"
    | (bottom) "b \<le> lo" "lo < e" "e < hi" | (top) "lo < b" "b < hi" "hi \<le> e" | (below) "hi \<le> b"
  using assms by linarith

lemma remove_turn:
  assumes r: "region_ok r" and b: "unat base < unat end" and ne: "rbase r \<noteq> end"
  shows "(unat end < rlo r \<longrightarrow> remove_scan pre (r # rest) base end = Removed (pre @ r # rest)) \<and>
    (unat base \<le> rlo r \<and> rhi r \<le> unat end \<longrightarrow> remove_scan pre (r # rest) base end =
       (if pre = [] \<and> rest = [] then Removed [no_region] else remove_scan pre rest base end)) \<and>
    (rlo r < unat base \<and> unat end < rhi r \<longrightarrow> remove_scan pre (r # rest) base end = Split pre r rest) \<and>
    (unat base \<le> rlo r \<and> rlo r < unat end \<and> unat end < rhi r \<longrightarrow>
       (\<exists>q. remove_scan pre (r # rest) base end = Removed (pre @ q # rest) \<and> region_ok q \<and>
            rlo q = unat end \<and> rhi q = rhi r)) \<and>
    (rlo r < unat base \<and> unat base < rhi r \<and> rhi r \<le> unat end \<longrightarrow>
       (\<exists>q. remove_scan pre (r # rest) base end = remove_scan (pre @ [q]) rest base end \<and> region_ok q \<and>
            rlo q = rlo r \<and> rhi q = unat base)) \<and>
    (rhi r \<le> unat base \<longrightarrow> remove_scan pre (r # rest) base end = remove_scan (pre @ [r]) rest base end)"
proof -
  define rend where "rend = rbase r + rsize r"
  note w = region_ok_words [OF r]
  have rend: "unat rend = rhi r" using w by (simp add: rend_def)
  have sz: "rsize r \<noteq> 0" using r by (simp add: region_ok_def)
  have t: "remove_scan pre (r # rest) base end =
     (if end < rbase r then Removed (pre @ r # rest)
      else if base \<le> rbase r \<and> rend \<le> end
      then if pre = [] \<and> rest = [] then Removed [no_region] else remove_scan pre rest base end
      else if rbase r < base \<and> end < rend then Split pre r rest
      else if rbase r < end \<and> end < rend
      then Removed (pre @ r\<lparr>rsize := rsize r - (end - rbase r), rbase := end\<rparr> # rest)
      else remove_scan (pre @ [if base < rend then r\<lparr>rsize := rsize r - (rend - base)\<rparr> else r]) rest base end)"
    by (simp add: rend_def sz Let_def)
  show ?thesis
    unfolding t using w(2,3) rend b trim_bottom [OF r, of "end"] trim_top [OF r _ _ rend_def, of base]
    by (auto simp: word_le_nat_alt word_less_nat_alt)
qed

lemma remove_scan_no_split:
  "\<forall>r \<in> set rest. unat base \<le> rlo r \<Longrightarrow> remove_scan pre rest base end \<noteq> Split p q s"
  by (induction pre rest base "end" rule: remove_scan.induct)
     (auto simp: Let_def rlo_def word_le_nat_alt word_less_nat_alt)

fun remove_result :: "memblock_region list \<Rightarrow> u32 \<Rightarrow> u32 \<Rightarrow> remove_exit \<Rightarrow> bool" where
  "remove_result ys base end (Removed xs) \<longleftrightarrow>
     table_ok xs \<and> cover xs = cover ys - {unat base..<unat end} \<and> length xs \<le> length ys"
| "remove_result ys base end (Split pre r rest) \<longleftrightarrow>
     ys = pre @ r # rest \<and> rlo r < unat base \<and> unat end < rhi r"

lemma remove_resultI:
  assumes "remove_result ys base end x" "\<forall>p q s. x \<noteq> Split p q s"
    "cover zs - {unat base..<unat end} = cover ys - {unat base..<unat end}" "length ys \<le> length zs"
  shows "remove_result zs base end x"
  using assms by (cases x) auto

lemma remove_scan_result:
  assumes "separated (pre @ rest)" "pre @ rest \<noteq> []" "unat base < unat end"
    "\<forall>r \<in> set pre. rhi r \<le> unat base" "no_start_at end rest"
  shows "remove_result (pre @ rest) base end (remove_scan pre rest base end)"
  using assms
proof (induction rest arbitrary: pre)
  case Nil
  have "cover pre - {unat base..<unat end} = cover pre" using Nil(4) by (force simp: cover_def)
  then show ?case using Nil by (simp add: table_ok_def)
next
  case (Cons r rest)
  have r: "region_ok r" and up: "\<forall>b \<in> set rest. rhi r < rlo b"
    and low: "\<forall>a \<in> set pre. rhi a < rlo r" and sep: "separated (pre @ rest)"
    using Cons.prems(1) by (auto simp: separated_append separated_Cons)
  have ne: "rbase r \<noteq> end" and ns: "no_start_at end rest" using Cons.prems(5) by (auto simp: no_start_at_def)
  have ne': "rlo r \<noteq> unat end" using ne by (simp add: rlo_def word_unat_eq_iff)
  have pre: "cover pre - {unat base..<unat end} = cover pre" using Cons.prems(4) by (force simp: cover_def)
  note t = remove_turn [OF r Cons.prems(3) ne, of pre rest] and w = region_ok_words [OF r]
  have rest: "cover rest - {unat base..<unat end} = cover rest" if "unat end \<le> rhi r"
    using up that by (force simp: cover_def)
  from w(2) Cons.prems(3) ne' show ?case
  proof (cases rule: remove_position)
    case above
    then have "cover (pre @ r # rest) - {unat base..<unat end} = cover (pre @ r # rest)"
      using pre rest w(2) by auto
    then show ?thesis using t above Cons.prems by (simp add: table_ok_def)
  next
    case whole
    then have eq: "remove_scan pre (r # rest) base end =
       (if pre = [] \<and> rest = [] then Removed [no_region] else remove_scan pre rest base end)"
      using t by blast
    have c: "cover (pre @ r # rest) - {unat base..<unat end} = cover (pre @ rest) - {unat base..<unat end}"
      using whole by auto
    show ?thesis
    proof (cases "pre = [] \<and> rest = []")
      case True
      then show ?thesis using eq c by (simp add: table_ok_def)
    next
      case False
      have "\<forall>b \<in> set rest. unat base \<le> rlo b" using up whole w(2) by fastforce
      then show ?thesis
        using Cons.IH [OF sep _ Cons.prems(3,4) ns] False eq remove_scan_no_split [of rest base pre "end"] c
        by (auto intro!: remove_resultI [of "pre @ rest"])
    qed
  next
    case middle
    then show ?thesis using t by simp
  next
    case bottom
    then obtain q where q: "remove_scan pre (r # rest) base end = Removed (pre @ q # rest)" "region_ok q"
      "rlo q = unat end" "rhi q = rhi r" using t by blast
    have "{rlo r..<rhi r} - {unat base..<unat end} = {rlo q..<rhi q}" using bottom q by auto
    then have "cover (pre @ r # rest) - {unat base..<unat end} = cover (pre @ q # rest)"
      using pre rest bottom by (simp add: Un_Diff)
    moreover have "separated (pre @ q # rest)"
      using Cons.prems(1) q bottom by (intro separated_shrink [of pre r rest q]) simp_all
    ultimately show ?thesis using q(1) by (simp add: table_ok_def)
  next
    case top
    then obtain q where q: "remove_scan pre (r # rest) base end = remove_scan (pre @ [q]) rest base end"
      "region_ok q" "rlo q = rlo r" "rhi q = unat base" using t by blast
    have sp: "separated ((pre @ [q]) @ rest)"
      using separated_shrink [of pre r rest q] Cons.prems(1) q top by simp
    have "\<forall>b \<in> set rest. unat base \<le> rlo b" using up top by fastforce
    then have ns': "\<forall>p v u. remove_scan (pre @ [q]) rest base end \<noteq> Split p v u"
      using remove_scan_no_split by blast
    have c: "cover (pre @ r # rest) - {unat base..<unat end} =
        cover ((pre @ [q]) @ rest) - {unat base..<unat end}" using top q by auto
    have "remove_result ((pre @ [q]) @ rest) base end (remove_scan (pre @ [q]) rest base end)"
      using Cons.IH [OF sp _ Cons.prems(3) _ ns] Cons.prems(4) q(4) by auto
    then have "remove_result (pre @ r # rest) base end (remove_scan (pre @ [q]) rest base end)"
      by (rule remove_resultI [OF _ ns' c]) simp
    then show ?thesis by (simp only: q(1))
  next
    case below
    then have "remove_scan pre (r # rest) base end = remove_scan (pre @ [r]) rest base end" using t by blast
    moreover have "remove_result ((pre @ [r]) @ rest) base end (remove_scan (pre @ [r]) rest base end)"
      by (rule Cons.IH) (use Cons.prems below ns in auto)
    ultimately show ?thesis by simp
  qed
qed

lemma remove_region_cover:
  assumes t: "table_ok (regs w m)" and sp: "in_space base sz" and ns: "no_start_at (base + sz) (regs w m)"
    and room: "Suc (length (regs w m)) < mt_max (mt_of w m)"
  shows "\<exists>m'. remove_with (add_region_with dbl) w base sz m = Some (True, m') \<and>
    m' = set_regions w (regs w m') m \<and> table_ok (regs w m') \<and>
    cover (regs w m') = cover (regs w m) - {unat base..<unat base + unat sz}"
proof (cases "regs w m = [no_region]")
  case True
  then have "remove_with (add_region_with dbl) w base sz m = Some (True, set_regions w [no_region] m)"
    by (simp add: remove_with_def regs_def Let_def)
  then show ?thesis using True by (simp add: table_ok_def)
next
  case False
  define e where "e = base + sz"
  have sep: "separated ([] @ regs w m)" "[] @ regs w m \<noteq> []" using t False by (auto simp: table_ok_def)
  have ue: "unat e = unat base + unat sz" "unat base < unat e"
    using in_space_end [OF sp] in_space_block [OF sp] by (auto simp: e_def block_def)
  have rr: "remove_result (regs w m) base e (remove_scan [] (regs w m) base e)"
    using remove_scan_result [OF sep ue(2)] ns by (simp add: e_def)
  show ?thesis
  proof (cases "remove_scan [] (regs w m) base e")
    case (Removed xs)
    then show ?thesis using rr ue(1)
      by (simp add: remove_with_def e_def [symmetric] regs_def [symmetric] Let_def)
  next
    case (Split pre r rest)
    define q where "q = r\<lparr>rsize := base - rbase r\<rparr>"
    define m1 where "m1 = set_regions w (pre @ q # rest) m"
    define z where "z = rbase r + rsize r - e"
    have s: "regs w m = pre @ r # rest" "rlo r < unat base" "unat e < rhi r" using rr Split by auto
    have r: "region_ok r" using sep s by (simp add: separated_append separated_Cons)
    note w = region_ok_words [OF r]
    have ub: "unat (base - rbase r) = unat base - rlo r" using s(2) w(3) by (simp add: unat_sub_nowrap)
    then have nz: "base - rbase r \<noteq> 0" using s(2) by (auto simp: unat_eq_0)
    have lo: "rlo q = rlo r" by (simp add: q_def rlo_def)
    have hi: "rhi q = unat base" using ub s(2) w(3) by (simp add: q_def rhi_def)
    have "region_ok q"
      using hi nz unat_less_2p32 [of base] unfolding region_ok_def hi by (simp add: q_def)
    note q = this lo hi
    have uz: "unat z = rhi r - unat e" using s(3) w(1) by (simp add: z_def unat_sub_nowrap)
    have sp1: "in_space e z" using uz s(3) w(5) by (auto simp: in_space_def unat_eq_0)
    have sep1: "separated (pre @ q # rest)"
      using separated_shrink [of pre r rest q] sep(1) s q ue(2) by simp
    have add: "\<exists>m'. add_region_with dbl w e z m1 = Some (True, m') \<and> m' = set_regions w (regs w m') m1 \<and>
        table_ok (regs w m') \<and> cover (regs w m') = cover (regs w m1) \<union> {unat e..<unat e + unat z}"
      by (rule add_region_cover) (use sep1 sp1 room s(1) in \<open>auto simp: m1_def table_ok_def\<close>)
    then obtain m' where m': "add_region_with dbl w e z m1 = Some (True, m')" "m' = set_regions w (regs w m') m1"
      "table_ok (regs w m')" "cover (regs w m') = cover (pre @ q # rest) \<union> {unat e..<rhi r}"
      using uz s(3) by (auto simp: m1_def)
    have "cover (pre @ r # rest) - {unat base..<unat e} = cover (pre @ q # rest) \<union> {unat e..<rhi r}"
    proof -
      have "cover pre - {unat base..<unat e} = cover pre" "cover rest - {unat base..<unat e} = cover rest"
        using sep(1) s by (force simp: cover_def separated_append separated_Cons)+
      moreover have "{rlo r..<rhi r} - {unat base..<unat e} = {rlo q..<rhi q} \<union> {unat e..<rhi r}"
        using s q ue(2) by auto
      ultimately show ?thesis by (simp add: Un_Diff Un_ac)
    qed
    then show ?thesis using m' s(1) ue(1) Split
      by (auto simp: remove_with_def e_def [symmetric] regs_def [symmetric] Let_def q_def m1_def z_def)
  qed
qed

end
