(* ===== verification/Memblock_Find.thy ===== *)
theory Memblock_Find
  imports Memblock_Cover
begin

text \<open>
  Looking up an address in a table by bisection, and finding free space: the search of the boot
  memory allocator returns the highest aligned address whose block lies in memory and is not
  reserved.
\<close>

section \<open>Bisection\<close>

definition ordered :: "memblock_region list \<Rightarrow> bool" where
  "ordered xs \<longleftrightarrow> sorted_wrt (\<lambda>a b. rhi a < rlo b) xs \<and> (\<forall>r \<in> set xs. rhi r < 2 ^ 32)"

lemma table_ok_ordered: "table_ok xs \<Longrightarrow> ordered xs"
  by (auto simp: table_ok_def ordered_def separated_def region_ok_def)

lemma ordered_nth: "ordered xs \<Longrightarrow> i < j \<Longrightarrow> j < length xs \<Longrightarrow> rhi (xs ! i) < rlo (xs ! j)"
  by (simp add: ordered_def sorted_wrt_iff_nth_less)

lemma rlo_le_rhi: "rlo r \<le> rhi r"
  by (simp add: rlo_def rhi_def)

lemma region_compare:
  assumes "rhi r < 2 ^ 32"
  shows "addr < rbase r \<longleftrightarrow> unat addr < rlo r" "rbase r + rsize r \<le> addr \<longleftrightarrow> rhi r \<le> unat addr"
  using assms by (simp_all add: word_less_nat_alt word_le_nat_alt rlo_def rhi_def unat_add_nowrap)

lemma search_loop_correct:
  assumes "ordered xs" "right \<le> length xs"
  shows "(\<forall>i. search_loop xs addr left right = Some i \<longrightarrow>
            i < right \<and> rlo (xs ! i) \<le> unat addr \<and> unat addr < rhi (xs ! i)) \<and>
         (search_loop xs addr left right = None \<longrightarrow>
            (\<forall>i. left \<le> i \<and> i < right \<longrightarrow> \<not> (rlo (xs ! i) \<le> unat addr \<and> unat addr < rhi (xs ! i))))"
  using assms
proof (induction xs addr left right rule: search_loop.induct)
  case (1 xs addr left right)
  show ?case
  proof (cases "left < right")
    case False
    then show ?thesis by (simp add: search_loop.simps [of xs addr left right])
  next
    case lr: True
    define mid where "mid = (right + left) div 2"
    have mid: "left \<le> mid" "mid < right" using lr by (auto simp: mid_def)
    have ml: "mid < length xs" using mid(2) 1(4) by simp
    then have c: "addr < rbase (xs ! mid) \<longleftrightarrow> unat addr < rlo (xs ! mid)"
      "rbase (xs ! mid) + rsize (xs ! mid) \<le> addr \<longleftrightarrow> rhi (xs ! mid) \<le> unat addr"
      using region_compare 1(3) by (auto simp: ordered_def)
    note eq = search_loop.simps [of xs addr left right, unfolded Let_def, folded mid_def]
    have lo: "rhi (xs ! i) < rlo (xs ! mid)" if "i < mid" for i using ordered_nth [OF 1(3) that ml] .
    have hi: "rhi (xs ! mid) < rlo (xs ! i)" if "mid < i" "i < right" for i
      using ordered_nth [OF 1(3) that(1)] that(2) 1(4) by simp
    consider (less) "unat addr < rlo (xs ! mid)" | (more) "rhi (xs ! mid) \<le> unat addr" "\<not> unat addr < rlo (xs ! mid)"
      | (hit) "\<not> unat addr < rlo (xs ! mid)" "\<not> rhi (xs ! mid) \<le> unat addr" by blast
    then show ?thesis
    proof cases
      case less
      have "rlo (xs ! mid) \<le> rlo (xs ! i)" if "mid \<le> i" "i < right" for i
        using hi [of i] that rlo_le_rhi [of "xs ! mid"] by (cases "i = mid") auto
      then have up: "unat addr < rlo (xs ! i)" if "mid \<le> i" "i < right" for i
        using less that by (meson less_le_trans)
      show ?thesis using 1(1) [OF lr mid_def _ 1(3)] less lr c mid 1(4) up
        by (simp add: eq) (metis less_trans not_le)
    next
      case more
      have dn: "rhi (xs ! i) \<le> unat addr" if "i \<le> mid" for i
        using lo [of i] that more rlo_le_rhi [of "xs ! mid"] by (cases "i = mid") auto
      show ?thesis using 1(2) [OF lr mid_def _ _ 1(3,4)] more lr c dn
        by (simp add: eq) (metis Suc_leI not_le)
    next
      case hit
      then show ?thesis using lr c mid by (simp add: eq)
    qed
  qed
qed

lemma memblock_search_correct:
  assumes "table_ok (mt_regions t)"
  shows "memblock_search t addr \<noteq> None \<longleftrightarrow> unat addr \<in> cover (mt_regions t)"
    and "memblock_search t addr = Some i \<Longrightarrow> i < length (mt_regions t) \<and>
         rlo (mt_regions t ! i) \<le> unat addr \<and> unat addr < rhi (mt_regions t ! i)"
proof -
  note s = search_loop_correct [OF table_ok_ordered [OF assms] order_refl, of addr 0]
  show hit: "i < length (mt_regions t) \<and> rlo (mt_regions t ! i) \<le> unat addr \<and> unat addr < rhi (mt_regions t ! i)"
    if "memblock_search t addr = Some i" for i
    using s that by (simp add: memblock_search_def)
  show "memblock_search t addr \<noteq> None \<longleftrightarrow> unat addr \<in> cover (mt_regions t)"
  proof
    assume "memblock_search t addr \<noteq> None"
    then obtain j where "memblock_search t addr = Some j" by auto
    from hit [OF this] show "unat addr \<in> cover (mt_regions t)" by (auto simp: cover_def)
  next
    assume "unat addr \<in> cover (mt_regions t)"
    then show "memblock_search t addr \<noteq> None" using s
      by (auto simp: memblock_search_def cover_def in_set_conv_nth)
  qed
qed

section \<open>Free space\<close>

definition free_at :: "memblock_region list \<Rightarrow> nat \<Rightarrow> nat \<Rightarrow> bool" where
  "free_at res sz y \<longleftrightarrow> cover res \<inter> {y..<y + sz} = {}"

text \<open>The highest member of a set, or zero.\<close>

definition highest :: "nat set \<Rightarrow> nat" where
  "highest C = (if C = {} then 0 else Max C)"

lemma highest_eq: "finite C \<Longrightarrow> x \<in> C \<Longrightarrow> (\<And>y. y \<in> C \<Longrightarrow> y \<le> x) \<Longrightarrow> highest C = x"
  by (auto simp: highest_def intro: Max_eqI)

lemma split_at_mask: "(x AND mask k) + (x AND NOT (mask k)) = (x :: u32)"
proof -
  have "(x AND mask k) + (x AND NOT (mask k)) = (x AND mask k) OR (x AND NOT (mask k))"
    by (rule disjunctive_add) (simp add: bit_simps)
  also have "\<dots> = x" by (rule bit_word_eqI) (auto simp: bit_simps)
  finally show ?thesis .
qed

lemma align_down_nat:
  "unat (memblock_align_down addr (2 ^ k)) = unat addr - unat addr mod 2 ^ k"
proof -
  define d where "d = memblock_align_down addr (2 ^ k)"
  have "d = addr AND NOT (mask k)" by (simp add: d_def memblock_align_down_def mask_eq_exp_minus_1)
  then have eq: "d = addr - (addr AND mask k)" using split_at_mask [of addr k] by (simp add: algebra_simps)
  have "unat (addr AND mask k) \<le> unat addr" by (simp add: unat_and_mask)
  then have "unat d = unat addr - unat (addr AND mask k)" unfolding eq by (rule unat_sub_nowrap)
  then show ?thesis by (simp add: d_def unat_and_mask)
qed

lemma aligned_le:
  fixes y n :: nat
  assumes "2 ^ k dvd y"
  shows "y \<le> n - n mod 2 ^ k \<longleftrightarrow> y \<le> n"
proof
  assume "y \<le> n"
  obtain q where "y = 2 ^ k * q" using assms by blast
  with \<open>y \<le> n\<close> have "q \<le> n div 2 ^ k"
    by (metis div_le_mono nonzero_mult_div_cancel_left power_not_zero zero_neq_numeral)
  then have "y \<le> 2 ^ k * (n div 2 ^ k)" using \<open>y = 2 ^ k * q\<close> by simp
  then show "y \<le> n - n mod 2 ^ k" by (simp add: minus_mod_eq_mult_div)
qed simp

lemma aligned_down: "2 ^ k dvd (n - n mod 2 ^ k :: nat)"
  by (simp add: minus_mod_eq_mult_div)

lemma overlap_nat:
  assumes "rhi r < 2 ^ 32" "unat base + unat sz < 2 ^ 32"
  shows "memblock_addrs_overlap base sz (rbase r) (rsize r) \<longleftrightarrow>
         unat base < rhi r \<and> rlo r < unat base + unat sz"
  using assms by (simp add: memblock_addrs_overlap_def word_less_nat_alt rlo_def rhi_def unat_add_nowrap)

lemma overlaps_from_Some:
  "overlaps_from i xs base sz = Some j \<Longrightarrow>
   i \<le> j \<and> j < i + length xs \<and> memblock_addrs_overlap base sz (rbase (xs ! (j - i))) (rsize (xs ! (j - i)))"
proof (induction xs arbitrary: i)
  case (Cons r xs)
  show ?case
  proof (cases "memblock_addrs_overlap base sz (rbase r) (rsize r)")
    case False
    then have "overlaps_from (Suc i) xs base sz = Some j" using Cons.prems by simp
    from Cons.IH [OF this] show ?thesis by (auto simp: nth_Cons' diff_Suc split: nat.splits)
  qed (use Cons.prems in auto)
qed simp

lemma overlaps_from_None:
  "overlaps_from i xs base sz = None \<longleftrightarrow>
   (\<forall>r \<in> set xs. \<not> memblock_addrs_overlap base sz (rbase r) (rsize r))"
  by (induction xs arbitrary: i) auto

lemma overlaps_region:
  assumes t: "table_ok (mt_regions res)" and b: "unat base + unat sz < 2 ^ 32" "sz \<noteq> 0"
  shows "memblock_overlaps_region res base sz = None \<Longrightarrow> free_at (mt_regions res) (unat sz) (unat base)"
    and "memblock_overlaps_region res base sz = Some j \<Longrightarrow> mt_regions res ! j \<in> set (mt_regions res) \<and>
         unat base < rhi (mt_regions res ! j) \<and> rlo (mt_regions res ! j) < unat base + unat sz"
proof -
  have hi: "\<forall>r \<in> set (mt_regions res). rhi r < 2 ^ 32" using table_ok_ordered [OF t] by (simp add: ordered_def)
  show "memblock_overlaps_region res base sz = None \<Longrightarrow> free_at (mt_regions res) (unat sz) (unat base)"
    using hi b(1)
    by (fastforce simp: memblock_overlaps_region_def overlaps_from_None overlap_nat free_at_def cover_def)
  assume "memblock_overlaps_region res base sz = Some j"
  then have "j < length (mt_regions res)"
    "memblock_addrs_overlap base sz (rbase (mt_regions res ! j)) (rsize (mt_regions res ! j))"
    using overlaps_from_Some [of 0] by (auto simp: memblock_overlaps_region_def)
  then show "mt_regions res ! j \<in> set (mt_regions res) \<and>
         unat base < rhi (mt_regions res ! j) \<and> rlo (mt_regions res ! j) < unat base + unat sz"
    using hi b(1) by (simp add: overlap_nat)
qed

text \<open>The addresses the loop of \<open>memblock_find_region\<close> may return.\<close>

definition candidates :: "memblock_region list \<Rightarrow> nat \<Rightarrow> nat \<Rightarrow> nat \<Rightarrow> nat \<Rightarrow> nat set" where
  "candidates res k sz lo hi = {y. lo \<le> y \<and> y \<le> hi \<and> 2 ^ k dvd y \<and> free_at res sz y}"

lemma finite_candidates [simp]: "finite (candidates res k sz lo hi)"
  by (rule finite_subset [of _ "{..hi}"]) (auto simp: candidates_def)

lemma free_below:
  assumes "free_at res sz y" "r \<in> set res" "y \<le> b" "b < rhi r" "0 < sz" "rlo r < rhi r"
  shows "y + sz \<le> rlo r"
proof (rule ccontr)
  assume "\<not> y + sz \<le> rlo r"
  then have "max y (rlo r) \<in> {rlo r..<rhi r}" "max y (rlo r) \<in> {y..<y + sz}" using assms(3-6) by auto
  moreover from this have "max y (rlo r) \<in> cover res" using assms(2) unfolding cover_def by blast
  ultimately show False using assms(1) unfolding free_at_def by blast
qed

lemma find_loop_highest:
  assumes t: "table_ok (mt_regions res)" and sz: "sz \<noteq> 0" and st: "start \<noteq> 0"
    and b: "unat base + unat sz < 2 ^ 32" "2 ^ k dvd unat base"
  shows "\<exists>x. find_loop res start base sz (2 ^ k) = Some x \<and>
    unat x = highest (candidates (mt_regions res) k (unat sz) (unat start) (unat base))"
  using b
proof (induction "unat base" arbitrary: base rule: less_induct)
  case less
  let ?C = "candidates (mt_regions res) k (unat sz) (unat start)"
  note eq = find_loop.simps [of res start base sz "2 ^ k"]
  have zero: "?C h = {} \<Longrightarrow> highest (?C h) = unat MEMBLOCK_ERROR" for h
    by (simp add: highest_def MEMBLOCK_ERROR_def)
  show ?case
  proof (cases "start \<le> base")
    case False
    then have "?C (unat base) = {}" by (auto simp: candidates_def word_le_nat_alt)
    then show ?thesis using eq False zero by simp
  next
    case sb: True
    show ?thesis
    proof (cases "memblock_overlaps_region res base sz")
      case None
      then have "unat base \<in> ?C (unat base)"
        using overlaps_region(1) [OF t less.prems(1) sz] sb less.prems(2)
        by (simp add: candidates_def word_le_nat_alt)
      then have "highest (?C (unat base)) = unat base"
        by (intro highest_eq) (auto simp: candidates_def)
      then show ?thesis using eq sb None by simp
    next
      case (Some j)
      define r where "r = mt_regions res ! j"
      have r: "r \<in> set (mt_regions res)" "unat base < rhi r" "rlo r < unat base + unat sz"
        using overlaps_region(2) [OF t less.prems(1) sz Some] by (auto simp: r_def)
      have rr: "rlo r < rhi r"
        using t r(1,2) region_ok_words(2) by (auto simp: table_ok_def separated_def)
      have below: "y + unat sz \<le> rlo r" if "y \<in> ?C (unat base)" for y
        using free_below [of _ _ y r "unat base"] that r rr sz by (auto simp: candidates_def unat_gt_0)
      show ?thesis
      proof (cases "rbase r < sz")
        case True
        then have "?C (unat base) = {}" using below by (fastforce simp: rlo_def word_less_nat_alt)
        then show ?thesis using eq sb Some True zero by (simp add: r_def Let_def)
      next
        case False
        define base' where "base' = memblock_align_down (rbase r - sz) (2 ^ k)"
        have d: "unat (rbase r - sz) = rlo r - unat sz"
          using False by (simp add: rlo_def unat_sub_nowrap word_less_nat_alt)
        have szr: "unat sz \<le> rlo r" using False by (simp add: rlo_def word_less_nat_alt)
        have b': "unat base' = (rlo r - unat sz) - (rlo r - unat sz) mod 2 ^ k"
          by (simp add: base'_def align_down_nat d)
        then have lt: "unat base' < unat base" using r(3) szr by linarith
        have C: "?C (unat base) = ?C (unat base')"
        proof -
          have "y \<le> unat base' \<longleftrightarrow> y + unat sz \<le> rlo r" if "2 ^ k dvd y" for y
            using aligned_le [OF that, of "rlo r - unat sz"] szr b' by auto
          then have "y \<in> ?C (unat base) \<Longrightarrow> y \<le> unat base'" for y
            using below by (simp add: candidates_def)
          then show ?thesis using lt unfolding candidates_def by fastforce
        qed
        have "find_loop res start base sz (2 ^ k) = find_loop res start base' sz (2 ^ k)"
          using eq sb Some False by (simp add: r_def base'_def Let_def)
        moreover have "2 ^ k dvd unat base'" unfolding b' by (rule aligned_down)
        moreover have "unat base' + unat sz < 2 ^ 32" using lt less.prems(1) by linarith
        ultimately show ?thesis using less.hyps [OF lt] unfolding C by simp
      qed
    qed
  qed
qed

text \<open>A search from address 0 starts at the first page instead.\<close>

definition floor_addr :: "nat \<Rightarrow> nat" where
  "floor_addr lo = (if lo = 0 then 4096 else lo)"

text \<open>The addresses where a block of \<open>sz\<close> bytes may be placed between two bounds.\<close>

definition fits :: "memblock_region list \<Rightarrow> nat \<Rightarrow> nat \<Rightarrow> nat \<Rightarrow> nat \<Rightarrow> nat set" where
  "fits res k sz lo hi = {y. lo \<le> y \<and> y + sz \<le> hi \<and> 2 ^ k dvd y \<and> free_at res sz y}"

lemma finite_fits [simp]: "finite (fits res k sz lo hi)"
  by (rule finite_subset [of _ "{..hi}"]) (auto simp: fits_def)

lemma find_region_highest:
  assumes t: "table_ok (mt_regions res)" and sz: "sz \<noteq> 0"
  shows "\<exists>x. memblock_find_region res start end sz (2 ^ k) = Some x \<and>
    unat x = highest (fits (mt_regions res) k (unat sz) (floor_addr (unat start)) (unat end))"
proof (cases "end < sz")
  case True
  then have "fits (mt_regions res) k (unat sz) (floor_addr (unat start)) (unat end) = {}"
    by (auto simp: fits_def word_less_nat_alt)
  then show ?thesis using True by (simp add: memblock_find_region_def MEMBLOCK_ERROR_def highest_def)
next
  case False
  define start' where "start' = (if start = 0 then PAGE_SIZE else start)"
  define base where "base = memblock_align_down (end - sz) (2 ^ k)"
  have ne: "start' \<noteq> 0" and s: "unat start' = floor_addr (unat start)"
    by (auto simp: start'_def floor_addr_def PAGE_SIZE_def unat_eq_0)
  have le: "unat sz \<le> unat end" using False by (simp add: word_less_nat_alt)
  have d: "unat (end - sz) = unat end - unat sz" using le by (rule unat_sub_nowrap)
  have b: "unat base = (unat end - unat sz) - (unat end - unat sz) mod 2 ^ k"
    unfolding base_def align_down_nat d ..
  have lim: "unat base + unat sz < 2 ^ 32" using b le unat_less_2p32 [of "end"] by simp
  have dv: "2 ^ k dvd unat base" unfolding b by (rule aligned_down)
  have "y \<le> unat base \<longleftrightarrow> y + unat sz \<le> unat end" if "2 ^ k dvd y" for y
    unfolding b using aligned_le [OF that, of "unat end - unat sz"] le by linarith
  then have C: "candidates (mt_regions res) k (unat sz) (unat start') (unat base) =
      fits (mt_regions res) k (unat sz) (floor_addr (unat start)) (unat end)"
    unfolding candidates_def fits_def s by blast
  have "memblock_find_region res start end sz (2 ^ k) = find_loop res start' base sz (2 ^ k)"
    using False by (simp add: memblock_find_region_def start'_def base_def Let_def)
  then show ?thesis using find_loop_highest [OF t sz ne lim dv] unfolding C by simp
qed

text \<open>The addresses in memory: in one of its regions, above \<open>lo\<close> and below \<open>hi\<close>.\<close>

definition placements ::
  "memblock_region list \<Rightarrow> memblock_region list \<Rightarrow> nat \<Rightarrow> nat \<Rightarrow> nat \<Rightarrow> nat \<Rightarrow> nat set" where
  "placements mem res k sz lo hi =
     (\<Union>r \<in> set mem. fits res k sz (floor_addr (max (rlo r) lo)) (min (rhi r) hi))"

lemma finite_placements [simp]: "finite (placements mem res k sz lo hi)"
  by (simp add: placements_def)

lemma highest_Un_empty: "A = {} \<Longrightarrow> highest (A \<union> B) = highest B"
  by simp

lemma highest_Un_above:
  assumes "finite A" "finite B" "A \<noteq> {}" "\<And>a b. a \<in> A \<Longrightarrow> b \<in> B \<Longrightarrow> b \<le> a"
  shows "highest (A \<union> B) = highest A"
proof -
  have "Max A \<in> A" using assms(1,3) by (rule Max_in)
  then have "b \<le> Max A" if "b \<in> B" for b using assms(4) that by blast
  then have "Max (A \<union> B) = Max A" using assms(1,2) \<open>Max A \<in> A\<close> by (intro Max_eqI) auto
  then show ?thesis using assms(3) by (simp add: highest_def)
qed

lemma floor_addr_le: "x \<le> floor_addr x" "0 < floor_addr x" "x \<noteq> 0 \<Longrightarrow> floor_addr x = x"
  by (simp_all add: floor_addr_def)

lemma fits_empty: "hi < floor_addr lo + sz \<Longrightarrow> fits res k sz (floor_addr lo) hi = {}"
  by (auto simp: fits_def)

lemma find_in_regions_highest:
  assumes t: "table_ok (mt_regions res)" and sz: "sz \<noteq> 0" and o: "ordered (rev mem)"
  shows "\<exists>x. find_in_regions res mem sz (2 ^ k) start end = Some x \<and>
    unat x = highest (placements mem (mt_regions res) k (unat sz) (unat start) (unat end))"
  using o
proof (induction mem)
  case Nil
  then show ?case by (simp add: placements_def highest_def MEMBLOCK_ERROR_def)
next
  case (Cons r mem)
  define F where "F = fits (mt_regions res) k (unat sz) (floor_addr (max (rlo r) (unat start))) (min (rhi r) (unat end))"
  define Q where "Q = placements mem (mt_regions res) k (unat sz) (unat start) (unat end)"
  have P: "placements (r # mem) (mt_regions res) k (unat sz) (unat start) (unat end) = F \<union> Q"
    by (simp add: placements_def F_def Q_def)
  have r: "rhi r < 2 ^ 32" and low: "\<forall>q \<in> set mem. rhi q < rlo r" and o': "ordered (rev mem)"
    using Cons.prems by (auto simp: ordered_def sorted_wrt_append)
  obtain x where x: "find_in_regions res mem sz (2 ^ k) start end = Some x" "unat x = highest Q"
    using Cons.IH [OF o'] by (auto simp: Q_def)
  have sz0: "0 < unat sz" using sz by (simp add: unat_gt_0)
  have fin: "finite F" "finite Q" by (simp_all add: F_def Q_def)
  have below: "b \<le> a" if aF: "a \<in> F" and bQ: "b \<in> Q" for a b
  proof -
    have "rlo r \<le> a" using aF floor_addr_le(1) [of "max (rlo r) (unat start)"] by (auto simp: F_def fits_def)
    moreover obtain q where "q \<in> set mem" "b \<le> rhi q" using bQ by (auto simp: Q_def placements_def fits_def)
    ultimately show ?thesis using low by fastforce
  qed
  have rend: "unat (rbase r + rsize r) = rhi r" using r by (simp add: rhi_def unat_add_nowrap)
  have rsz: "unat (rsize r) = rhi r - rlo r" by (simp add: rhi_def rlo_def)
  show ?case
  proof (cases "rsize r < sz")
    case True
    then have "F = {}" using rsz floor_addr_le(1) [of "max (rlo r) (unat start)"]
      by (auto simp: F_def fits_def word_less_nat_alt)
    then show ?thesis using True x P by simp
  next
    case big: False
    show ?thesis
    proof (cases "rbase r + rsize r \<le> start")
      case True
      then have "rhi r \<le> unat start" by (simp add: word_le_nat_alt rend)
      then have "fits (mt_regions res) k (unat sz) (floor_addr (max (rlo q) (unat start))) (min (rhi q) (unat end)) = {}"
        if "q \<in> set (r # mem)" for q
        using that low rlo_le_rhi [of r] floor_addr_le(1) [of "max (rlo q) (unat start)"] sz0
        by (intro fits_empty) fastforce
      then have "F \<union> Q = {}" by (auto simp: F_def Q_def placements_def)
      then show ?thesis using True big P by (simp add: highest_def MEMBLOCK_ERROR_def)
    next
      case False
      define bottom where "bottom = max (rbase r) start"
      define top where "top = min (rbase r + rsize r) end"
      have bt: "unat bottom = max (rlo r) (unat start)" "unat top = min (rhi r) (unat end)"
        using rend by (auto simp: bottom_def top_def max_def min_def word_le_nat_alt rlo_def)
      show ?thesis
      proof (cases "top \<le> bottom")
        case True
        then have "min (rhi r) (unat end) \<le> max (rlo r) (unat start)" by (simp only: word_le_nat_alt bt)
        then have "F = {}" using sz0 floor_addr_le(1) [of "max (rlo r) (unat start)"]
          unfolding F_def by (intro fits_empty) linarith
        then show ?thesis using True big False x P by (simp add: bottom_def top_def Let_def)
      next
        case tb: False
        obtain f where f: "memblock_find_region res bottom top sz (2 ^ k) = Some f" "unat f = highest F"
          using find_region_highest [OF t sz, of bottom top k] by (auto simp: F_def bt)
        have step: "find_in_regions res (r # mem) sz (2 ^ k) start end =
            (if f \<noteq> MEMBLOCK_ERROR then Some f else find_in_regions res mem sz (2 ^ k) start end)"
          using big False tb f(1) by (simp add: bottom_def top_def Let_def)
        have F0: "F = {} \<longleftrightarrow> f = MEMBLOCK_ERROR"
        proof -
          have "0 < y" if "y \<in> F" for y
            using that floor_addr_le(2) [of "max (rlo r) (unat start)"] by (auto simp: F_def fits_def)
          moreover have "F \<noteq> {} \<Longrightarrow> highest F \<in> F" by (simp add: highest_def F_def)
          ultimately have "F = {} \<longleftrightarrow> highest F = 0" by (auto simp: highest_def)
          then show ?thesis using f(2) by (simp add: MEMBLOCK_ERROR_def flip: unat_eq_0)
        qed
        show ?thesis
        proof (cases "F = {}")
          case True
          then show ?thesis using step F0 x P by simp
        next
          case False
          then have "highest (F \<union> Q) = highest F"
            using highest_Un_above [of F Q] below fin by blast
          then show ?thesis using step F0 False f P by simp
        qed
      qed
    qed
  qed
qed

lemma find_base_highest:
  assumes "table_ok (mt_regions (reserved m))" "table_ok (mt_regions (memory m))" "sz \<noteq> 0"
    "lim = (if end = MEMBLOCK_ALLOC_ACCESSIBLE then current_limit m else end)"
  shows "\<exists>x. memblock_find_base m sz (2 ^ k) start end = Some x \<and>
    unat x = highest (placements (mt_regions (memory m)) (mt_regions (reserved m)) k (unat sz) (unat start) (unat lim))"
proof -
  have "ordered (rev (rev (mt_regions (memory m))))" using table_ok_ordered [OF assms(2)] by simp
  from find_in_regions_highest [OF assms(1,3) this, of k start lim]
  show ?thesis using assms(3,4) by (simp add: memblock_find_base_def placements_def Let_def)
qed

end
