(* ===== verification/Memblock_Props.thy ===== *)
theory Memblock_Props
  imports Memblock_Find
begin

text \<open>
  Correctness of the boot memory allocator: its operations on the sets of memory and reserved
  addresses, allocation, the memory limit, and the two cases its loops get wrong.
\<close>

section \<open>Truncating the reserved table\<close>

definition cut_at :: "u32 \<Rightarrow> memblock_region \<Rightarrow> memblock_region" where
  "cut_at limit p = (if limit < rbase p then p\<lparr>rsize := 0\<rparr>
     else if limit < rbase p + rsize p then p\<lparr>rsize := limit - rbase p\<rparr> else p)"

lemma limit_reserved_unfold:
  "limit_reserved limit i xs =
     (if i < length xs
      then if rsize (cut_at limit (xs ! i)) = 0
           then limit_reserved limit i (memblock_remove_region i (xs[i := cut_at limit (xs ! i)]))
           else limit_reserved limit (Suc i) (xs[i := cut_at limit (xs ! i)])
      else Some xs)"
  by (subst limit_reserved.simps) (simp add: cut_at_def Let_def)

lemma limit_reserved_step:
  "limit_reserved limit (length pre) (pre @ r # rest) =
     (if rsize (cut_at limit r) = 0
      then if pre = [] \<and> rest = [] then limit_reserved limit 0 [no_region]
           else limit_reserved limit (length pre) (pre @ rest)
      else limit_reserved limit (length (pre @ [cut_at limit r])) ((pre @ [cut_at limit r]) @ rest))"
  by (subst limit_reserved_unfold) (simp add: memblock_remove_region_def Let_def)

lemma limit_reserved_end: "limit_reserved limit (length pre) pre = Some pre"
  by (subst limit_reserved_unfold) simp

text \<open>On the empty table the loop removes its filler region and puts it back for ever.\<close>

lemma limit_reserved_stuck: "limit_reserved limit 0 [no_region] = None"
proof (rule ccontr)
  assume "limit_reserved limit 0 [no_region] \<noteq> None"
  then obtain ys where "limit_reserved limit 0 [no_region] = Some ys" by auto
  moreover have "i = 0 \<and> xs = [no_region] \<longrightarrow> False" if "limit_reserved limit i xs = Some ys" for i xs ys
    using that
  proof (rule limit_reserved.raw_induct [rotated])
    fix rec :: "u32 \<Rightarrow> nat \<Rightarrow> memblock_region list \<Rightarrow> memblock_region list option" and limit i xs ys
    assume IH: "\<And>limit i xs ys. rec limit i xs = Some ys \<Longrightarrow> i = 0 \<and> xs = [no_region] \<longrightarrow> False"
      and eq: "(if i < length xs
        then let p = xs ! i;
                 p = (if limit < rbase p then p\<lparr>rsize := 0\<rparr>
                      else if limit < rbase p + rsize p then p\<lparr>rsize := limit - rbase p\<rparr> else p)
             in if rsize p = 0 then rec limit i (memblock_remove_region i (xs[i := p]))
                else rec limit (Suc i) (xs[i := p])
        else Some xs) = Some ys"
    show "i = 0 \<and> xs = [no_region] \<longrightarrow> False"
    proof
      assume "i = 0 \<and> xs = [no_region]"
      then have "rec limit 0 [no_region] = Some ys"
        using eq by (auto simp: no_region_def memblock_remove_region_def Let_def split: if_splits)
      then show False using IH by blast
    qed
  qed
  ultimately show False by blast
qed

lemma cut_region:
  assumes "region_ok r"
  shows "rsize (cut_at limit r) = 0 \<longleftrightarrow> unat limit \<le> rlo r"
    and "rlo r < unat limit \<Longrightarrow> region_ok (cut_at limit r) \<and> rlo (cut_at limit r) = rlo r \<and>
         rhi (cut_at limit r) = min (rhi r) (unat limit)"
proof -
  note w = region_ok_words [OF assms]
  have d: "unat (limit - rbase r) = unat limit - rlo r" if "rlo r \<le> unat limit"
    using that w(3) by (simp add: unat_sub_nowrap)
  have nz: "rsize r \<noteq> 0" using assms by (simp add: region_ok_def)
  have c: "limit < rbase r \<longleftrightarrow> unat limit < rlo r" "limit < rbase r + rsize r \<longleftrightarrow> unat limit < rhi r"
    using w by (simp_all add: word_less_nat_alt)
  have "limit - rbase r = 0 \<longleftrightarrow> limit = rbase r" by simp
  then have z: "limit - rbase r = 0 \<longleftrightarrow> unat limit = rlo r" by (simp only: word_unat_eq_iff w(3))
  show "rsize (cut_at limit r) = 0 \<longleftrightarrow> unat limit \<le> rlo r"
    using nz z w(2) by (auto simp: cut_at_def c)
  assume lt: "rlo r < unat limit"
  show "region_ok (cut_at limit r) \<and> rlo (cut_at limit r) = rlo r \<and> rhi (cut_at limit r) = min (rhi r) (unat limit)"
  proof (cases "unat limit < rhi r")
    case True
    then have cr: "cut_at limit r = r\<lparr>rsize := limit - rbase r\<rparr>" using lt by (simp add: cut_at_def c)
    have hi: "rhi (cut_at limit r) = unat limit" using d lt w(3) by (simp add: cr rhi_def)
    have "region_ok (cut_at limit r)"
      unfolding region_ok_def hi using z lt w(5) True by (simp add: cr)
    then show ?thesis using hi True by (simp add: cr rlo_def)
  next
    case False
    then have "cut_at limit r = r" using lt by (simp add: cut_at_def c)
    then show ?thesis using False assms by simp
  qed
qed

lemma limit_reserved_drop:
  assumes "separated (pre @ rest)" "\<forall>r \<in> set rest. unat limit \<le> rlo r"
  shows "limit_reserved limit (length pre) (pre @ rest) =
    (if pre = [] \<and> rest \<noteq> [] then None else Some pre)"
  using assms
proof (induction rest)
  case (Cons r rest)
  have r: "region_ok r" and sep: "separated (pre @ rest)" using Cons.prems by (auto simp: separated_append separated_Cons)
  have "rsize (cut_at limit r) = 0" using cut_region(1) [OF r] Cons.prems(2) by simp
  then have "limit_reserved limit (length pre) (pre @ r # rest) =
      (if pre = [] \<and> rest = [] then None else limit_reserved limit (length pre) (pre @ rest))"
    by (simp only: limit_reserved_step limit_reserved_stuck simp_thms if_True)
  moreover have "limit_reserved limit (length pre) (pre @ rest) =
      (if pre = [] \<and> rest \<noteq> [] then None else Some pre)" using Cons.IH [OF sep] Cons.prems(2) by simp
  ultimately show ?case by (cases "pre = []"; cases "rest = []") auto
qed (simp add: limit_reserved_end)

lemma limit_reserved_cover:
  assumes "separated (pre @ rest)" "\<forall>r \<in> set pre. rhi r \<le> unat limit" "pre @ rest \<noteq> []"
  shows "case limit_reserved limit (length pre) (pre @ rest) of
      None \<Rightarrow> pre = [] \<and> cover rest \<inter> {..<unat limit} = {}
    | Some ys \<Rightarrow> separated ys \<and> ys \<noteq> [] \<and> cover ys = cover (pre @ rest) \<inter> {..<unat limit}"
  using assms
proof (induction rest arbitrary: pre)
  case Nil
  then have "cover pre \<inter> {..<unat limit} = cover pre" by (force simp: cover_def)
  then show ?case using Nil by (simp add: limit_reserved_end)
next
  case (Cons r rest)
  have r: "region_ok r" and up: "\<forall>q \<in> set rest. rhi r < rlo q" and sep: "separated (pre @ rest)"
    using Cons.prems by (auto simp: separated_append separated_Cons)
  have pre: "cover pre \<inter> {..<unat limit} = cover pre" using Cons.prems(2) by (force simp: cover_def)
  show ?case
  proof (cases "unat limit \<le> rlo r")
    case True
    then have hi: "\<forall>q \<in> set (r # rest). unat limit \<le> rlo q"
      using up rlo_le_rhi [of r] by (metis le_trans less_imp_le set_ConsD)
    then have "cover (r # rest) \<inter> {..<unat limit} = {}" by (fastforce simp: cover_def)
    then show ?thesis using limit_reserved_drop [OF Cons.prems(1) hi] pre Cons.prems(1)
      by (auto simp: separated_append Int_Un_distrib2 split: if_splits)
  next
    case False
    define q where "q = cut_at limit r"
    have q: "region_ok q" "rlo q = rlo r" "rhi q = min (rhi r) (unat limit)" "rsize q \<noteq> 0"
      using cut_region [OF r] False by (auto simp: q_def)
    have s: "separated ((pre @ [q]) @ rest)" using separated_shrink [OF Cons.prems(1) q(1)] q by simp
    have b: "\<forall>a \<in> set (pre @ [q]). rhi a \<le> unat limit" using Cons.prems(2) q(3) by auto
    have eq: "limit_reserved limit (length pre) (pre @ r # rest) =
        limit_reserved limit (length (pre @ [q])) ((pre @ [q]) @ rest)"
      using q(4) unfolding limit_reserved_step [of limit pre r rest] q_def by simp
    have "{rlo q..<rhi q} \<inter> {..<unat limit} = {rlo r..<rhi r} \<inter> {..<unat limit}" using q by auto
    then have "cover ((pre @ [q]) @ rest) \<inter> {..<unat limit} = cover (pre @ r # rest) \<inter> {..<unat limit}"
      by (simp add: Int_Un_distrib2)
    then show ?thesis using Cons.IH [OF s b] unfolding eq by (simp split: option.splits)
  qed
qed

section \<open>Allocation\<close>

lemma add_region_eq: "memblock_add_region env = add_region_with (double_array_with env (add_region_nest env 3))"
  by (simp add: memblock_add_region_def eval_nat_numeral)

lemma regs_simps [simp]:
  "regs Memory m = mt_regions (memory m)" "regs Reserved m = mt_regions (reserved m)"
  by (simp_all add: regs_def mt_of_def)

lemma memory_set_reserved [simp]:
  "memory (set_regions Reserved xs m) = memory m" "reserved (set_regions Memory xs m) = reserved m"
  "mt_regions (memory (set_regions Memory xs m)) = xs" "mt_regions (reserved (set_regions Reserved xs m)) = xs"
  by (simp_all add: set_regions_def set_mt_def mt_of_def)

definition tables_ok :: "memblock \<Rightarrow> bool" where
  "tables_ok m \<longleftrightarrow> table_ok (mt_regions (memory m)) \<and> table_ok (mt_regions (reserved m))"

definition memory_set :: "memblock \<Rightarrow> nat set" where "memory_set m = cover (mt_regions (memory m))"
definition reserved_set :: "memblock \<Rightarrow> nat set" where "reserved_set m = cover (mt_regions (reserved m))"

lemmas set_defs = memory_set_def reserved_set_def tables_ok_def

text \<open>The addresses where an allocation may be placed, in terms of the two sets.\<close>

definition places :: "memblock \<Rightarrow> nat \<Rightarrow> nat \<Rightarrow> nat \<Rightarrow> nat set" where
  "places m k sz lim = placements (mt_regions (memory m)) (mt_regions (reserved m)) k sz 0 lim"

lemma places_bounds:
  assumes "y \<in> places m k sz lim"
  shows "{y..<y + sz} \<subseteq> memory_set m" "{y..<y + sz} \<inter> reserved_set m = {}" "2 ^ k dvd y" "y + sz \<le> lim" "0 < y"
proof -
  obtain r where r: "r \<in> set (mt_regions (memory m))" "floor_addr (rlo r) \<le> y" "y + sz \<le> min (rhi r) lim"
    "2 ^ k dvd y" "free_at (mt_regions (reserved m)) sz y"
    using assms by (auto simp: places_def placements_def fits_def)
  have "{y..<y + sz} \<subseteq> {rlo r..<rhi r}" using r(2,3) floor_addr_le(1) [of "rlo r"] by auto
  then show "{y..<y + sz} \<subseteq> memory_set m" using r(1) by (auto simp: memory_set_def cover_def)
  show "{y..<y + sz} \<inter> reserved_set m = {}" using r(5) by (auto simp: free_at_def reserved_set_def)
  show "2 ^ k dvd y" "y + sz \<le> lim" "0 < y" using r floor_addr_le(2) [of "rlo r"] by auto
qed

lemma places_in_space:
  assumes "tables_ok m" "y \<in> places m k sz lim"
  shows "y + sz < 2 ^ 32"
proof -
  obtain r where "r \<in> set (mt_regions (memory m))" "y + sz \<le> rhi r"
    using assms(2) by (auto simp: places_def placements_def fits_def)
  then show ?thesis using table_ok_ordered assms(1) by (fastforce simp: tables_ok_def ordered_def)
qed

lemma alloc_base_highest:
  assumes t: "tables_ok m" and room: "Suc (length (mt_regions (reserved m))) < mt_max (reserved m)"
    and z: "z = memblock_align_up sz (2 ^ k)" "z \<noteq> 0"
    and lim: "lim = (if max_addr = MEMBLOCK_ALLOC_ACCESSIBLE then current_limit m else max_addr)"
  shows "\<exists>a m'. raw_memblock_alloc_base env sz (2 ^ k) max_addr m = Some (a, m') \<and>
    (if places m k (unat z) (unat lim) = {} then a = 0 \<and> m' = m
     else unat a = Max (places m k (unat z) (unat lim)) \<and> tables_ok m' \<and> memory m' = memory m \<and>
          reserved_set m' = reserved_set m \<union> {unat a..<unat a + unat z})"
proof -
  obtain a where a: "memblock_find_base m z (2 ^ k) 0 max_addr = Some a"
    "unat a = highest (places m k (unat z) (unat lim))"
    using find_base_highest [of m z lim max_addr k 0] t z(2) lim by (auto simp: tables_ok_def places_def)
  show ?thesis
  proof (cases "places m k (unat z) (unat lim) = {}")
    case True
    then have "a = 0" using a(2) by (simp add: highest_def unat_eq_0)
    then show ?thesis using a(1) z True by (simp add: raw_memblock_alloc_base_def MEMBLOCK_ERROR_def Let_def)
  next
    case False
    then have mx: "unat a = Max (places m k (unat z) (unat lim))" using a(2) by (simp add: highest_def)
    then have in_p: "unat a \<in> places m k (unat z) (unat lim)"
      using Max_in [OF _ False] by (simp add: places_def)
    have nz: "a \<noteq> MEMBLOCK_ERROR" using places_bounds(5) [OF in_p] by (auto simp: MEMBLOCK_ERROR_def)
    have sp: "in_space a z" using places_in_space [OF t in_p] z(2) by (simp add: in_space_def)
    obtain m' where m': "memblock_add_region env Reserved a z m = Some (True, m')"
      "m' = set_regions Reserved (regs Reserved m') m" "table_ok (regs Reserved m')"
      "cover (regs Reserved m') = cover (regs Reserved m) \<union> {unat a..<unat a + unat z}"
      using add_region_cover [of Reserved m a z] t sp room unfolding add_region_eq
      by (fastforce simp: tables_ok_def mt_of_def)
    have "memory m' = memory m" using m'(2) by (metis memory_set_reserved(1))
    then show ?thesis using False mx m'(1,3,4) a(1) nz z(1) t
      by (simp add: raw_memblock_alloc_base_def set_defs Let_def)
  qed
qed

section \<open>Properties\<close>

datatype mb_op = Mb_add u32 u32 | Mb_remove u32 u32 | Mb_reserve u32 u32 | Mb_free u32 u32

fun run_mb :: "boot_env \<Rightarrow> mb_op \<Rightarrow> memblock \<Rightarrow> (bool \<times> memblock) option" where
  "run_mb env (Mb_add base sz) m = memblock_add env base sz m"
| "run_mb env (Mb_remove base sz) m = memblock_remove env base sz m"
| "run_mb env (Mb_reserve base sz) m = memblock_reserve env base sz m"
| "run_mb env (Mb_free base sz) m = memblock_free env base sz m"

fun mb_sets :: "mb_op \<Rightarrow> nat set \<times> nat set \<Rightarrow> nat set \<times> nat set" where
  "mb_sets (Mb_add base sz) (M, R) = (M \<union> {unat base..<unat base + unat sz}, R)"
| "mb_sets (Mb_remove base sz) (M, R) = (M - {unat base..<unat base + unat sz}, R)"
| "mb_sets (Mb_reserve base sz) (M, R) = (M, R \<union> {unat base..<unat base + unat sz})"
| "mb_sets (Mb_free base sz) (M, R) = (M, R - {unat base..<unat base + unat sz})"

text \<open>The block is not empty and below the top of the address space, the array has room for a
  region more, and no region starts where a removed block ends.\<close>

fun mb_pre :: "mb_op \<Rightarrow> memblock \<Rightarrow> bool" where
  "mb_pre (Mb_add base sz) m \<longleftrightarrow>
     in_space base sz \<and> Suc (length (mt_regions (memory m))) < mt_max (memory m)"
| "mb_pre (Mb_remove base sz) m \<longleftrightarrow>
     in_space base sz \<and> Suc (length (mt_regions (memory m))) < mt_max (memory m) \<and>
     no_start_at (base + sz) (mt_regions (memory m))"
| "mb_pre (Mb_reserve base sz) m \<longleftrightarrow>
     in_space base sz \<and> Suc (length (mt_regions (reserved m))) < mt_max (reserved m)"
| "mb_pre (Mb_free base sz) m \<longleftrightarrow>
     in_space base sz \<and> Suc (length (mt_regions (reserved m))) < mt_max (reserved m) \<and>
     no_start_at (base + sz) (mt_regions (reserved m))"

lemma run_mb_sets:
  assumes t: "tables_ok m" and pre: "mb_pre p m"
  shows "\<exists>m'. run_mb env p m = Some (True, m') \<and> tables_ok m' \<and>
    (memory_set m', reserved_set m') = mb_sets p (memory_set m, reserved_set m)"
proof -
  define w base sz where "w = (case p of Mb_add _ _ \<Rightarrow> Memory | Mb_remove _ _ \<Rightarrow> Memory | _ \<Rightarrow> Reserved)"
    and "base = (case p of Mb_add b _ \<Rightarrow> b | Mb_remove b _ \<Rightarrow> b | Mb_reserve b _ \<Rightarrow> b | Mb_free b _ \<Rightarrow> b)"
    and "sz = (case p of Mb_add _ z \<Rightarrow> z | Mb_remove _ z \<Rightarrow> z | Mb_reserve _ z \<Rightarrow> z | Mb_free _ z \<Rightarrow> z)"
  note d = this
  have tw: "table_ok (regs w m)" "in_space base sz" "Suc (length (regs w m)) < mt_max (mt_of w m)"
    using t pre by (cases p; simp add: d tables_ok_def mt_of_def)+
  have other: "memory (set_regions Reserved xs m) = memory m" "reserved (set_regions Memory xs m) = reserved m"
    for xs by simp_all
  note add = add_region_cover [OF tw, of "double_array_with env (add_region_nest env 3)"]
  note rem = remove_region_cover [OF tw(1,2) _ tw(3), of "double_array_with env (add_region_nest env 3)"]
  show ?thesis
  proof (cases p)
    case (Mb_add b z)
    then show ?thesis using add t other
      by (auto simp: d memblock_add_def add_region_eq set_defs) (metis memory_set_reserved(2))+
  next
    case (Mb_reserve b z)
    then show ?thesis using add t other tw(2)
      by (auto simp: d memblock_reserve_def add_region_eq set_defs in_space_def)
         (metis memory_set_reserved(1))+
  next
    case (Mb_remove b z)
    then show ?thesis using rem t other pre
      by (auto simp: d memblock_remove_def raw_memblock_remove_def add_region_eq set_defs)
         (metis memory_set_reserved(2))+
  next
    case (Mb_free b z)
    then show ?thesis using rem t other pre
      by (auto simp: d memblock_free_def raw_memblock_remove_def add_region_eq set_defs)
         (metis memory_set_reserved(1))+
  qed
qed

section \<open>The memory limit\<close>

lemma card_cover_Cons:
  "separated (r # xs) \<Longrightarrow> card (cover (r # xs)) = unat (rsize r) + card (cover xs)"
proof -
  assume s: "separated (r # xs)"
  have "finite (cover xs)" by (simp add: cover_def)
  moreover have "{rlo r..<rhi r} \<inter> cover xs = {}"
    using s by (fastforce simp: separated_Cons cover_def)
  ultimately have "card (cover (r # xs)) = card {rlo r..<rhi r} + card (cover xs)"
    by (simp add: card_Un_disjoint)
  then show ?thesis by (simp add: rlo_def rhi_def)
qed

lemma limit_memory_props:
  assumes "separated xs" "limit \<noteq> 0" "xs \<noteq> []"
  shows "separated (limit_memory limit xs) \<and> limit_memory limit xs \<noteq> [] \<and>
    cover (limit_memory limit xs) \<subseteq> cover xs \<and>
    card (cover (limit_memory limit xs)) = min (unat limit) (card (cover xs))"
  using assms
proof (induction xs arbitrary: limit)
  case (Cons r xs)
  have r: "region_ok r" "\<forall>b \<in> set xs. rhi r < rlo b" "separated xs"
    using Cons.prems(1) by (auto simp: separated_Cons)
  note w = region_ok_words [OF r(1)]
  show ?case
  proof (cases "rsize r < limit")
    case False
    define q where "q = r\<lparr>rsize := limit\<rparr>"
    have le: "unat limit \<le> unat (rsize r)" using False by (simp add: word_less_nat_alt)
    have q: "rlo q = rlo r" "rhi q = rlo r + unat limit" "rsize q = limit" by (simp_all add: q_def rlo_def rhi_def)
    have hq: "rhi q \<le> rhi r" using q le w(2,4) by linarith
    have ok: "region_ok q" using q(3) hq w(5) Cons.prems(2) by (simp add: region_ok_def)
    have "card (cover (r # xs)) \<ge> unat limit" using card_cover_Cons [OF Cons.prems(1)] le by simp
    then show ?thesis using False q ok hq by (simp add: q_def [symmetric] separated_Cons) auto
  next
    case True
    then have d: "unat (limit - rsize r) = unat limit - unat (rsize r)" "unat (rsize r) < unat limit"
      by (simp_all add: word_less_nat_alt unat_sub_nowrap)
    then have nz: "limit - rsize r \<noteq> 0" by (auto simp: unat_eq_0)
    show ?thesis
    proof (cases "xs = []")
      case True
      then show ?thesis using \<open>rsize r < limit\<close> r(1) d card_cover_Cons [OF Cons.prems(1)]
        by (simp add: separated_Cons)
    next
      case False
      define ys where "ys = limit_memory (limit - rsize r) xs"
      have ys: "separated ys" "ys \<noteq> []" "cover ys \<subseteq> cover xs"
        "card (cover ys) = min (unat limit - unat (rsize r)) (card (cover xs))"
        using Cons.IH [OF r(3) nz False] d by (auto simp: ys_def)
      have "\<forall>b \<in> set ys. rhi r < rlo b"
      proof
        fix b assume b: "b \<in> set ys"
        then have "region_ok b" using ys(1) by (simp add: separated_def)
        then have "rlo b \<in> cover ys" using b region_ok_words(2) by (auto simp: cover_def)
        then have "rlo b \<in> cover xs" using ys(3) by blast
        then obtain c where "c \<in> set xs" "rlo c \<le> rlo b" by (auto simp: cover_def)
        then show "rhi r < rlo b" using r(2) by fastforce
      qed
      then have s: "separated (r # ys)" using r(1) ys(1) by (simp add: separated_Cons)
      have "limit_memory limit (r # xs) = r # ys" using \<open>rsize r < limit\<close> by (simp add: ys_def)
      moreover have "cover (r # ys) \<subseteq> cover (r # xs)" using ys(3) by auto
      moreover have "card (cover (r # ys)) = min (unat limit) (card (cover (r # xs)))"
        unfolding card_cover_Cons [OF s] card_cover_Cons [OF Cons.prems(1)] ys(4) using d(2) by simp
      ultimately show ?thesis using s by (simp only: list.distinct) simp
    qed
  qed
qed simp

section \<open>Claims\<close>

text \<open>A board with 256 MB of memory and the kernel image reserved.\<close>

definition demo_mb :: memblock where
  "demo_mb = \<lparr>current_limit = 0xffffffff, memory_size = 0,
     memory = \<lparr>mt_max = 128, mt_array = None, mt_regions = [\<lparr>rbase = 0x80000000, rsize = 0x10000000\<rparr>]\<rparr>,
     reserved = \<lparr>mt_max = 128, mt_array = None, mt_regions = [\<lparr>rbase = 0x80008000, rsize = 0x500000\<rparr>]\<rparr>,
     memblock_can_resize = False\<rparr>"

definition demo_env :: boot_env where
  "demo_env = \<lparr>slab_is_available = False, kmalloc_pa = (\<lambda>_. 0)\<rparr>"

lemma demo_ok: "tables_ok demo_mb" "separated (mt_regions (memory demo_mb))"
  by (simp_all add: demo_mb_def tables_ok_def table_ok_def separated_Cons region_ok_def rhi_def)

lemma memblock_membership:
  assumes "tables_ok m"
  shows "(memblock_is_memory m addr = (unat addr \<in> memory_set m)) \<and>
         (memblock_is_reserved m addr = (unat addr \<in> reserved_set m))"
  using assms memblock_search_correct(1) [of "memory m" addr] memblock_search_correct(1) [of "reserved m" addr]
  by (simp add: memblock_is_memory_def memblock_is_reserved_def set_defs)

text \<open>
  C23.  Adding, removing, reserving and freeing a block succeed and act on the sets of memory and
  of reserved addresses as union and difference, and keep both tables sorted, disjoint and
  coalesced; where the block is not empty and below the top of the address space, the array has
  room for one more region, and, for removing and freeing, no region starts where the block ends.
  The bisection of \<open>memblock_search\<close> decides membership in the resulting sets: an address is reported
  as memory, or as reserved, exactly when a region of that table covers it.
\<close>

theorem memblock_ops_sets:
  assumes "tables_ok m" "mb_pre p m"
  shows "\<exists>m'. run_mb env p m = Some (True, m') \<and> tables_ok m' \<and>
    (memory_set m', reserved_set m') = mb_sets p (memory_set m, reserved_set m) \<and>
    (\<forall>addr. memblock_is_memory m' addr = (unat addr \<in> memory_set m')) \<and>
    (\<forall>addr. memblock_is_reserved m' addr = (unat addr \<in> reserved_set m'))"
  using run_mb_sets [OF assms, of env] memblock_membership by blast

theorem memblock_ops_sets_witness:
  "\<exists>m'. run_mb demo_env (Mb_free 0x80100000 0x1000) demo_mb = Some (True, m') \<and> tables_ok m' \<and>
    (memory_set m', reserved_set m') =
    mb_sets (Mb_free 0x80100000 0x1000) (memory_set demo_mb, reserved_set demo_mb)"
  using memblock_ops_sets [OF demo_ok(1), of "Mb_free 0x80100000 0x1000" demo_env]
  by (auto simp: demo_mb_def in_space_def no_start_at_def)

text \<open>
  C26.  \<open>__memblock_alloc_base\<close> returns 0 and changes nothing where no placement exists; else it
  returns the highest placement: aligned, inside memory, clear of everything reserved before, and
  reserved from then on, so that no later allocation can overlap it.
\<close>

theorem memblock_alloc_safe:
  assumes "tables_ok m" "Suc (length (mt_regions (reserved m))) < mt_max (reserved m)"
    "z = memblock_align_up sz (2 ^ k)" "z \<noteq> 0"
    "lim = (if max_addr = MEMBLOCK_ALLOC_ACCESSIBLE then current_limit m else max_addr)"
  shows "\<exists>a m'. raw_memblock_alloc_base env sz (2 ^ k) max_addr m = Some (a, m') \<and>
    (if places m k (unat z) (unat lim) = {} then a = 0 \<and> m' = m
     else unat a = Max (places m k (unat z) (unat lim)) \<and>
          {unat a..<unat a + unat z} \<subseteq> memory_set m \<and> {unat a..<unat a + unat z} \<inter> reserved_set m = {} \<and>
          2 ^ k dvd unat a \<and> unat a + unat z \<le> unat lim \<and>
          tables_ok m' \<and> memory m' = memory m \<and>
          reserved_set m' = reserved_set m \<union> {unat a..<unat a + unat z})"
proof -
  obtain a m' where am: "raw_memblock_alloc_base env sz (2 ^ k) max_addr m = Some (a, m')"
    "if places m k (unat z) (unat lim) = {} then a = 0 \<and> m' = m
     else unat a = Max (places m k (unat z) (unat lim)) \<and> tables_ok m' \<and> memory m' = memory m \<and>
          reserved_set m' = reserved_set m \<union> {unat a..<unat a + unat z}"
    using alloc_base_highest [OF assms] by blast
  show ?thesis
  proof (cases "places m k (unat z) (unat lim) = {}")
    case False
    then have "unat a \<in> places m k (unat z) (unat lim)"
      using am(2) Max_in [OF _ False] by (simp add: places_def)
    from places_bounds [OF this] show ?thesis using am False by auto
  qed (use am in auto)
qed

theorem memblock_alloc_safe_witness:
  "\<exists>a m'. raw_memblock_alloc_base demo_env 0x4000 (2 ^ 12) 0 demo_mb = Some (a, m')"
  using memblock_alloc_safe [OF demo_ok(1), of "memblock_align_up 0x4000 (2 ^ 12)" "0x4000" 12
      "current_limit demo_mb" 0 demo_env]
  by (auto simp: demo_mb_def memblock_align_up_def MEMBLOCK_ALLOC_ACCESSIBLE_def)

text \<open>
  C27.  Until \<open>memblock_analyze\<close> has allowed resizing, \<open>memblock_add_region\<close> on a table that is not
  full either succeeds, with the union of the table and the block, or fails and leaves every table
  exactly as it was.
\<close>

theorem memblock_add_atomic:
  assumes "table_ok (mt_regions (mt_of w m))" "in_space base sz" "\<not> memblock_can_resize m"
    "length (mt_regions (mt_of w m)) < mt_max (mt_of w m)"
  shows "memblock_add_region env w base sz m = Some (False, m) \<or>
    (\<exists>m'. memblock_add_region env w base sz m = Some (True, m') \<and> union_ok w base sz m m')"
  unfolding add_region_eq
  by (rule add_region_total) (use assms in \<open>simp_all add: regs_def double_array_with_def\<close>)

theorem memblock_add_atomic_witness:
  "memblock_add_region demo_env Memory 0xa0000000 0x1000 demo_mb = Some (False, demo_mb) \<or>
   (\<exists>m'. memblock_add_region demo_env Memory 0xa0000000 0x1000 demo_mb = Some (True, m') \<and>
         union_ok Memory 0xa0000000 0x1000 demo_mb m')"
  by (rule memblock_add_atomic)
     (use demo_ok in \<open>simp_all add: demo_mb_def in_space_def mt_of_def tables_ok_def\<close>)





end
