(* ===== verification/Ksort.thy ===== *)
theory Ksort
  imports Kernel_Prelude "HOL-Library.Multiset"
begin

text \<open>
  The heapsort of \<^verbatim>\<open>lib/sort.c\<close> and the binary search of \<^verbatim>\<open>lib/bsearch.c\<close>.  The source scales its counters
  by the size of an element; here they count elements.  \<open>cmp_func\<close> is a parameter; what a caller has to
  promise of it is the locale \<open>comparison\<close>.
\<close>

section \<open>Swapping\<close>

text \<open>\<open>generic_swap\<close> on bytes: \<open>do ... while (--size > 0)\<close>; \<open>None\<close> outside the memory.\<close>

definition swap_byte :: "byte list \<Rightarrow> nat \<Rightarrow> nat \<Rightarrow> byte list option" where
  "swap_byte mem a b =
     (if a < length mem \<and> b < length mem then Some (mem[a := mem ! b, b := mem ! a]) else None)"

fun generic_swap :: "byte list \<Rightarrow> nat \<Rightarrow> nat \<Rightarrow> nat \<Rightarrow> byte list option" where
  "generic_swap mem a b sz =
     (case swap_byte mem a b of
        None \<Rightarrow> None
      | Some mem \<Rightarrow> if sz - 1 > 0 then generic_swap mem (a + 1) (b + 1) (sz - 1) else Some mem)"

declare generic_swap.simps [simp del]

definition u32_swap :: "byte list \<Rightarrow> nat \<Rightarrow> nat \<Rightarrow> byte list option" where
  "u32_swap mem a b =
     (if a + 4 \<le> length mem \<and> b + 4 \<le> length mem
      then let t = take 4 (drop a mem); u = take 4 (drop b mem);
               mem = take a mem @ u @ drop (a + 4) mem
           in Some (take b mem @ t @ drop (b + 4) mem)
      else None)"

definition swap :: "'a list \<Rightarrow> nat \<Rightarrow> nat \<Rightarrow> 'a list" where
  "swap xs a b = xs[a := xs ! b, b := xs ! a]"

section \<open>Heapsort\<close>

text \<open>The inner loop both phases share: \<open>n\<close> is the end of the heap.\<close>

definition larger_child :: "('a \<Rightarrow> 'a \<Rightarrow> int) \<Rightarrow> nat \<Rightarrow> nat \<Rightarrow> 'a list \<Rightarrow> nat" where
  "larger_child cmp_func n r xs =
     (let c = r * 2 + 1
      in if c < n - 1 \<and> cmp_func (xs ! c) (xs ! (c + 1)) < 0 then c + 1 else c)"

function sift :: "('a \<Rightarrow> 'a \<Rightarrow> int) \<Rightarrow> nat \<Rightarrow> nat \<Rightarrow> 'a list \<Rightarrow> 'a list" where
  "sift cmp_func n r xs =
     (if r * 2 + 1 < n
      then let c = larger_child cmp_func n r xs
           in if cmp_func (xs ! r) (xs ! c) \<ge> 0 then xs else sift cmp_func n c (swap xs r c)
      else xs)"
  by pat_completeness auto
termination
  by (relation "measure (\<lambda>(cmp_func, n, r, xs). n - r)") (auto simp: larger_child_def Let_def)

declare sift.simps [simp del]

fun heapify :: "('a \<Rightarrow> 'a \<Rightarrow> int) \<Rightarrow> nat \<Rightarrow> 'a list \<Rightarrow> 'a list" where
  "heapify cmp_func 0 xs = xs"
| "heapify cmp_func (Suc i) xs = heapify cmp_func i (sift cmp_func (length xs) i xs)"

fun sort_down :: "('a \<Rightarrow> 'a \<Rightarrow> int) \<Rightarrow> nat \<Rightarrow> 'a list \<Rightarrow> 'a list" where
  "sort_down cmp_func 0 xs = xs"
| "sort_down cmp_func (Suc i) xs = sort_down cmp_func i (sift cmp_func (Suc i) 0 (swap xs 0 (Suc i)))"

definition ksort :: "('a \<Rightarrow> 'a \<Rightarrow> int) \<Rightarrow> 'a list \<Rightarrow> 'a list" where
  "ksort cmp_func xs =
     (let num = length xs; xs = heapify cmp_func (num div 2) xs in sort_down cmp_func (num - 1) xs)"

section \<open>Binary search\<close>

function bsearch_loop :: "('k \<Rightarrow> 'a \<Rightarrow> int) \<Rightarrow> 'k \<Rightarrow> 'a list \<Rightarrow> nat \<Rightarrow> nat \<Rightarrow> nat option" where
  "bsearch_loop cmp key base start stop =
     (if start < stop
      then let mid = start + (stop - start) div 2; result = cmp key (base ! mid)
           in if result < 0 then bsearch_loop cmp key base start mid
              else if result > 0 then bsearch_loop cmp key base (mid + 1) stop
              else Some mid
      else None)"
  by pat_completeness auto
termination
  by (relation "measure (\<lambda>(cmp, key, base, start, stop). stop - start)") auto

declare bsearch_loop.simps [simp del]

definition bsearch :: "('k \<Rightarrow> 'a \<Rightarrow> int) \<Rightarrow> 'k \<Rightarrow> 'a list \<Rightarrow> nat option" where
  "bsearch cmp key base = bsearch_loop cmp key base 0 (length base)"

section \<open>What the swap functions do\<close>

definition swapped :: "byte list \<Rightarrow> nat \<Rightarrow> nat \<Rightarrow> nat \<Rightarrow> byte list" where
  "swapped mem a b sz = map (\<lambda>i. if a \<le> i \<and> i < a + sz then mem ! (i - a + b)
     else if b \<le> i \<and> i < b + sz then mem ! (i - b + a) else mem ! i) [0..<length mem]"

lemma swapped_nth [simp]:
  "length (swapped mem a b sz) = length mem"
  "i < length mem \<Longrightarrow> swapped mem a b sz ! i =
     (if a \<le> i \<and> i < a + sz then mem ! (i - a + b)
      else if b \<le> i \<and> i < b + sz then mem ! (i - b + a) else mem ! i)"
  by (simp_all add: swapped_def)

lemma swapped_step:
  assumes "a + Suc n \<le> b" "b + Suc n \<le> length mem"
  shows "swapped (mem[a := mem ! b, b := mem ! a]) (a + 1) (b + 1) n = swapped mem a b (Suc n)"
proof (rule nth_equalityI)
  fix i assume "i < length (swapped (mem[a := mem ! b, b := mem ! a]) (a + 1) (b + 1) n)"
  then have i: "i < length mem" by simp
  let ?m = "mem[a := mem ! b, b := mem ! a]"
  have o: "?m ! j = mem ! j" if "j \<noteq> a" "j \<noteq> b" for j using that by simp
  consider "i = a" | "a < i \<and> i < a + Suc n" | "i = b" | "b < i \<and> i < b + Suc n"
    | "i < a \<or> a + Suc n \<le> i \<and> i < b \<or> b + Suc n \<le> i" by linarith
  then show "swapped ?m (a + 1) (b + 1) n ! i = swapped mem a b (Suc n) ! i"
  proof cases
    case 2
    then have "i - (a + 1) + (b + 1) = i - a + b" "i - a + b \<noteq> a" "i - a + b \<noteq> b" using assms by auto
    with 2 i show ?thesis by (simp add: o)
  next
    case 4
    then have "i - (b + 1) + (a + 1) = i - b + a" "i - b + a \<noteq> a" "i - b + a \<noteq> b" using assms by auto
    with 4 i assms show ?thesis by (simp add: o)
  qed (use i assms in \<open>auto simp: nth_list_update\<close>)
qed simp

lemma swapped_one:
  "a < b \<Longrightarrow> b < length mem \<Longrightarrow> swapped mem a b 1 = mem[a := mem ! b, b := mem ! a]"
  by (rule nth_equalityI) (auto simp: nth_list_update le_less_Suc_eq)

lemma generic_swap_swapped:
  assumes "0 < sz" "a + sz \<le> b" "b + sz \<le> length mem"
  shows "generic_swap mem a b sz = Some (swapped mem a b sz)"
  using assms
proof (induction sz arbitrary: mem a b)
  case (Suc n)
  let ?m = "mem[a := mem ! b, b := mem ! a]"
  have m: "swap_byte mem a b = Some ?m" using Suc.prems by (simp add: swap_byte_def)
  show ?case
  proof (cases "n = 0")
    case True
    then show ?thesis using Suc.prems m swapped_one [of a b mem] by (subst generic_swap.simps) simp
  next
    case False
    then have "generic_swap ?m (a + 1) (b + 1) n = Some (swapped ?m (a + 1) (b + 1) n)"
      using Suc.prems by (intro Suc.IH) simp_all
    moreover have "swapped ?m (a + 1) (b + 1) n = swapped mem a b (Suc n)"
      using Suc.prems by (intro swapped_step) simp_all
    ultimately show ?thesis using m False by (subst generic_swap.simps) simp
  qed
qed simp

lemma u32_swap_swapped:
  assumes "a + 4 \<le> b" "b + 4 \<le> length mem"
  shows "u32_swap mem a b = Some (swapped mem a b 4)"
proof -
  let ?m = "take a mem @ take 4 (drop b mem) @ drop (a + 4) mem"
  let ?P = "take a mem" and ?Q = "take 4 (drop b mem)" and ?R = "take (b - (a + 4)) (drop (a + 4) mem)"
    and ?S = "take 4 (drop a mem)" and ?T = "drop (b + 4) mem"
  have len: "length ?P = a" "length ?Q = 4" "length ?R = b - (a + 4)" "length ?S = 4" using assms by simp_all
  have "take b ?m = ?P @ ?Q @ ?R" "drop (b + 4) ?m = ?T"
    using assms unfolding take_append drop_append len by (simp_all add: add.commute)
  moreover have "(?P @ ?Q @ ?R) @ ?S @ ?T = swapped mem a b 4"
  proof (rule nth_equalityI)
    fix i assume "i < length ((?P @ ?Q @ ?R) @ ?S @ ?T)"
    then have i: "i < length mem" using assms by simp
    obtain m where b: "b = a + 4 + m" using assms(1) le_Suc_ex by blast
    consider "i < a" | k where "k < 4" "i = a + k" | k where "k < m" "i = a + 4 + k" | k where "k < 4" "i = b + k"
      | k where "i = b + 4 + k"
    proof -
      have "i < a \<or> i - a < 4 \<and> i = a + (i - a) \<or> i - (a + 4) < m \<and> i = a + 4 + (i - (a + 4)) \<or>
          i - b < 4 \<and> i = b + (i - b) \<or> i = b + 4 + (i - (b + 4))"
        using b by linarith
      then show thesis using that by blast
    qed
    then show "((?P @ ?Q @ ?R) @ ?S @ ?T) ! i = swapped mem a b 4 ! i"
      by cases (use i assms b in \<open>simp_all add: nth_append len ac_simps\<close>)
  qed (use assms in simp)
  ultimately show ?thesis using assms by (simp add: u32_swap_def Let_def)
qed


section \<open>Sorting\<close>

text \<open>What \<open>sort\<close> needs of the comparison: it orders totally.\<close>

locale comparison =
  fixes cmp :: "'a \<Rightarrow> 'a \<Rightarrow> int"
  assumes cmp_flip: "0 \<le> cmp x y \<longleftrightarrow> cmp y x \<le> 0"
    and cmp_trans: "cmp x y \<le> 0 \<Longrightarrow> cmp y z \<le> 0 \<Longrightarrow> cmp x z \<le> 0"
begin

definition heap_from :: "nat \<Rightarrow> nat \<Rightarrow> 'a list \<Rightarrow> bool" where
  "heap_from lo n xs \<longleftrightarrow> (\<forall>k < n. 0 < k \<longrightarrow> lo \<le> (k - 1) div 2 \<longrightarrow> cmp (xs ! k) (xs ! ((k - 1) div 2)) \<le> 0)"

text \<open>A heap but for the element at \<open>r\<close>, whose children its parent still dominates.\<close>

definition heap_but :: "nat \<Rightarrow> nat \<Rightarrow> nat \<Rightarrow> 'a list \<Rightarrow> bool" where
  "heap_but lo n r xs \<longleftrightarrow>
     (\<forall>k < n. 0 < k \<longrightarrow> lo \<le> (k - 1) div 2 \<longrightarrow> (k - 1) div 2 \<noteq> r \<longrightarrow> cmp (xs ! k) (xs ! ((k - 1) div 2)) \<le> 0) \<and>
     (\<forall>k < n. 0 < k \<longrightarrow> (k - 1) div 2 = r \<longrightarrow> 0 < r \<longrightarrow> lo \<le> (r - 1) div 2 \<longrightarrow>
        cmp (xs ! k) (xs ! ((r - 1) div 2)) \<le> 0)"

lemma cmp_refl: "cmp x x \<le> 0"
  using cmp_flip [of x x] by linarith

lemma cmp_less: "cmp x y < 0 \<Longrightarrow> cmp x y \<le> 0" "\<not> cmp x y < 0 \<Longrightarrow> cmp y x \<le> 0"
  using cmp_flip [of x y] by linarith+

lemma child_cases: "0 < k \<Longrightarrow> (k - 1) div 2 = r \<longleftrightarrow> k = r * 2 + 1 \<or> k = r * 2 + 2" for k r :: nat
  by linarith

lemma larger_child_props:
  fixes xs :: "'a list"
  assumes "r * 2 + 1 < n"
  defines "c \<equiv> larger_child cmp n r xs"
  shows "c < n" "(c - 1) div 2 = r" "r < c"
    "\<And>k. k < n \<Longrightarrow> 0 < k \<Longrightarrow> (k - 1) div 2 = r \<Longrightarrow> cmp (xs ! k) (xs ! c) \<le> 0"
proof -
  have c: "c = r * 2 + 1 \<or> c = r * 2 + 2" by (auto simp: c_def larger_child_def Let_def)
  then show "(c - 1) div 2 = r" "r < c" by auto
  show "c < n" using assms by (auto simp: larger_child_def Let_def)
  fix k assume "k < n" "0 < k" "(k - 1) div 2 = r"
  then have "k = r * 2 + 1 \<or> k = r * 2 + 2" using child_cases by blast
  then show "cmp (xs ! k) (xs ! c) \<le> 0"
    using \<open>k < n\<close> cmp_refl cmp_less by (auto simp: c_def larger_child_def Let_def)
qed

lemma swap_nth:
  assumes "r < length xs" "c < length xs"
  shows "swap xs r c ! i = (if i = r then xs ! c else if i = c then xs ! r else xs ! i)"
  using assms by (auto simp: swap_def nth_list_update)

lemma heap_but_swap:
  assumes hb: "heap_but lo n r xs" and n: "n \<le> length xs" and r: "r * 2 + 1 < n" "lo \<le> r"
    and c: "c = larger_child cmp n r xs" and lt: "cmp (xs ! r) (xs ! c) < 0"
  shows "heap_but lo n c (swap xs r c)"
proof -
  note lc = larger_child_props [OF r(1), where xs = xs, folded c]
  have nth: "swap xs r c ! i = (if i = r then xs ! c else if i = c then xs ! r else xs ! i)" for i
    using swap_nth [of r xs c i] lc(1,3) n by simp
  have hb1: "cmp (xs ! k) (xs ! ((k - 1) div 2)) \<le> 0"
    if "k < n" "0 < k" "lo \<le> (k - 1) div 2" "(k - 1) div 2 \<noteq> r" for k
    using hb that by (simp add: heap_but_def)
  have up: "cmp (xs ! c) (xs ! ((r - 1) div 2)) \<le> 0" if "0 < r" "lo \<le> (r - 1) div 2"
    using hb that lc(1-3) by (auto simp: heap_but_def)
  have "cmp (swap xs r c ! k) (swap xs r c ! ((k - 1) div 2)) \<le> 0"
    if k: "k < n" "0 < k" "lo \<le> (k - 1) div 2" "(k - 1) div 2 \<noteq> c" for k
  proof (cases "(k - 1) div 2 = r")
    case True
    then have "k \<noteq> r" using k by linarith
    then show ?thesis using True lt lc(4) [OF k(1,2) True] by (simp add: nth)
  next
    case False
    then have "k \<noteq> c" using lc(2) by auto
    then show ?thesis using False k up hb1 [OF k(1-3) False] by (auto simp: nth)
  qed
  moreover have "cmp (swap xs r c ! k) (swap xs r c ! ((c - 1) div 2)) \<le> 0"
    if k: "k < n" "0 < k" "(k - 1) div 2 = c" for k
  proof -
    have "k \<noteq> r" "k \<noteq> c" using k lc(3) by linarith+
    then show ?thesis using hb1 [OF k(1,2)] k lc(2,3) r(2) by (simp add: nth)
  qed
  ultimately show ?thesis unfolding heap_but_def by blast
qed

lemma heap_but_done:
  assumes "heap_but lo n r xs" "r * 2 + 1 < n \<Longrightarrow> 0 \<le> cmp (xs ! r) (xs ! larger_child cmp n r xs)"
  shows "heap_from lo n xs"
  unfolding heap_from_def
proof (intro allI impI)
  fix k assume k: "k < n" "0 < k" "lo \<le> (k - 1) div 2"
  show "cmp (xs ! k) (xs ! ((k - 1) div 2)) \<le> 0"
  proof (cases "(k - 1) div 2 = r")
    case True
    then have r: "r * 2 + 1 < n" using k by linarith
    show ?thesis
      using larger_child_props(4) [OF r, where xs = xs, OF k(1,2) True] assms(2) [OF r] cmp_flip cmp_trans True by metis
  next
    case False
    then show ?thesis using assms(1) k by (simp add: heap_but_def)
  qed
qed

lemma swap_perm:
  assumes "r < n" "c < n" "n \<le> length xs"
  shows "length (swap xs r c) = length xs" "drop n (swap xs r c) = drop n xs"
    "mset (take n (swap xs r c)) = mset (take n xs)"
proof -
  show "length (swap xs r c) = length xs" by (simp add: swap_def)
  show "drop n (swap xs r c) = drop n xs" using assms by (simp add: swap_def drop_update_cancel)
  have "take n (swap xs r c) = swap (take n xs) r c"
    using assms by (simp add: swap_def take_update_swap)
  then show "mset (take n (swap xs r c)) = mset (take n xs)"
    using assms mset_swap [of c "take n xs" r] by (simp add: swap_def)
qed

lemma sift_props:
  assumes "heap_but lo n r xs" "n \<le> length xs" "lo \<le> r" "r < n"
  shows "heap_from lo n (sift cmp n r xs) \<and> length (sift cmp n r xs) = length xs \<and>
    drop n (sift cmp n r xs) = drop n xs \<and> mset (take n (sift cmp n r xs)) = mset (take n xs)"
  using assms
proof (induction "n - r" arbitrary: r xs rule: less_induct)
  case less
  let ?c = "larger_child cmp n r xs"
  show ?case
  proof (cases "r * 2 + 1 < n \<and> cmp (xs ! r) (xs ! ?c) < 0")
    case False
    then have "sift cmp n r xs = xs" by (subst sift.simps) (auto simp: Let_def)
    moreover have "heap_from lo n xs" using heap_but_done [OF less.prems(1)] False by force
    ultimately show ?thesis by simp
  next
    case True
    note lc = larger_child_props [of r n, where xs = xs]
    have s: "sift cmp n r xs = sift cmp n ?c (swap xs r ?c)"
      using True by (subst sift.simps) (auto simp: Let_def)
    have hb: "heap_but lo n ?c (swap xs r ?c)"
      by (rule heap_but_swap [OF less.prems(1,2) _ less.prems(3) refl]) (use True in auto)
    have c: "?c < n" "r < ?c" using lc(1,3) True by auto
    note p = swap_perm [OF less.prems(4) c(1) less.prems(2)]
    have "n - ?c < n - r" using c by linarith
    from less.hyps [OF this hb] show ?thesis using p less.prems c unfolding s by auto
  qed
qed


lemma heap_from_but:
  assumes "heap_from (Suc i) n xs"
  shows "heap_but i n i xs"
proof -
  have "lo \<le> (i - 1) div 2 \<Longrightarrow> i \<noteq> 0 \<Longrightarrow> lo < i" for lo by linarith
  with assms show ?thesis unfolding heap_from_def heap_but_def by (auto simp: Suc_le_eq)
qed

lemma heapify_props:
  assumes "heap_from i (length xs) xs" "i \<le> length xs"
  shows "heap_from 0 (length xs) (heapify cmp i xs) \<and> mset (heapify cmp i xs) = mset xs"
  using assms
proof (induction i arbitrary: xs)
  case (Suc i)
  have "heap_from i (length xs) (sift cmp (length xs) i xs)" "length (sift cmp (length xs) i xs) = length xs"
    "mset (sift cmp (length xs) i xs) = mset xs"
    using sift_props [OF heap_from_but [OF Suc.prems(1)]] Suc.prems(2) by auto
  then show ?case using Suc.IH [of "sift cmp (length xs) i xs"] Suc.prems(2) by simp
qed simp

lemma heap_root:
  assumes "heap_from 0 n xs" "k < n"
  shows "cmp (xs ! k) (xs ! 0) \<le> 0"
  using assms(2)
proof (induction k rule: less_induct)
  case (less k)
  show ?case
  proof (cases "k = 0")
    case True
    then show ?thesis using cmp_refl by simp
  next
    case False
    then have "(k - 1) div 2 < k" by linarith
    then have "cmp (xs ! ((k - 1) div 2)) (xs ! 0) \<le> 0" "cmp (xs ! k) (xs ! ((k - 1) div 2)) \<le> 0"
      using less assms(1) False by (auto simp: heap_from_def)
    then show ?thesis using cmp_trans by blast
  qed
qed

lemma heap_but_root:
  assumes "heap_from 0 (Suc n) xs" "n < length xs"
  shows "heap_but 0 n 0 (swap xs 0 n)"
  unfolding heap_but_def
proof (intro conjI allI impI)
  fix k assume k: "k < n" "0 < k" "(k - 1) div 2 \<noteq> 0"
  have "0 < length xs" using assms(2) by linarith
  then have nth: "swap xs 0 n ! i = (if i = 0 then xs ! n else if i = n then xs ! 0 else xs ! i)" for i
    using swap_nth [of 0 xs n i] assms(2) by simp
  have "(k - 1) div 2 < n" using k by linarith
  then show "cmp (swap xs 0 n ! k) (swap xs 0 n ! ((k - 1) div 2)) \<le> 0"
    using k assms(1) by (simp add: nth heap_from_def)
qed simp

abbreviation ordered :: "'a list \<Rightarrow> bool" where
  "ordered \<equiv> sorted_wrt (\<lambda>x y. cmp x y \<le> 0)"

text \<open>The state of the second loop: a heap up to \<open>i\<close>, and behind it the largest elements in order.\<close>

definition sorting :: "nat \<Rightarrow> 'a list \<Rightarrow> bool" where
  "sorting n xs \<longleftrightarrow> n \<le> length xs \<and> heap_from 0 n xs \<and> ordered (drop n xs) \<and>
     (\<forall>x \<in> set (take n xs). \<forall>y \<in> set (drop n xs). cmp x y \<le> 0)"

lemma sorting_step:
  assumes s: "sorting (Suc n) xs" and n: "0 < n"
  defines "ys \<equiv> sift cmp n 0 (swap xs 0 n)"
  shows "sorting n ys" "mset ys = mset xs"
proof -
  let ?zs = "swap xs 0 n"
  have len: "n < length xs" and hp: "heap_from 0 (Suc n) xs" and ord: "ordered (drop (Suc n) xs)"
    and le: "\<forall>x \<in> set (take (Suc n) xs). \<forall>y \<in> set (drop (Suc n) xs). cmp x y \<le> 0"
    using s by (auto simp: sorting_def)
  have zs: "length ?zs = length xs" "drop (Suc n) ?zs = drop (Suc n) xs"
    "mset (take (Suc n) ?zs) = mset (take (Suc n) xs)"
    using swap_perm [of 0 "Suc n" n xs] len by auto
  have "0 < length xs" using len by linarith
  then have zn: "?zs ! n = xs ! 0" using swap_nth [of 0 xs n n] len n by simp
  have ys: "heap_from 0 n ys" "length ys = length xs" "drop n ys = drop n ?zs" "mset (take n ys) = mset (take n ?zs)"
    using sift_props [OF heap_but_root [OF hp len]] len n zs(1) by (auto simp: ys_def)
  have d: "drop n ?zs = xs ! 0 # drop (Suc n) xs"
    using Cons_nth_drop_Suc [of n ?zs] len zs zn by simp
  have "set (take n ys) = set (take n ?zs)" using ys(4) by (metis set_mset_mset)
  also have "\<dots> \<subseteq> set (take (Suc n) ?zs)" by (simp add: set_take_subset_set_take)
  also have "\<dots> = set (take (Suc n) xs)" using zs(3) by (metis set_mset_mset)
  finally have sub: "set (take n ys) \<subseteq> set (take (Suc n) xs)" .
  have root: "cmp x (xs ! 0) \<le> 0" if "x \<in> set (take (Suc n) xs)" for x
    using that heap_root [OF hp] by (auto simp: in_set_conv_nth)
  have "xs ! 0 \<in> set (take (Suc n) xs)" using len by (auto simp: in_set_conv_nth)
  with ord le sub root show "sorting n ys"
    unfolding sorting_def ys(3) d using ys len by (auto simp: subset_iff)
  have "mset ys = mset (take n ?zs) + mset (drop n ?zs)"
    using ys(3,4) by (metis append_take_drop_id mset_append)
  also have "\<dots> = mset ?zs" by (metis append_take_drop_id mset_append)
  also have "\<dots> = mset xs" using zs(2,3) by (metis append_take_drop_id mset_append)
  finally show "mset ys = mset xs" .
qed

lemma sort_down_props: "sorting (Suc n) xs \<Longrightarrow> ordered (sort_down cmp n xs) \<and> mset (sort_down cmp n xs) = mset xs"
proof (induction n arbitrary: xs)
  case 0
  then obtain x ys where xs: "xs = x # ys" by (cases xs) (auto simp: sorting_def)
  show ?case using 0 by (simp add: xs sorting_def)
next
  case (Suc n)
  from sorting_step [OF Suc.prems] Suc.IH show ?case by simp
qed

lemma ksort_props: "ordered (ksort cmp xs) \<and> mset (ksort cmp xs) = mset xs"
proof (cases xs)
  case Nil
  then show ?thesis by (simp add: ksort_def)
next
  case (Cons x ys)
  let ?n = "length xs"
  have "heap_from (?n div 2) ?n xs" unfolding heap_from_def by auto
  then have h: "heap_from 0 ?n (heapify cmp (?n div 2) xs)" "mset (heapify cmp (?n div 2) xs) = mset xs"
    using heapify_props [of "?n div 2" xs] by auto
  then have "length (heapify cmp (?n div 2) xs) = ?n" using mset_eq_length by blast
  then have "sorting (Suc (?n - 1)) (heapify cmp (?n div 2) xs)" using h Cons by (simp add: sorting_def)
  from sort_down_props [OF this] show ?thesis using h by (simp add: ksort_def Let_def)
qed


lemma bsearch_loop_props:
  assumes ord: "ordered base" and stop: "stop \<le> length base"
  shows "case bsearch_loop cmp key base start stop of
      Some i \<Rightarrow> i < length base \<and> cmp key (base ! i) = 0
    | None \<Rightarrow> \<forall>i. start \<le> i \<and> i < stop \<longrightarrow> cmp key (base ! i) \<noteq> 0"
  using stop
proof (induction "stop - start" arbitrary: start stop rule: less_induct)
  case less
  let ?mid = "start + (stop - start) div 2"
  have le: "cmp (base ! i) (base ! j) \<le> 0" if "i \<le> j" "j < length base" for i j
    using sorted_wrt_nth_less [OF ord, of i j] that cmp_refl by (cases "i = j") auto
  have no_right: "cmp key (base ! j) \<noteq> 0" if "cmp key (base ! i) < 0" "i \<le> j" "j < length base" for i j
    using that cmp_flip [of key "base ! i"] cmp_flip [of key "base ! j"] cmp_trans [OF le [OF that(2,3)], of key] by auto
  have no_left: "cmp key (base ! i) \<noteq> 0" if "cmp key (base ! j) > 0" "i \<le> j" "j < length base" for i j
    using that cmp_trans [OF _ le [OF that(2,3)], of key] by auto
  show ?case
  proof (cases "start < stop")
    case False
    then show ?thesis by (subst bsearch_loop.simps) simp
  next
    case True
    then have mid: "start \<le> ?mid" "?mid < stop" "?mid < length base" using less.prems by auto
    consider "cmp key (base ! ?mid) < 0" | "cmp key (base ! ?mid) > 0" | "cmp key (base ! ?mid) = 0" by linarith
    then show ?thesis
    proof cases
      case 1
      then have s: "bsearch_loop cmp key base start stop = bsearch_loop cmp key base start ?mid"
        using True by (subst bsearch_loop.simps) (simp add: Let_def)
      have "?mid - start < stop - start" "?mid \<le> length base" using mid by auto
      note ih = less.hyps [OF this]
      show ?thesis unfolding s using ih no_right [OF 1] less.prems
        by (auto split: option.splits) (meson less_le_trans linorder_not_less)
    next
      case 2
      then have s: "bsearch_loop cmp key base start stop = bsearch_loop cmp key base (?mid + 1) stop"
        using True by (subst bsearch_loop.simps) (simp add: Let_def)
      have "stop - (?mid + 1) < stop - start" using mid by auto
      note ih = less.hyps [OF this less.prems]
      show ?thesis unfolding s using ih no_left [OF 2 _ mid(3)]
        by (auto split: option.splits simp: Suc_le_eq not_le) (meson not_less)
    next
      case 3
      then have "bsearch_loop cmp key base start stop = Some ?mid"
        using True by (subst bsearch_loop.simps) (simp add: Let_def)
      then show ?thesis using 3 mid by simp
    qed
  qed
qed

end

end
