(* ===== verification/Extable.thy ===== *)
theory Extable
  imports Ksort
begin

text \<open>
  The exception tables: \<^verbatim>\<open>lib/extable.c\<close>, \<^verbatim>\<open>kernel/extable.c\<close>, the search of the modules' tables in
  \<^verbatim>\<open>kernel/module.c\<close> and \<open>fixup_exception\<close> of \<^verbatim>\<open>arch/arm/mm/extable.c\<close>.  A table is the list of its entries; a
  pointer into it is an index.
\<close>

section \<open>Definitions\<close>

record exception_table_entry =
  insn :: u32
  fixup :: u32

definition cmp_ex :: "exception_table_entry \<Rightarrow> exception_table_entry \<Rightarrow> int" where
  "cmp_ex x y = (if insn x > insn y then 1 else if insn x < insn y then - 1 else 0)"

definition sort_extable :: "exception_table_entry list \<Rightarrow> exception_table_entry list" where
  "sort_extable table = ksort cmp_ex table"

function extable_loop :: "exception_table_entry list \<Rightarrow> int \<Rightarrow> int \<Rightarrow> u32 \<Rightarrow> exception_table_entry option" where
  "extable_loop table first lst value =
     (if first \<le> lst
      then let mid = (lst - first) div 2 + first; e = table ! nat mid
           in if insn e < value then extable_loop table (mid + 1) lst value
              else if insn e > value then extable_loop table first (mid - 1) value
              else Some e
      else None)"
  by pat_completeness auto
termination
  by (relation "measure (\<lambda>(table, first, lst, value). nat (lst + 1 - first))") auto

declare extable_loop.simps [simp del]

text \<open>\<open>search_extable\<close> as its callers use it, from the first to the last entry of a table.\<close>

definition search_extable :: "exception_table_entry list \<Rightarrow> u32 \<Rightarrow> exception_table_entry option" where
  "search_extable table value = extable_loop table 0 (int (length table) - 1) value"

record kmodule =
  extable :: "exception_table_entry list"
  module_init :: u32
  init_size :: u32

definition within_module_init :: "u32 \<Rightarrow> kmodule \<Rightarrow> bool" where
  "within_module_init addr m \<longleftrightarrow> module_init m \<le> addr \<and> addr < module_init m + init_size m"

fun trim_beginning :: "kmodule \<Rightarrow> exception_table_entry list \<Rightarrow> exception_table_entry list" where
  "trim_beginning m [] = []"
| "trim_beginning m (e # table) = (if within_module_init (insn e) m then trim_beginning m table else e # table)"

function trim_end :: "kmodule \<Rightarrow> exception_table_entry list \<Rightarrow> exception_table_entry list" where
  "trim_end m table =
     (if table \<noteq> [] \<and> within_module_init (insn (last table)) m then trim_end m (butlast table) else table)"
  by pat_completeness auto
termination
  by (relation "measure (\<lambda>(m, table). length table)") auto

declare trim_end.simps [simp del]

definition trim_init_extable :: "kmodule \<Rightarrow> kmodule" where
  "trim_init_extable m = m\<lparr>extable := trim_end m (trim_beginning m (extable m))\<rparr>"

fun search_module_extables :: "kmodule list \<Rightarrow> u32 \<Rightarrow> exception_table_entry option" where
  "search_module_extables [] addr = None"
| "search_module_extables (m # modules) addr =
     (if length (extable m) = 0 then search_module_extables modules addr
      else case search_extable (extable m) addr of
             Some e \<Rightarrow> Some e
           | None \<Rightarrow> search_module_extables modules addr)"

definition sort_main_extable :: "exception_table_entry list \<Rightarrow> exception_table_entry list" where
  "sort_main_extable ex_table = sort_extable ex_table"

definition search_exception_tables ::
  "exception_table_entry list \<Rightarrow> kmodule list \<Rightarrow> u32 \<Rightarrow> exception_table_entry option" where
  "search_exception_tables ex_table modules addr =
     (case search_extable ex_table addr of
        Some e \<Rightarrow> Some e
      | None \<Rightarrow> search_module_extables modules addr)"

text \<open>\<open>fixup_exception\<close> on the program counter: the result and the new program counter.\<close>

definition fixup_exception :: "exception_table_entry list \<Rightarrow> kmodule list \<Rightarrow> u32 \<Rightarrow> bool \<times> u32" where
  "fixup_exception ex_table modules pc =
     (case search_exception_tables ex_table modules pc of
        Some e \<Rightarrow> (True, fixup e)
      | None \<Rightarrow> (False, pc))"

text \<open>Loading a module sorts its table.\<close>

definition load_extable :: "kmodule \<Rightarrow> kmodule" where
  "load_extable m = m\<lparr>extable := sort_extable (extable m)\<rparr>"

section \<open>Sorting\<close>

interpretation ex: comparison cmp_ex
  by unfold_locales (auto simp: cmp_ex_def split: if_splits)

abbreviation sorted_table :: "exception_table_entry list \<Rightarrow> bool" where
  "sorted_table table \<equiv> sorted (map insn table)"

lemma ordered_sorted: "ex.ordered table \<longleftrightarrow> sorted_table table"
proof -
  have "cmp_ex x y \<le> 0 \<longleftrightarrow> insn x \<le> insn y" for x y by (auto simp: cmp_ex_def)
  then show ?thesis by (simp add: sorted_wrt_map)
qed

lemma sort_extable_props: "sorted_table (sort_extable table)" "mset (sort_extable table) = mset table"
  using ex.ksort_props [of table] by (simp_all add: sort_extable_def ordered_sorted)

lemma sort_extable_set: "set (sort_extable table) = set table" "length (sort_extable table) = length table"
  using arg_cong [OF sort_extable_props(2) [of table], of set_mset] mset_eq_length [OF sort_extable_props(2)]
  by simp_all

lemma cmp_ex_0: "cmp_ex x y = 0 \<longleftrightarrow> insn x = insn y"
  by (auto simp: cmp_ex_def)

text \<open>C38.  Sorting.  The heapsort of \<open>lib/sort.c\<close>, called by \<open>sort_extable\<close> with \<open>cmp_ex\<close>, ends on every table
  with the same entries in ascending order of their instruction addresses; and \<open>bsearch\<close> with the same
  comparison finds in the result an entry with the address of the key, if there is one, and else none.\<close>

theorem sort_extable_sorts:
  "sorted (map insn (sort_extable table)) \<and> mset (sort_extable table) = mset table \<and>
   (case bsearch cmp_ex key (sort_extable table) of
      Some i \<Rightarrow> i < length table \<and> insn (sort_extable table ! i) = insn key
    | None \<Rightarrow> insn key \<notin> set (map insn table))"
proof -
  have "ex.ordered (sort_extable table)" using sort_extable_props by (simp add: ordered_sorted)
  note b = ex.bsearch_loop_props [OF this order_refl, where key = key and start = 0]
  have "insn key \<notin> set (map insn table)" if "bsearch cmp_ex key (sort_extable table) = None"
  proof -
    have "\<forall>i < length table. insn (sort_extable table ! i) \<noteq> insn key"
      using b that by (auto simp: bsearch_def cmp_ex_0 sort_extable_set)
    then have "insn key \<notin> set (map insn (sort_extable table))"
      by (auto simp: in_set_conv_nth sort_extable_set(2))
    then show ?thesis by (simp add: sort_extable_set)
  qed
  then show ?thesis
    using b sort_extable_props [of table] by (auto simp: bsearch_def cmp_ex_0 sort_extable_set split: option.splits)
qed

section \<open>Searching\<close>

lemma extable_loop_sound:
  "extable_loop table first lst addr = Some e \<Longrightarrow> 0 \<le> first \<Longrightarrow> lst < int (length table) \<Longrightarrow>
     e \<in> set table \<and> insn e = addr"
proof (induction table first lst addr rule: extable_loop.induct)
  case (1 table first lst addr)
  let ?mid = "(lst - first) div 2 + first" and ?e = "table ! nat ((lst - first) div 2 + first)"
  have le: "first \<le> lst" using "1.prems"(1) by (subst (asm) extable_loop.simps) (auto split: if_splits)
  then have mid: "0 \<le> ?mid" "?mid < int (length table)" "0 \<le> ?mid + 1" "?mid - 1 < int (length table)"
    using "1.prems"(2,3) by auto
  have e: "?e \<in> set table" using mid by simp
  consider "insn ?e < addr" | "insn ?e > addr" | "insn ?e = addr" by (meson linorder_less_linear)
  then show ?case
  proof cases
    case 1
    then have "extable_loop table (?mid + 1) lst addr = Some e"
      using "1.prems"(1) le by (subst (asm) extable_loop.simps) (simp add: Let_def)
    then show ?thesis using "1.IH"(1) [OF le refl refl 1 _ mid(3) "1.prems"(3)] by blast
  next
    case 2
    then have n: "\<not> insn ?e < addr" by simp
    then have "extable_loop table first (?mid - 1) addr = Some e"
      using "1.prems"(1) le 2 by (subst (asm) extable_loop.simps) (simp add: Let_def)
    then show ?thesis using "1.IH"(2) [OF le refl refl n 2 _ "1.prems"(2) mid(4)] by blast
  next
    case 3
    then have "Some e = Some ?e" using "1.prems"(1) le by (subst (asm) extable_loop.simps) (simp add: Let_def)
    then show ?thesis using e 3 by simp
  qed
qed

lemma extable_loop_complete:
  assumes "sorted_table table" "insn (table ! k) = addr"
  shows "first \<le> int k \<Longrightarrow> int k \<le> lst \<Longrightarrow> 0 \<le> first \<Longrightarrow> lst < int (length table) \<Longrightarrow>
    \<exists>e. extable_loop table first lst addr = Some e"
  using assms
proof (induction table first lst addr rule: extable_loop.induct)
  case (1 table first lst addr)
  let ?mid = "(lst - first) div 2 + first" and ?e = "table ! nat ((lst - first) div 2 + first)"
  have le: "first \<le> lst" using "1.prems"(1,2) by linarith
  then have mid: "first \<le> ?mid" "?mid \<le> lst" "0 \<le> ?mid" "?mid < int (length table)"
    using "1.prems"(3,4) by auto
  have mono: "insn (table ! i) \<le> insn (table ! j)" if "i \<le> j" "j < length table" for i j
    using sorted_nth_mono [OF "1.prems"(5), of i j] that by simp
  have k: "k < length table" using "1.prems"(2,4) by linarith
  have below: "insn ?e \<le> addr" if "?mid \<le> int k"
  proof -
    have "nat ?mid \<le> k" using that by (simp only: nat_le_iff)
    then show ?thesis using mono [OF _ k] "1.prems"(6) by simp
  qed
  have above: "addr \<le> insn ?e" if "int k \<le> ?mid"
  proof -
    have "k \<le> nat ?mid" "nat ?mid < length table" using that mid(3,4) by (simp_all only: le_nat_iff nat_less_iff)
    then show ?thesis using mono "1.prems"(6) by blast
  qed
  consider "insn ?e < addr" | "insn ?e > addr" | "insn ?e = addr" by (meson linorder_less_linear)
  then show ?case
  proof cases
    case 1
    then have "?mid + 1 \<le> int k" "0 \<le> ?mid + 1" using above mid(3) by (fastforce, simp)
    then have "\<exists>e. extable_loop table (?mid + 1) lst addr = Some e"
      using "1.IH"(1) [OF le refl refl 1] "1.prems" by blast
    then show ?thesis using 1 le by (subst extable_loop.simps) (simp add: Let_def)
  next
    case 2
    then have n: "\<not> insn ?e < addr" "int k \<le> ?mid - 1" "?mid - 1 < int (length table)"
      using below mid(4) by (simp, fastforce, simp)
    then have "\<exists>e. extable_loop table first (?mid - 1) addr = Some e"
      using "1.IH"(2) [OF le refl refl n(1) 2] "1.prems" by blast
    then show ?thesis using 2 n le by (subst extable_loop.simps) (simp add: Let_def)
  next
    case 3
    then show ?thesis using le by (subst extable_loop.simps) (simp add: Let_def)
  qed
qed


lemma search_extable_iff:
  assumes "sorted_table table"
  shows "case search_extable table addr of
      Some e \<Rightarrow> e \<in> set table \<and> insn e = addr
    | None \<Rightarrow> \<forall>e \<in> set table. insn e \<noteq> addr"
proof (cases "search_extable table addr")
  case None
  have "insn e \<noteq> addr" if e: "e \<in> set table" for e
  proof
    assume "insn e = addr"
    then obtain k where "k < length table" "insn (table ! k) = addr" using e by (auto simp: in_set_conv_nth)
    then have "\<exists>e. search_extable table addr = Some e"
      unfolding search_extable_def by (intro extable_loop_complete [OF assms, of k]) auto
    with None show False by simp
  qed
  with None show ?thesis by simp
next
  case (Some e)
  then show ?thesis using extable_loop_sound [of table 0 "int (length table) - 1" addr e] by (simp add: search_extable_def)
qed

lemma search_module_extables_iff:
  assumes "\<forall>m \<in> set modules. sorted_table (extable m)"
  shows "case search_module_extables modules addr of
      Some e \<Rightarrow> \<exists>m \<in> set modules. e \<in> set (extable m) \<and> insn e = addr
    | None \<Rightarrow> \<forall>m \<in> set modules. \<forall>e \<in> set (extable m). insn e \<noteq> addr"
  using assms
proof (induction modules)
  case (Cons m modules)
  then show ?case using search_extable_iff [of "extable m" addr] by (auto split: option.splits)
qed simp

section \<open>Trimming\<close>

lemma trim_beginning_drop:
  "\<exists>k. trim_beginning m table = drop k table \<and> (\<forall>e \<in> set (take k table). within_module_init (insn e) m)"
proof (induction table)
  case (Cons e table)
  then obtain k where k: "trim_beginning m table = drop k table"
    "\<forall>e \<in> set (take k table). within_module_init (insn e) m"
    by blast
  show ?case
  proof (cases "within_module_init (insn e) m")
    case True
    with k show ?thesis by (intro exI [of _ "Suc k"]) simp
  next
    case False
    then show ?thesis by (intro exI [of _ 0]) simp
  qed
qed simp

lemma trim_end_append:
  "\<exists>t. table = trim_end m table @ t \<and> (\<forall>e \<in> set t. within_module_init (insn e) m)"
proof (induction m table rule: trim_end.induct)
  case (1 m table)
  show ?case
  proof (cases "table \<noteq> [] \<and> within_module_init (insn (last table)) m")
    case True
    then obtain t where t: "butlast table = trim_end m (butlast table) @ t"
      "\<forall>e \<in> set t. within_module_init (insn e) m" using 1 by blast
    moreover have "table = butlast table @ [last table]" using True by simp
    ultimately have "table = trim_end m (butlast table) @ (t @ [last table])" by (metis append_assoc)
    moreover have "trim_end m table = trim_end m (butlast table)" using True by (subst trim_end.simps) simp
    ultimately show ?thesis using t(2) True by (intro exI [of _ "t @ [last table]"]) auto
  next
    case False
    then have "trim_end m table = table" by (subst trim_end.simps) auto
    then show ?thesis by (intro exI [of _ "[]"]) simp
  qed
qed

lemma trim_init_extable_props:
  "\<exists>s t. extable m = s @ extable (trim_init_extable m) @ t \<and>
    (\<forall>e \<in> set (s @ t). within_module_init (insn e) m)"
proof -
  obtain k where k: "trim_beginning m (extable m) = drop k (extable m)"
    "\<forall>e \<in> set (take k (extable m)). within_module_init (insn e) m" using trim_beginning_drop by blast
  obtain t where t: "drop k (extable m) = trim_end m (drop k (extable m)) @ t"
    "\<forall>e \<in> set t. within_module_init (insn e) m" using trim_end_append by blast
  have "extable m = take k (extable m) @ trim_end m (drop k (extable m)) @ t"
    using t(1) append_take_drop_id [of k "extable m"] by metis
  then show ?thesis using k t(2) by (auto simp: trim_init_extable_def intro!: exI)
qed


section \<open>Fixing up a fault\<close>

definition all_entries :: "exception_table_entry list \<Rightarrow> kmodule list \<Rightarrow> exception_table_entry list" where
  "all_entries table modules = table @ concat (map extable modules)"

text \<open>An address with an entry in the kernel's table, or in a module's and outside its init section.\<close>

definition core_entry :: "exception_table_entry list \<Rightarrow> kmodule list \<Rightarrow> u32 \<Rightarrow> bool" where
  "core_entry table modules pc \<longleftrightarrow> pc \<in> set (map insn table) \<or>
     (\<exists>m \<in> set modules. pc \<in> set (map insn (extable m)) \<and> \<not> within_module_init pc m)"

lemma loaded_table:
  defines "t m \<equiv> extable (trim_init_extable (load_extable m))"
  shows "sorted_table (t m)" "set (t m) \<subseteq> set (extable m)"
    "e \<in> set (extable m) \<Longrightarrow> \<not> within_module_init (insn e) m \<Longrightarrow> e \<in> set (t m)"
proof -
  have w: "within_module_init a (load_extable m) = within_module_init a m" for a
    by (simp add: within_module_init_def load_extable_def)
  obtain s u where su: "extable (load_extable m) = s @ t m @ u"
    "\<forall>e \<in> set (s @ u). within_module_init (insn e) m"
    using trim_init_extable_props [of "load_extable m"] unfolding t_def w by blast
  have x: "sorted_table (s @ t m @ u)" "mset (s @ t m @ u) = mset (extable m)"
    using sort_extable_props [of "extable m"] unfolding su(1) [symmetric] by (simp_all add: load_extable_def)
  then show "sorted_table (t m)" by (auto simp: sorted_append)
  have "set (s @ t m @ u) = set (extable m)" using x(2) by (metis set_mset_mset)
  then show "set (t m) \<subseteq> set (extable m)"
    and "e \<in> set (extable m) \<Longrightarrow> \<not> within_module_init (insn e) m \<Longrightarrow> e \<in> set (t m)"
    using su(2) by auto
qed

text \<open>C39.  Fixing up a fault.  With the kernel's table sorted at boot, and the tables of the modules sorted
  when they were loaded and trimmed after their init functions ran, \<open>fixup_exception\<close> returns true only by
  moving the program counter to the fixup address of an entry for the faulting instruction, and returns
  false, leaving the program counter, only if the instruction has no entry in the kernel's table and none
  in a module's outside its init section: sorting and trimming lose no entry that can still be needed.\<close>

theorem fixup_exception_finds:
  "case fixup_exception (sort_main_extable table) (map (trim_init_extable \<circ> load_extable) modules) pc of
     (True, pc') \<Rightarrow> \<exists>e. e \<in> set (all_entries table modules) \<and> insn e = pc \<and> fixup e = pc'
   | (False, pc') \<Rightarrow> pc' = pc \<and> \<not> core_entry table modules pc"
proof -
  let ?main = "sort_main_extable table" and ?mods = "map (trim_init_extable \<circ> load_extable) modules"
  have main: "sorted_table ?main" "set ?main = set table"
    using sort_extable_props(1) [of table] arg_cong [OF sort_extable_props(2) [of table], of set_mset]
    by (simp_all add: sort_main_extable_def)
  note s1 = search_extable_iff [OF main(1), of pc]
  have "\<forall>m \<in> set ?mods. sorted_table (extable m)" using loaded_table(1) by simp
  note s2 = search_module_extables_iff [OF this, of pc]
  show ?thesis
  proof (cases "search_exception_tables ?main ?mods pc")
    case None
    then have "\<forall>e \<in> set table. insn e \<noteq> pc"
      "\<forall>m \<in> set modules. \<forall>e \<in> set (extable (trim_init_extable (load_extable m))). insn e \<noteq> pc"
      using s1 s2 main(2) by (auto simp: search_exception_tables_def split: option.splits)
    then have "\<not> core_entry table modules pc" using loaded_table(3) by (fastforce simp: core_entry_def)
    with None show ?thesis by (simp add: fixup_exception_def)
  next
    case (Some e)
    then have "insn e = pc" "e \<in> set table \<or> (\<exists>m \<in> set modules. e \<in> set (extable (trim_init_extable (load_extable m))))"
      using s1 s2 main(2) by (auto simp: search_exception_tables_def split: option.splits)
    moreover have "e \<in> set (all_entries table modules)"
      using calculation(2) loaded_table(2) by (fastforce simp: all_entries_def)
    ultimately have "insn e = pc \<and> e \<in> set (all_entries table modules)" by simp
    with Some show ?thesis by (auto simp: fixup_exception_def)
  qed
qed

end
