(* ===== verification/Calendar.thy ===== *)
theory Calendar
  imports Kernel_Prelude "HOL-Library.Signed_Division"
begin

text \<open>
  Calendar time: the conversions between seconds since 1970 and a Gregorian date of the real-time
  clock library (\<open>drivers/rtc/rtc-lib.c\<close>), of \<open>kernel/time/timeconv.c\<close>, and \<open>mktime\<close> of
  \<open>kernel/time.c\<close>.  An \<open>unsigned int\<close> or \<open>unsigned long\<close> is a 32-bit word, a signed one an \<open>int\<close>;
  the conversions between them are written out.  \<open>None\<close> is an index outside an array or a signed
  overflow.
\<close>

section \<open>The code\<close>

text \<open>\<open>struct tm\<close> of \<open>linux/time.h\<close>, and \<open>struct rtc_time\<close>, which has one more member.\<close>

record tm =
  tm_sec :: int
  tm_min :: int
  tm_hour :: int
  tm_mday :: int
  tm_mon :: int
  tm_year :: int
  tm_wday :: int
  tm_yday :: int

record rtc_time = tm +
  tm_isdst :: int

definition is_leap_year :: "u32 \<Rightarrow> bool" where
  "is_leap_year year \<longleftrightarrow> year mod 4 = 0 \<and> year mod 100 \<noteq> 0 \<or> year mod 400 = 0"

definition rtc_days_in_month :: "int list" where
  "rtc_days_in_month = [31, 28, 31, 30, 31, 30, 31, 31, 30, 31, 30, 31]"

definition rtc_ydays :: "bool \<Rightarrow> u32 list" where
  "rtc_ydays leap =
     (if leap then [0, 31, 60, 91, 121, 152, 182, 213, 244, 274, 305, 335, 366]
      else [0, 31, 59, 90, 120, 151, 181, 212, 243, 273, 304, 334, 365])"

definition LEAPS_THRU_END_OF :: "u32 \<Rightarrow> u32" where
  "LEAPS_THRU_END_OF y = y div 4 - y div 100 + y div 400"

definition rtc_month_days :: "u32 \<Rightarrow> u32 \<Rightarrow> int option" where
  "rtc_month_days month year =
     (case mem_get rtc_days_in_month (unat month) of
        None \<Rightarrow> None
      | Some n \<Rightarrow> Some (n + (if is_leap_year year \<and> month = 1 then 1 else 0)))"

definition rtc_year_days :: "u32 \<Rightarrow> u32 \<Rightarrow> u32 \<Rightarrow> int option" where
  "rtc_year_days day month year =
     (case mem_get (rtc_ydays (is_leap_year year)) (unat month) of
        None \<Rightarrow> None
      | Some n \<Rightarrow> Some (sint (n + day - 1)))"

function rtc_month_loop :: "u32 \<Rightarrow> u32 \<Rightarrow> int \<Rightarrow> (u32 \<times> int) option" where
  "rtc_month_loop year month days =
     (if month < 11 then
        (case rtc_month_days month year of
           None \<Rightarrow> None
         | Some n \<Rightarrow>
             (let newdays = days - n
              in if newdays < 0 then Some (month, days)
                 else rtc_month_loop year (month + 1) newdays))
      else Some (month, days))"
  by pat_completeness auto
termination
  by (relation "measure (\<lambda>(_, month, _). 11 - unat month)")
     (auto simp: word_less_nat_alt unat_word_ariths)

definition rtc_year_of :: "int \<Rightarrow> u32 \<times> int" where
  "rtc_year_of days =
     (let year = 1970 + word_of_int (days sdiv 365);
          days = sint (word_of_int days -
            ((year - 1970) * 365 + LEAPS_THRU_END_OF (year - 1) - LEAPS_THRU_END_OF (1970 - 1)))
      in if days < 0
         then (year - 1, days + 365 + (if is_leap_year (year - 1) then 1 else 0))
         else (year, days))"

definition rtc_time_to_tm :: "u32 \<Rightarrow> rtc_time option" where
  "rtc_time_to_tm time =
     (let days = sint (time div 86400);
          time = time - word_of_int days * 86400;
          wday = (days + 4) smod 7;
          (year, days) = rtc_year_of days;
          yday = days + 1
      in case rtc_month_loop year 0 days of
           None \<Rightarrow> None
         | Some (month, days) \<Rightarrow>
             (let hour = sint (time div 3600);
                  time = time - word_of_int (hour * 3600);
                  minute = sint (time div 60);
                  sec = sint (time - word_of_int (minute * 60))
              in Some \<lparr>tm_sec = sec, tm_min = minute, tm_hour = hour, tm_mday = days + 1,
                       tm_mon = sint month, tm_year = sint (year - 1900), tm_wday = wday,
                       tm_yday = yday, tm_isdst = 0\<rparr>))"

text \<open>The tests of \<open>rtc_valid_tm\<close> in their order; the table is read for the fourth.\<close>

definition rtc_valid_tm :: "'a rtc_time_scheme \<Rightarrow> nat result option" where
  "rtc_valid_tm tm =
     (if tm_year tm < 70 \<or> (word_of_int (tm_mon tm) :: u32) \<ge> 12 \<or> tm_mday tm < 1
      then Some (Inl EINVAL)
      else case rtc_month_days (word_of_int (tm_mon tm)) (word_of_int (tm_year tm + 1900)) of
        None \<Rightarrow> None
      | Some n \<Rightarrow>
          if tm_mday tm > n \<or> (word_of_int (tm_hour tm) :: u32) \<ge> 24 \<or>
             (word_of_int (tm_min tm) :: u32) \<ge> 60 \<or> (word_of_int (tm_sec tm) :: u32) \<ge> 60
          then Some (Inl EINVAL) else Some (Inr 0))"

definition mktime :: "u32 \<Rightarrow> u32 \<Rightarrow> u32 \<Rightarrow> u32 \<Rightarrow> u32 \<Rightarrow> u32 \<Rightarrow> u32" where
  "mktime year0 mon0 day hour minute sec =
     (let mon = mon0 - 2;
          (mon, year) = (if 0 \<ge> sint mon then (mon + 12, year0 - 1) else (mon, year0))
      in (((year div 4 - year div 100 + year div 400 + 367 * mon div 12 + day + year * 365 - 719499) * 24
           + hour) * 60 + minute) * 60 + sec)"

definition rtc_tm_to_time :: "'a rtc_time_scheme \<Rightarrow> u32" where
  "rtc_tm_to_time tm =
     mktime (word_of_int (tm_year tm + 1900)) (word_of_int (tm_mon tm + 1)) (word_of_int (tm_mday tm))
       (word_of_int (tm_hour tm)) (word_of_int (tm_min tm)) (word_of_int (tm_sec tm))"

text \<open>\<open>kernel/time/timeconv.c\<close>.  The \<open>while\<close> loops are recursive functions.\<close>

definition raw_isleap :: "int \<Rightarrow> bool" where
  "raw_isleap year \<longleftrightarrow> year smod 4 = 0 \<and> (year smod 100 \<noteq> 0 \<or> year smod 400 = 0)"

definition math_div :: "int \<Rightarrow> int \<Rightarrow> int" where
  "math_div a b = a sdiv b - (if a smod b < 0 then 1 else 0)"

definition leaps_between :: "int \<Rightarrow> int \<Rightarrow> int" where
  "leaps_between y1 y2 =
     (let leaps1 = math_div (y1 - 1) 4 - math_div (y1 - 1) 100 + math_div (y1 - 1) 400;
          leaps2 = math_div (y2 - 1) 4 - math_div (y2 - 1) 100 + math_div (y2 - 1) 400
      in leaps2 - leaps1)"

definition raw_mon_yday :: "bool \<Rightarrow> int list" where
  "raw_mon_yday leap =
     (if leap then [0, 31, 60, 91, 121, 152, 182, 213, 244, 274, 305, 335, 366]
      else [0, 31, 59, 90, 120, 151, 181, 212, 243, 273, 304, 334, 365])"

function borrow_days :: "int \<Rightarrow> int \<Rightarrow> int \<times> int" where
  "borrow_days rem days = (if rem < 0 then borrow_days (rem + 86400) (days - 1) else (rem, days))"
  by pat_completeness auto
termination by (relation "measure (\<lambda>(rem, _). nat (- rem))") auto

function carry_days :: "int \<Rightarrow> int \<Rightarrow> int \<times> int" where
  "carry_days rem days = (if rem \<ge> 86400 then carry_days (rem - 86400) (days + 1) else (rem, days))"
  by pat_completeness auto
termination by (relation "measure (\<lambda>(rem, _). nat rem)") auto


text \<open>The scan of the table from December down: None is the index below the first.\<close>

fun month_down :: "int list \<Rightarrow> int \<Rightarrow> nat \<Rightarrow> nat option" where
  "month_down ip days 0 = (if days < ip ! 0 then None else Some 0)"
| "month_down ip days (Suc y) = (if days < ip ! Suc y then month_down ip days y else Some (Suc y))"

definition fits_long :: "int \<Rightarrow> bool" where
  "fits_long x \<longleftrightarrow> - (2 ^ 31) \<le> x \<and> x < 2 ^ 31"

section \<open>The Gregorian calendar\<close>

text \<open>
  The reference: leap years, the lengths of years and months, and the number of a day relative to
  1 January 1970.  The first day of a year is given in closed form; the two lemmas after it say that
  it is 0 for 1970 and that consecutive years are a year's length apart.  Months count from 0.
\<close>

definition leap :: "int \<Rightarrow> bool" where
  "leap y \<longleftrightarrow> 4 dvd y \<and> \<not> 100 dvd y \<or> 400 dvd y"

definition year_length :: "int \<Rightarrow> int" where
  "year_length y = (if leap y then 366 else 365)"

definition leap_days :: "int \<Rightarrow> int" where
  "leap_days y = (y - 1) div 4 - (y - 1) div 100 + (y - 1) div 400"

definition jan1 :: "int \<Rightarrow> int" where
  "jan1 y = 365 * (y - 1970) + leap_days y - leap_days 1970"

definition month_length :: "int \<Rightarrow> nat \<Rightarrow> int" where
  "month_length y m = [31, if leap y then 29 else 28, 31, 30, 31, 30, 31, 31, 30, 31, 30, 31] ! m"

definition days_before :: "int \<Rightarrow> nat \<Rightarrow> int" where
  "days_before y m = sum_list (map (month_length y) [0..<m])"

definition day_number :: "int \<Rightarrow> nat \<Rightarrow> int \<Rightarrow> int" where
  "day_number y m d = jan1 y + days_before y m + d - 1"

definition civil_ok :: "'a tm_scheme \<Rightarrow> bool" where
  "civil_ok t \<longleftrightarrow> 0 \<le> tm_mon t \<and> tm_mon t < 12 \<and> 1 \<le> tm_mday t \<and>
     tm_mday t \<le> month_length (tm_year t + 1900) (nat (tm_mon t)) \<and>
     0 \<le> tm_hour t \<and> tm_hour t < 24 \<and> 0 \<le> tm_min t \<and> tm_min t < 60 \<and> 0 \<le> tm_sec t \<and> tm_sec t < 60"

definition civil_day :: "'a tm_scheme \<Rightarrow> int" where
  "civil_day t = day_number (tm_year t + 1900) (nat (tm_mon t)) (tm_mday t)"

definition civil_seconds :: "'a tm_scheme \<Rightarrow> int" where
  "civil_seconds t = ((civil_day t * 24 + tm_hour t) * 60 + tm_min t) * 60 + tm_sec t"

lemma div_step: "0 < k \<Longrightarrow> y div k = (y - 1) div k + (if k dvd y then 1 else (0 :: int))"
proof -
  assume k: "0 < k"
  obtain q r where y: "y = k * q + r" "0 \<le> r" "r < k"
    using k by (metis mult_div_mod_eq pos_mod_bound pos_mod_sign)
  have d: "y div k = q" using y k by (simp add: div_pos_pos_trivial)
  show ?thesis
  proof (cases "r = 0")
    case True
    then have "(y - 1) div k = q - 1"
      using k y by (intro int_div_pos_eq [where r = "k - 1"]) (auto simp: algebra_simps)
    then show ?thesis using True y d by simp
  next
    case False
    then have "(y - 1) div k = q"
      using k y by (intro int_div_pos_eq [where r = "r - 1"]) auto
    moreover have "\<not> k dvd y" using False y by (auto simp: dvd_add_right_iff zdvd_not_zless)
    ultimately show ?thesis using d by simp
  qed
qed

lemma leap_days_step: "leap_days (y + 1) = leap_days y + (if leap y then 1 else 0)"
proof -
  let ?i = "\<lambda>k. if k dvd y then 1 else 0 :: int"
  have "leap_days (y + 1) = y div 4 - y div 100 + y div 400" by (simp add: leap_days_def)
  also have "\<dots> = leap_days y + (?i 4 - ?i 100 + ?i 400)"
    using div_step [of 4 y] div_step [of 100 y] div_step [of 400 y] by (simp only: leap_days_def)
  also have "?i 4 - ?i 100 + ?i 400 = (if leap y then 1 else 0)"
    using dvd_trans [of 4 100 y] dvd_trans [of 100 400 y] by (auto simp: leap_def)
  finally show ?thesis .
qed

lemma jan1_epoch: "jan1 1970 = 0"
  by (simp add: jan1_def)

lemma jan1_step: "jan1 (y + 1) = jan1 y + year_length y"
  by (simp add: jan1_def leap_days_step year_length_def)

lemma leap_days_bounds:
  "leap_days y \<le> leap_days (y + int n) \<and> leap_days (y + int n) \<le> leap_days y + int n"
proof (induction n)
  case (Suc n)
  then show ?case using leap_days_step [of "y + int n"] by (auto simp: algebra_simps split: if_splits)
qed simp

lemma leap_days_diff:
  assumes "a \<le> b"
  shows "leap_days a \<le> leap_days b" "leap_days b \<le> leap_days a + (b - a)"
  using leap_days_bounds [of a "nat (b - a)"] assms by simp_all

lemma jan1_mono: "y < z \<Longrightarrow> jan1 y + year_length y \<le> jan1 z"
  using leap_days_diff(1) [of "y + 1" z] jan1_step [of y] by (simp add: jan1_def)

lemma jan1_unique:
  assumes "jan1 y + d = jan1 z + e" "0 \<le> d" "d < year_length y" "0 \<le> e" "e < year_length z"
  shows "y = z \<and> d = e"
  using jan1_mono [of y z] jan1_mono [of z y] assms by (cases y z rule: linorder_cases) auto

lemma month_cases: "m < 12 \<Longrightarrow> m \<in> {0, 1, 2, 3, 4, 5, 6, 7, 8, 9, 10, 11 :: nat}"
  by (simp add: eval_nat_numeral less_Suc_eq)

lemma days_before_Suc: "days_before y (Suc m) = days_before y m + month_length y m"
  by (simp add: days_before_def)

lemma days_before_table: "m \<le> 12 \<Longrightarrow> days_before y m = raw_mon_yday (leap y) ! m"
proof (induction m)
  case 0
  show ?case by (simp add: days_before_def raw_mon_yday_def)
next
  case (Suc m)
  then have "month_length y m = raw_mon_yday (leap y) ! Suc m - raw_mon_yday (leap y) ! m"
    using month_cases [of m] by (auto simp: month_length_def raw_mon_yday_def)
  with Suc show ?case by (simp add: days_before_Suc)
qed

lemma month_length_pos: "m < 12 \<Longrightarrow> 28 \<le> month_length y m"
  by (drule month_cases) (auto simp: month_length_def)

lemma days_before_mono: "m \<le> n \<Longrightarrow> n \<le> 12 \<Longrightarrow> days_before y m \<le> days_before y n"
proof (induction n)
  case (Suc n)
  then show ?case using month_length_pos [of n y] by (cases "m = Suc n") (auto simp: days_before_Suc)
qed simp

lemma days_before_year: "days_before y 12 = year_length y"
  by (simp add: days_before_table raw_mon_yday_def year_length_def)

lemma month_unique:
  assumes "days_before y m + d = days_before y n + e" "m < 12" "n < 12"
    "0 \<le> d" "d < month_length y m" "0 \<le> e" "e < month_length y n"
  shows "m = n \<and> d = e"
  using assms days_before_mono [of "Suc m" n y] days_before_mono [of "Suc n" m y]
  by (cases m n rule: linorder_cases) (auto simp: days_before_Suc)


section \<open>The search for the year ends\<close>

lemma c_division:
  assumes "0 \<le> a" "0 < (b :: int)"
  shows "a sdiv b = a div b" "a smod b = a mod b"
  using assms by (cases "a = 0"; simp add: signed_divide_int_def signed_modulo_int_def)+

lemma math_div_floor: "0 < b \<Longrightarrow> math_div a b = a div b"
proof (cases "0 \<le> a")
  case False
  assume b: "0 < b"
  have "a sdiv b = - (- a div b)" "a smod b = - (- a mod b)"
    using c_division [of "- a" b] False b by simp_all
  moreover have "- a mod b \<noteq> 0 \<Longrightarrow> 0 < - a mod b" using b pos_mod_sign [of b "- a"] by linarith
  ultimately show ?thesis
    using b zdiv_zminus1_eq_if [of b "- a"] by (auto simp: math_div_def)
next
  case True
  assume "0 < b"
  then show ?thesis using True by (simp add: math_div_def c_division not_less)
qed

lemma smod_zero_iff: "a smod b = 0 \<longleftrightarrow> b dvd (a :: int)"
  by (auto simp: signed_modulo_int_def sgn_eq_0_iff mod_eq_0_iff_dvd)

lemma raw_isleap_leap: "raw_isleap y = leap y"
  using dvd_trans [of 4 100 y] dvd_trans [of 100 400 y] by (auto simp: raw_isleap_def leap_def smod_zero_iff)

lemma leaps_between_eq: "leaps_between y1 y2 = leap_days y2 - leap_days y1"
  by (simp add: leaps_between_def leap_days_def math_div_floor)

text \<open>
  The measure of the search: a day before the guessed year counts 400 more than its distance, because
  the next guess may land that far behind the start of a year.
\<close>

definition year_distance :: "int \<Rightarrow> nat" where
  "year_distance days = nat (if days < 0 then 400 - days else days)"

lemma year_distance_less:
  assumes "days < 0 \<or> days \<ge> (if leap y then 366 else 365)" "q = days div 365"
  shows "year_distance (days - (q * 365 + (leap_days (y + q) - leap_days y))) < year_distance days"
proof -
  define r where "r = days mod 365"
  have d: "days = 365 * q + r" "0 \<le> r" "r < 365" by (simp_all add: r_def assms(2))
  define l where "l = leap_days (y + q) - leap_days y"
  have one: "q = 1 \<Longrightarrow> l = (if leap y then 1 else 0)" using leap_days_step [of y] by (simp add: l_def)
  have up: "0 \<le> q \<Longrightarrow> 0 \<le> l \<and> l \<le> q" using leap_days_diff [of y "y + q"] by (simp add: l_def)
  have dn: "q \<le> 0 \<Longrightarrow> q \<le> l \<and> l \<le> 0" using leap_days_diff [of "y + q" y] by (simp add: l_def)
  have "year_distance (r - l) < year_distance days"
  proof (cases "days < 0")
    case True
    then have "q \<le> - 1" using d by linarith
    then show ?thesis using d dn True by (simp add: year_distance_def)
  next
    case False
    then have "1 \<le> q" using d assms(1) by (auto split: if_splits)
    then show ?thesis using d up one False assms(1)
      by (cases "q = 1") (auto simp: year_distance_def split: if_splits)
  qed
  moreover have "days - (q * 365 + l) = r - l" using d by simp
  ultimately show ?thesis by (simp only: l_def)
qed

function year_loop :: "int \<Rightarrow> int \<Rightarrow> int \<times> int" where
  "year_loop y days =
     (if days < 0 \<or> days \<ge> (if raw_isleap y then 366 else 365) then
        (let yg = y + math_div days 365
         in year_loop yg (days - ((yg - y) * 365 + leaps_between y yg)))
      else (y, days))"
  by pat_completeness auto
termination
proof (relation "measure (\<lambda>(_, days). year_distance days)")
  fix y days yg :: int
  assume c: "days < 0 \<or> days \<ge> (if raw_isleap y then 366 else 365)" and yg: "yg = y + math_div days 365"
  show "((yg, days - ((yg - y) * 365 + leaps_between y yg)), y, days) \<in> measure (\<lambda>(_, days). year_distance days)"
    using year_distance_less [OF c [unfolded raw_isleap_leap], of "days div 365"]
    by (simp add: yg math_div_floor leaps_between_eq)
qed simp

declare borrow_days.simps [simp del] carry_days.simps [simp del] year_loop.simps [simp del]

definition time_to_tm :: "int \<Rightarrow> int \<Rightarrow> tm option" where
  "time_to_tm totalsecs offset =
     (let days = totalsecs sdiv 86400;
          rem = totalsecs smod 86400 + offset
      in if \<not> fits_long rem then None
         else
           (let (rem, days) = borrow_days rem days;
                (rem, days) = carry_days rem days;
                hour = rem sdiv 3600;
                rem = rem smod 3600;
                minute = rem sdiv 60;
                sec = rem smod 60;
                wday = (4 + days) smod 7;
                wday = (if wday < 0 then wday + 7 else wday);
                (y, days) = year_loop 1970 days;
                ip = raw_mon_yday (raw_isleap y)
            in case month_down ip days 11 of
                 None \<Rightarrow> None
               | Some mon \<Rightarrow>
                   Some \<lparr>tm_sec = sec, tm_min = minute, tm_hour = hour, tm_mday = days - ip ! mon + 1,
                         tm_mon = int mon, tm_year = y - 1900, tm_wday = wday, tm_yday = days\<rparr>))"

lemma year_loop_correct:
  "year_loop y days = (z, d) \<Longrightarrow> jan1 z + d = jan1 y + days \<and> 0 \<le> d \<and> d < year_length z"
proof (induction y days arbitrary: z d rule: year_loop.induct)
  case (1 y days)
  show ?case
  proof (cases "days < 0 \<or> days \<ge> (if raw_isleap y then 366 else 365)")
    case True
    define yg where "yg = y + math_div days 365"
    have "year_loop yg (days - ((yg - y) * 365 + leaps_between y yg)) = (z, d)"
      using "1.prems" True by (subst (asm) year_loop.simps) (simp add: yg_def Let_def)
    from "1.IH" [OF True yg_def this] show ?thesis
      by (simp add: jan1_def leaps_between_eq algebra_simps)
  next
    case False
    then have "z = y" "d = days" using "1.prems" by (subst (asm) year_loop.simps; auto)+
    then show ?thesis using False by (auto simp: year_length_def raw_isleap_leap split: if_splits)
  qed
qed


section \<open>Seconds to a date: \<open>time_to_tm\<close>\<close>

lemma borrow_days_total:
  "borrow_days rem days = (r, d) \<Longrightarrow>
     d * 86400 + r = days * 86400 + rem \<and> 0 \<le> r \<and> (rem < 0 \<longrightarrow> r < 86400) \<and> (0 \<le> rem \<longrightarrow> r = rem)"
proof (induction rem days arbitrary: r d rule: borrow_days.induct)
  case (1 rem days)
  then show ?case by (cases "rem < 0") (auto simp: borrow_days.simps [of rem days])
qed

lemma carry_days_total:
  "carry_days rem days = (r, d) \<Longrightarrow> 0 \<le> rem \<Longrightarrow>
     d * 86400 + r = days * 86400 + rem \<and> 0 \<le> r \<and> r < 86400"
proof (induction rem days arbitrary: r d rule: carry_days.induct)
  case (1 rem days)
  then show ?case by (cases "rem \<ge> 86400") (auto simp: carry_days.simps [of rem days])
qed

lemma month_down_finds:
  "ip ! 0 \<le> days \<Longrightarrow> \<exists>m \<le> n. month_down ip days n = Some m \<and> ip ! m \<le> days \<and> (m < n \<longrightarrow> days < ip ! Suc m)"
proof (induction n)
  case (Suc n)
  show ?case
  proof (cases "days < ip ! Suc n")
    case True
    then obtain m where "m \<le> n" "month_down ip days n = Some m" "ip ! m \<le> days" "m < n \<longrightarrow> days < ip ! Suc m"
      using Suc by blast
    then show ?thesis using True by (intro exI [of _ m]) (cases "m = n"; simp)
  qed auto
qed simp

lemma month_down_days:
  assumes "0 \<le> days" "days < year_length y"
  shows "\<exists>m < 12. month_down (raw_mon_yday (leap y)) days 11 = Some m \<and> days_before y m \<le> days \<and>
    days < days_before y m + month_length y m"
proof -
  let ?ip = "raw_mon_yday (leap y)"
  have "?ip ! 0 \<le> days" using assms(1) by (simp add: raw_mon_yday_def)
  from month_down_finds [OF this, of 11] obtain m where m: "m \<le> 11" "month_down ?ip days 11 = Some m"
    "?ip ! m \<le> days" "m < 11 \<longrightarrow> days < ?ip ! Suc m" by blast
  have "days < days_before y (Suc m)"
  proof (cases "m = 11")
    case True
    then show ?thesis using assms(2) days_before_year [of y] by (simp add: eval_nat_numeral)
  next
    case False
    then show ?thesis using m days_before_table [of "Suc m" y] by simp
  qed
  then show ?thesis
    using m days_before_table [of m y] by (intro exI [of _ m]) (simp add: days_before_Suc)
qed

lemma clock_split:
  assumes "0 \<le> rem" "rem < (86400 :: int)"
  obtains h m c where "rem div 3600 = h" "rem mod 3600 div 60 = m" "rem mod 3600 mod 60 = c"
    "rem sdiv 3600 = h" "rem smod 3600 sdiv 60 = m" "rem smod 3600 smod 60 = c"
    "0 \<le> h" "h < 24" "0 \<le> m" "m < 60" "0 \<le> c" "c < 60" "(h * 60 + m) * 60 + c = rem"
proof -
  define h r where hr: "h = rem div 3600" "r = rem mod 3600"
  have r: "0 \<le> r" "r < 3600" "rem = 3600 * h + r" by (simp_all add: hr)
  define m c where mc: "m = r div 60" "c = r mod 60"
  have c: "0 \<le> c" "c < 60" "r = 60 * m + c" by (simp_all add: mc)
  have s: "rem sdiv 3600 = h" "rem smod 3600 = r" "r sdiv 60 = m" "r smod 60 = c"
    using assms r(1) by (simp_all add: c_division hr mc)
  have b: "h < 24" "m < 60" "0 \<le> h" "0 \<le> m" using assms r c by linarith+
  have t: "(h * 60 + m) * 60 + c = rem" unfolding r(3) c(3) by simp
  show thesis
    using that [OF hr(1) [symmetric] _ _ s(1) _ _ b(3,1,4,2) c(1,2) t] s(2-4)
    by (simp add: hr(2) [symmetric] mc [symmetric])
qed

lemma weekday_mod:
  assumes "0 < b"
  shows "(let w = a smod b in if w < 0 then w + b else w) = a mod (b :: int)"
proof (cases "0 \<le> a")
  case True
  then show ?thesis using assms c_division(2) [of a b] pos_mod_sign [of b a] by (simp add: Let_def not_less)
next
  case False
  then have s: "a smod b = - (- a mod b)" using assms c_division(2) [of "- a" b] by simp
  have p: "0 \<le> - a mod b" using assms by simp
  show ?thesis using zmod_zminus1_eq_if [of "- a" b] p by (auto simp: s Let_def)
qed

lemma time_to_tm_fault: "\<not> fits_long (totalsecs smod 86400 + offset) \<Longrightarrow> time_to_tm totalsecs offset = None"
  by (simp add: time_to_tm_def)

lemma time_to_tm_spec:
  assumes "fits_long (totalsecs smod 86400 + offset)"
  shows "\<exists>t. time_to_tm totalsecs offset = Some t \<and> civil_ok t \<and> civil_seconds t = totalsecs + offset \<and>
    tm_wday t = (4 + civil_day t) mod 7 \<and> tm_yday t = civil_day t - jan1 (tm_year t + 1900)"
proof -
  define rem0 where "rem0 = totalsecs smod 86400 + offset"
  obtain r1 d1 where b: "borrow_days rem0 (totalsecs sdiv 86400) = (r1, d1)" by fastforce
  obtain rem days where c: "carry_days r1 d1 = (rem, days)" by fastforce
  have tot: "days * 86400 + rem = totalsecs + offset" "0 \<le> rem" "rem < 86400"
    using borrow_days_total [OF b] carry_days_total [OF c] mult_sdiv_smod_eq [of 86400 totalsecs]
    by (simp_all add: rem0_def)
  obtain y d where y: "year_loop 1970 days = (y, d)" by fastforce
  note yl = year_loop_correct [OF y]
  obtain m where m: "m < 12" "month_down (raw_mon_yday (leap y)) d 11 = Some m" "days_before y m \<le> d"
    "d < days_before y m + month_length y m" using month_down_days [of d y] yl by blast
  have ip: "raw_mon_yday (leap y) ! m = days_before y m" using days_before_table [of m y] m(1) by simp
  obtain h mi c where cs: "rem sdiv 3600 = h" "rem smod 3600 sdiv 60 = mi" "rem smod 3600 smod 60 = c"
    "0 \<le> h" "h < 24" "0 \<le> mi" "mi < 60" "0 \<le> c" "c < 60" "(h * 60 + mi) * 60 + c = rem"
    using clock_split [OF tot(2,3)] by metis
  obtain w where w: "w = (4 + days) mod 7" by blast
  let ?t = "\<lparr>tm_sec = c, tm_min = mi, tm_hour = h, tm_mday = d - days_before y m + 1, tm_mon = int m,
    tm_year = y - 1900, tm_wday = w, tm_yday = d\<rparr>"
  have "time_to_tm totalsecs offset = Some ?t"
    using assms m(2) weekday_mod [of 7 "4 + days"]
    by (simp add: time_to_tm_def rem0_def [symmetric] b c y raw_isleap_leap ip cs(1-3) Let_def w)
  moreover have day: "civil_day ?t = days" using yl m by (simp add: civil_day_def day_number_def jan1_epoch)
  moreover have "civil_ok ?t" using m cs by (simp add: civil_ok_def)
  moreover have "civil_seconds ?t = totalsecs + offset"
    using cs(10) tot(1) by (simp add: civil_seconds_def day)
  moreover have "d = days - jan1 y" using yl by (simp add: jan1_epoch)
  ultimately show ?thesis using w by (intro exI [of _ ?t]) simp
qed

end
