(* ===== verification/Calendar_Props.thy ===== *)
theory Calendar_Props
  imports Calendar
begin

text \<open>
  What the conversions of \<open>Calendar\<close> compute: the real-time clock library against the Gregorian
  reference, validity, and the round trips.
\<close>

section \<open>Words that hold small integers\<close>

lemma uint_small: "0 \<le> x \<Longrightarrow> x < 2 ^ 32 \<Longrightarrow> uint (word_of_int x :: u32) = x"
  by (simp add: uint_word_of_int_eq take_bit_int_eq_self)

lemma sint_small: "fits_long x \<Longrightarrow> sint (word_of_int x :: u32) = x"
  by (simp add: fits_long_def sint_sbintrunc' signed_take_bit_int_eq_self)

lemma word_div_small:
  "0 \<le> x \<Longrightarrow> x < 2 ^ 32 \<Longrightarrow> 0 \<le> k \<Longrightarrow> k < 2 ^ 32 \<Longrightarrow>
     (word_of_int x :: u32) div word_of_int k = word_of_int (x div k)"
  by (simp add: word_div_def uint_small)

lemma word_ge_small:
  assumes "fits_long x" "0 \<le> n" "n < 2 ^ 31"
  shows "word_of_int n \<le> (word_of_int x :: u32) \<longleftrightarrow> x < 0 \<or> n \<le> x"
proof -
  have "uint (word_of_int x :: u32) = (if x < 0 then x + 2 ^ 32 else x)"
  proof (cases "x < 0")
    case True
    have "x mod 2 ^ 32 = x + 2 ^ 32"
      using True assms(1) by (intro int_mod_pos_eq [where q = "- 1"]) (auto simp: fits_long_def)
    then show ?thesis using True by (simp add: uint_word_of_int)
  qed (use assms(1) in \<open>simp add: uint_small fits_long_def\<close>)
  moreover have "uint (word_of_int n :: u32) = n" using assms by (simp add: uint_small)
  ultimately show ?thesis using assms by (auto simp: word_le_def fits_long_def)
qed

lemma is_leap_year_word:
  assumes "0 \<le> y" "y < 2 ^ 32"
  shows "is_leap_year (word_of_int y) = leap y"
proof -
  have "(word_of_int y :: u32) mod word_of_int k = 0 \<longleftrightarrow> k dvd y" if "0 < k" "k < 2 ^ 32" for k
  proof -
    have "(word_of_int y :: u32) mod word_of_int k = word_of_int (y mod k)"
      using assms that by (simp add: word_mod_def uint_small)
    moreover have "0 \<le> y mod k" "y mod k < 2 ^ 32" using that pos_mod_bound [of k y] by (simp, linarith)
    ultimately show ?thesis
      using uint_small [of "y mod k"] by (auto simp: word_uint_eq_iff dvd_eq_mod_eq_0)
  qed
  from this [of 4] this [of 100] this [of 400] show ?thesis
    by (auto simp: is_leap_year_def leap_def)
qed

lemma leaps_word:
  assumes "0 \<le> y" "y < 2 ^ 32"
  shows "LEAPS_THRU_END_OF (word_of_int y) = word_of_int (leap_days (y + 1))"
  using assms word_div_small [of y 4] word_div_small [of y 100] word_div_small [of y 400]
  by (simp add: LEAPS_THRU_END_OF_def leap_days_def)

section \<open>The date of a day\<close>

lemma rtc_month_days_word:
  assumes "0 \<le> y" "y < 2 ^ 32" "m < 12"
  shows "rtc_month_days (of_nat m) (word_of_int y) = Some (month_length y m)"
proof -
  have "unat (of_nat m :: u32) = m" using assms(3) by (simp add: unat_of_nat)
  moreover have "(of_nat m :: u32) = 1 \<longleftrightarrow> m = 1"
    using month_cases [OF assms(3)] by auto
  ultimately show ?thesis
    using month_cases [OF assms(3)] is_leap_year_word [OF assms(1,2)]
    by (auto simp: rtc_month_days_def mem_get_def rtc_days_in_month_def month_length_def)
qed

lemma rtc_year_of_day:
  assumes "0 \<le> days" "days < 50000"
  obtains y d where "rtc_year_of days = (word_of_int y, d)" "jan1 y + d = days" "0 \<le> d"
    "d < year_length y" "1970 \<le> y" "y \<le> 2107"
proof -
  define q r where qr: "q = days div 365" "r = days mod 365"
  have d: "days = 365 * q + r" "0 \<le> r" "r < 365" by (simp_all add: qr)
  have q: "0 \<le> q" "q \<le> 137" using d assms by linarith+
  define l where "l = leap_days (1970 + q) - leap_days 1970"
  have l: "0 \<le> l" "l \<le> q" using leap_days_diff [of 1970 "1970 + q"] q by (simp_all add: l_def)
  have sd: "days sdiv 365 = q" using assms by (simp add: c_division qr)
  have lw: "LEAPS_THRU_END_OF (word_of_int (1970 + q) - 1) = word_of_int (leap_days (1970 + q))"
    "LEAPS_THRU_END_OF (1970 - 1) = word_of_int (leap_days 1970)"
    using leaps_word [of "1969 + q"] leaps_word [of 1969] q by (simp_all add: algebra_simps)
  have "sint (word_of_int days - ((word_of_int (1970 + q) - 1970) * 365 +
      LEAPS_THRU_END_OF (word_of_int (1970 + q) - 1) - LEAPS_THRU_END_OF (1970 - 1)) :: u32) =
      sint (word_of_int (r - l) :: u32)"
    unfolding lw by (simp add: d(1) l_def algebra_simps)
  also have "\<dots> = r - l" using d l q by (intro sint_small) (simp add: fits_long_def)
  finally have "rtc_year_of days = (if r - l < 0
      then (word_of_int (1969 + q), r - l + year_length (1969 + q)) else (word_of_int (1970 + q), r - l))"
    using is_leap_year_word [of "1969 + q"] q
    by (simp add: rtc_year_of_def sd Let_def year_length_def algebra_simps)
  moreover have "jan1 (1970 + q) + (r - l) = days" by (simp add: jan1_def l_def d(1))
  moreover have "jan1 (1970 + q) = jan1 (1969 + q) + year_length (1969 + q)"
    using jan1_step [of "1969 + q"] by (simp add: algebra_simps)
  moreover have "0 < q" if "r - l < 0" using that d l by linarith
  ultimately show thesis
    using that [of "1970 + q" "r - l"] that [of "1969 + q" "r - l + year_length (1969 + q)"] d l q
    by (cases "r - l < 0") (auto simp: year_length_def split: if_splits)
qed

declare rtc_month_loop.simps [simp del]

lemma rtc_month_loop_day:
  assumes "0 \<le> y" "y < 2 ^ 32" "m < 12" "0 \<le> days" "days_before y m + days < year_length y"
  shows "\<exists>n e. rtc_month_loop (word_of_int y) (of_nat m) days = Some (of_nat n, e) \<and>
    n < 12 \<and> days_before y m + days = days_before y n + e \<and> 0 \<le> e \<and> e < month_length y n"
  using assms(3-5)
proof (induction "11 - m" arbitrary: m days)
  case 0
  then have m: "m = 11" by simp
  have "days < month_length y 11"
    using "0.prems" days_before_Suc [of y 11] days_before_year [of y] by (simp add: m)
  then show ?case using "0.prems"
    by (intro exI [of _ 11] exI [of _ days]) (simp add: m rtc_month_loop.simps [of _ 11])
next
  case (Suc k)
  have lt: "(of_nat m :: u32) < 11"
    using Suc.hyps(2) by (simp add: word_less_nat_alt unat_of_nat)
  have suc: "(of_nat m :: u32) + 1 = of_nat (Suc m)" by simp
  note step = rtc_month_loop.simps [of "word_of_int y" "of_nat m" days]
    rtc_month_days_word [OF assms(1,2) Suc.prems(1)]
  show ?case
  proof (cases "days - month_length y m < 0")
    case True
    then show ?thesis using lt Suc.prems by (intro exI [of _ m] exI [of _ days]) (simp add: step Let_def)
  next
    case False
    have "\<exists>n e. rtc_month_loop (word_of_int y) (of_nat (Suc m)) (days - month_length y m) =
        Some (of_nat n, e) \<and> n < 12 \<and>
        days_before y (Suc m) + (days - month_length y m) = days_before y n + e \<and> 0 \<le> e \<and> e < month_length y n"
      using Suc.hyps(2) Suc.prems False by (intro Suc.hyps(1)) (auto simp: days_before_Suc)
    then show ?thesis using lt False suc by (simp only: step days_before_Suc) (simp add: Let_def)
  qed
qed


section \<open>The real-time clock library\<close>

lemma rtc_time_to_tm_spec:
  "\<exists>t. rtc_time_to_tm time = Some t \<and> civil_ok t \<and> civil_seconds t = uint time \<and> 70 \<le> tm_year t \<and>
     tm_year t \<le> 207 \<and> tm_wday t = (4 + civil_day t) mod 7 \<and>
     tm_yday t = civil_day t - jan1 (tm_year t + 1900) + 1"
proof -
  obtain T where T: "time = word_of_int T" "0 \<le> T" "T < 2 ^ 32"
    by (rule that [of "uint time"]) (use unsigned_less [of time, where 'a = int] in simp_all)
  define D S where DS: "D = T div 86400" "S = T mod 86400"
  have d: "T = 86400 * D + S" "0 \<le> S" "S < 86400" by (simp_all add: DS)
  have D: "0 \<le> D" "D < 50000" using d T(2,3) by simp_all
  have td: "sint (time div 86400) = D"
    using word_div_small [OF T(2,3), of 86400] D sint_small [of D] by (simp add: T(1) DS(1) fits_long_def)
  have tr: "time - word_of_int D * 86400 = word_of_int S" by (simp add: T(1) d(1))
  obtain y e where y: "rtc_year_of D = (word_of_int y, e)" "jan1 y + e = D" "0 \<le> e" "e < year_length y"
    "1970 \<le> y" "y \<le> 2107" using rtc_year_of_day [OF D] .
  obtain n f where n: "rtc_month_loop (word_of_int y) 0 e = Some (of_nat n, f)" "n < 12"
    "e = days_before y n + f" "0 \<le> f" "f < month_length y n"
    using rtc_month_loop_day [of y 0 e] y by (auto simp: days_before_def)
  obtain h mi c where cs: "S div 3600 = h" "S mod 3600 div 60 = mi" "S mod 3600 mod 60 = c"
    "0 \<le> h" "h < 24" "0 \<le> mi" "mi < 60" "0 \<le> c" "c < 60" "(h * 60 + mi) * 60 + c = S"
    using clock_split [OF d(2,3)] by metis
  have hour: "sint (word_of_int S div 3600 :: u32) = h"
    using word_div_small [of S 3600] d(2,3) cs(1,4,5) sint_small [of h] by (simp add: fits_long_def)
  have r1: "(word_of_int S :: u32) - word_of_int (h * 3600) = word_of_int (mi * 60 + c)"
    by (simp add: cs(10) [symmetric] algebra_simps)
  have "(mi * 60 + c) div 60 = mi" using cs(8,9) by simp
  then have minute: "sint (word_of_int (mi * 60 + c) div 60 :: u32) = mi"
    using word_div_small [of "mi * 60 + c" 60] cs(6-9) sint_small [of mi] by (simp add: fits_long_def)
  have sec: "sint (word_of_int (mi * 60 + c) - word_of_int (mi * 60) :: u32) = c"
    using cs(8,9) sint_small [of c] by (simp add: fits_long_def)
  have mon: "sint (of_nat n :: u32) = int n" using n(2) sint_small [of "int n"] by (simp add: fits_long_def)
  have yr: "sint (word_of_int y - 1900 :: u32) = y - 1900"
    using y(5,6) sint_small [of "y - 1900"] by (simp add: fits_long_def)
  obtain w where w: "w = (4 + D) mod 7" "(D + 4) smod 7 = w"
    using D c_division(2) [of "D + 4" 7] by (simp add: add.commute)
  let ?t = "\<lparr>tm_sec = c, tm_min = mi, tm_hour = h, tm_mday = f + 1, tm_mon = int n,
    tm_year = y - 1900, tm_wday = w, tm_yday = e + 1, tm_isdst = 0\<rparr>"
  have "rtc_time_to_tm time = Some ?t"
    unfolding rtc_time_to_tm_def Let_def td tr y(1) prod.case n(1) option.case hour r1 minute sec mon yr w(2) ..
  moreover have day: "civil_day ?t = D" using n y by (simp add: civil_day_def day_number_def)
  moreover have "civil_ok ?t" using n cs(4-9) by (simp add: civil_ok_def)
  moreover have "civil_seconds ?t = uint time"
    using cs(10) d(1) T uint_small [OF T(2,3)] by (simp add: civil_seconds_def day)
  ultimately show ?thesis using w y by (intro exI [of _ ?t]) simp
qed

text \<open>\<open>rtc_valid_tm\<close> accepts exactly the dates from 1970 on; the members are C ints.\<close>

definition members_fit :: "'a tm_scheme \<Rightarrow> bool" where
  "members_fit t \<longleftrightarrow> fits_long (tm_sec t) \<and> fits_long (tm_min t) \<and> fits_long (tm_hour t) \<and>
     fits_long (tm_mon t) \<and> tm_year t < 2 ^ 31 - 1900"

lemma rtc_valid_tm_spec:
  assumes "members_fit t"
  shows "rtc_valid_tm t = Some (if 70 \<le> tm_year t \<and> civil_ok t then Inr 0 else Inl EINVAL)"
proof (cases "70 \<le> tm_year t \<and> 0 \<le> tm_mon t \<and> tm_mon t < 12")
  case True
  then have "rtc_month_days (word_of_int (tm_mon t)) (word_of_int (tm_year t + 1900)) =
      Some (month_length (tm_year t + 1900) (nat (tm_mon t)))"
    using rtc_month_days_word [of "tm_year t + 1900" "nat (tm_mon t)"] assms
    by (simp add: members_fit_def nat_less_iff)
  then show ?thesis
    using True assms word_ge_small [of _ 12] word_ge_small [of _ 24] word_ge_small [of _ 60]
    by (auto simp: rtc_valid_tm_def members_fit_def civil_ok_def)
next
  case False
  then show ?thesis
    using assms word_ge_small [of "tm_mon t" 12] by (auto simp: rtc_valid_tm_def members_fit_def civil_ok_def)
qed


section \<open>A date to seconds: \<open>mktime\<close>\<close>

text \<open>The day count of \<open>mktime\<close>: with March as the first month, \<open>367 * mon / 12\<close> counts the days of the months.\<close>

lemma mktime_word:
  assumes "0 \<le> y" "y < 2 ^ 32"
  shows "(word_of_int y :: u32) div 4 - word_of_int y div 100 + word_of_int y div 400 =
    word_of_int (leap_days (y + 1))"
  using leaps_word [OF assms] by (simp add: LEAPS_THRU_END_OF_def)

lemma leap_days_1970: "leap_days 1970 = 477"
  by (simp add: leap_days_def)

lemma mktime_day:
  assumes "1 \<le> y" "y < 2 ^ 32" "m < 12"
  defines "mon \<equiv> (of_nat m :: u32) + 1 - 2"
  obtains Y M where
    "(if 0 \<ge> sint mon then (mon + 12, word_of_int y - 1) else (mon, word_of_int y)) = (M, word_of_int Y :: u32)"
    "0 \<le> Y" "Y < 2 ^ 32"
    "leap_days (Y + 1) + uint (367 * M div 12) + d + 365 * Y - 719499 = day_number y m d"
proof (cases "m < 2")
  case True
  then have "m = 0 \<or> m = 1" by auto
  then show thesis
    using that [of "mon + 12" "y - 1"] assms(1,2)
    by (auto simp: mon_def day_number_def jan1_def days_before_table raw_mon_yday_def leap_days_def)
next
  case False
  then have "m \<in> {2, 3, 4, 5, 6, 7, 8, 9, 10, 11}" using month_cases [OF assms(3)] by auto
  then show thesis
    using that [of mon y] assms(1,2) leap_days_step [of y] leap_days_1970
    by (cases "leap y") (auto simp: mon_def day_number_def jan1_def days_before_table raw_mon_yday_def)
qed

lemma mktime_spec:
  assumes "1 \<le> y" "y < 2 ^ 32" "m < 12"
  shows "mktime (word_of_int y) (of_nat m + 1) (word_of_int d) (word_of_int h) (word_of_int mi) (word_of_int c) =
    word_of_int (((day_number y m d * 24 + h) * 60 + mi) * 60 + c)"
proof -
  let ?mon = "(of_nat m :: u32) + 1 - 2"
  obtain Y M where Y: "(if 0 \<ge> sint ?mon then (?mon + 12, word_of_int y - 1) else (?mon, word_of_int y)) = (M, word_of_int Y :: u32)"
    "0 \<le> Y" "Y < 2 ^ 32" "leap_days (Y + 1) + uint (367 * M div 12) + d + 365 * Y - 719499 = day_number y m d"
    using mktime_day [OF assms, of d] .
  have "(word_of_int Y :: u32) div 4 - word_of_int Y div 100 + word_of_int Y div 400 + 367 * M div 12 +
      word_of_int d + word_of_int Y * 365 - 719499 =
      word_of_int (leap_days (Y + 1)) + word_of_int (uint (367 * M div 12)) + word_of_int d + word_of_int Y * 365 - 719499"
    by (simp only: mktime_word [OF Y(2,3)] word_of_int_uint)
  also have "\<dots> = word_of_int (day_number y m d)" by (simp add: Y(4) [symmetric] mult.commute del: word_of_int_uint)
  finally have "(word_of_int Y :: u32) div 4 - word_of_int Y div 100 + word_of_int Y div 400 + 367 * M div 12 +
      word_of_int d + word_of_int Y * 365 - 719499 = word_of_int (day_number y m d)" .
  then show ?thesis unfolding mktime_def Let_def Y(1) prod.case by simp
qed

lemma rtc_tm_to_time_spec:
  assumes "civil_ok t" "70 \<le> tm_year t" "tm_year t < 2 ^ 31 - 1900"
  shows "rtc_tm_to_time t = word_of_int (civil_seconds t)"
  using mktime_spec [of "tm_year t + 1900" "nat (tm_mon t)" "tm_mday t" "tm_hour t" "tm_min t" "tm_sec t"] assms
  by (simp add: rtc_tm_to_time_def civil_seconds_def civil_day_def civil_ok_def nat_less_iff)

section \<open>A date is determined by its seconds\<close>

lemma mixed_radix_unique:
  assumes "a * k + r = b * k + s" "0 \<le> r" "r < k" "0 \<le> s" "s < (k :: int)"
  shows "a = b \<and> r = s"
proof -
  have "(a * k + r) div k = a" "(b * k + s) div k = b" using assms(2-5) by simp_all
  then show ?thesis using assms(1) by auto
qed

lemma in_year:
  assumes "m < 12" "1 \<le> d" "d \<le> month_length y m"
  shows "0 \<le> days_before y m + d - 1" "days_before y m + d - 1 < year_length y"
  using assms days_before_mono [of 0 m y] days_before_mono [of "Suc m" 12 y] days_before_year [of y]
  by (simp_all add: days_before_Suc) (simp_all add: days_before_def)

lemma day_number_unique:
  assumes "day_number y m d = day_number z n e" "m < 12" "n < 12"
    "1 \<le> d" "d \<le> month_length y m" "1 \<le> e" "e \<le> month_length z n"
  shows "y = z \<and> m = n \<and> d = e"
proof -
  have y: "y = z \<and> days_before y m + d - 1 = days_before z n + e - 1"
    using assms in_year [of m d y] in_year [of n e z] by (intro jan1_unique) (simp_all add: day_number_def)
  moreover have "m = n \<and> d - 1 = e - 1"
    using y assms by (intro month_unique [of y]) auto
  ultimately show ?thesis by simp
qed

definition same_civil :: "'a tm_scheme \<Rightarrow> 'b tm_scheme \<Rightarrow> bool" where
  "same_civil s t \<longleftrightarrow> tm_sec s = tm_sec t \<and> tm_min s = tm_min t \<and> tm_hour s = tm_hour t \<and>
     tm_mday s = tm_mday t \<and> tm_mon s = tm_mon t \<and> tm_year s = tm_year t"

lemma civil_unique:
  assumes "civil_ok s" "civil_ok t" "civil_seconds s = civil_seconds t"
  shows "same_civil s t"
proof -
  have a: "(civil_day s * 24 + tm_hour s) * 60 + tm_min s = (civil_day t * 24 + tm_hour t) * 60 + tm_min t \<and> tm_sec s = tm_sec t"
    using assms by (intro mixed_radix_unique [where k = 60]) (simp_all add: civil_seconds_def civil_ok_def)
  then have b: "civil_day s * 24 + tm_hour s = civil_day t * 24 + tm_hour t \<and> tm_min s = tm_min t"
    using assms(1,2) by (intro mixed_radix_unique [where k = 60]) (simp_all add: civil_ok_def)
  then have "civil_day s = civil_day t \<and> tm_hour s = tm_hour t"
    using assms(1,2) by (intro mixed_radix_unique [where k = 24]) (simp_all add: civil_ok_def)
  then have "tm_year s + 1900 = tm_year t + 1900 \<and> nat (tm_mon s) = nat (tm_mon t) \<and> tm_mday s = tm_mday t"
    using assms(1,2) by (intro day_number_unique) (simp_all add: civil_ok_def civil_day_def nat_less_iff)
  then show ?thesis using a b assms(1,2) \<open>_ \<and> tm_hour s = tm_hour t\<close> by (auto simp: same_civil_def civil_ok_def)
qed


lemma civil_members_fit: "civil_ok t \<Longrightarrow> tm_year t \<le> 207 \<Longrightarrow> members_fit t"
  by (simp add: civil_ok_def members_fit_def fits_long_def)

lemma civil_seconds_nonneg:
  assumes "civil_ok t" "70 \<le> tm_year t"
  shows "0 \<le> civil_seconds t"
proof -
  have "jan1 1970 \<le> jan1 (tm_year t + 1900)"
    using leap_days_diff(1) [of 1970 "tm_year t + 1900"] assms(2) by (simp add: jan1_def)
  then have "0 \<le> civil_day t"
    using in_year(1) [of "nat (tm_mon t)" "tm_mday t" "tm_year t + 1900"] assms(1)
    by (simp add: civil_day_def day_number_def jan1_epoch civil_ok_def nat_less_iff)
  then show ?thesis using assms(1) by (simp add: civil_seconds_def civil_ok_def)
qed

text \<open>\<open>rtc_year_days\<close> counts from 0, as its comment says.\<close>

lemma rtc_year_days_spec:
  assumes "0 \<le> y" "y < 2 ^ 32" "m < 12" "1 \<le> d" "d \<le> month_length y m"
  shows "rtc_year_days (word_of_int d) (of_nat m) (word_of_int y) = Some (days_before y m + d - 1)"
proof -
  have m: "unat (of_nat m :: u32) = m" using assms(3) by (simp add: unat_of_nat)
  have "rtc_ydays (leap y) ! m = word_of_int (raw_mon_yday (leap y) ! m)"
    using month_cases [OF assms(3)] by (cases "leap y") (auto simp: rtc_ydays_def raw_mon_yday_def)
  moreover have "sint (word_of_int (days_before y m + d - 1) :: u32) = days_before y m + d - 1"
    using in_year [OF assms(3-5)] by (intro sint_small) (auto simp: fits_long_def year_length_def split: if_splits)
  moreover have "m < length (rtc_ydays (leap y))" using assms(3) by (simp add: rtc_ydays_def)
  ultimately show ?thesis
    using assms(3) days_before_table [of m y]
    by (simp add: rtc_year_days_def is_leap_year_word [OF assms(1,2)] m mem_get_def)
qed

section \<open>Properties\<close>

text \<open>
  C24.  The conversions of the real-time clock library are inverse to each other.  Every 32-bit number
  of seconds becomes a date that \<open>rtc_valid_tm\<close> accepts and that \<open>rtc_tm_to_time\<close> turns back into the same
  number; and every date that \<open>rtc_valid_tm\<close> accepts, and whose seconds fit 32 bits, comes back from its
  seconds with the same second, minute, hour, day, month and year.
\<close>

theorem rtc_time_roundtrip:
  "(\<exists>r. rtc_time_to_tm time = Some r \<and> rtc_valid_tm r = Some (Inr 0) \<and> rtc_tm_to_time r = time) \<and>
   (members_fit t \<and> rtc_valid_tm t = Some (Inr 0) \<and> civil_seconds t < 2 ^ 32 \<longrightarrow>
      (\<exists>r. rtc_time_to_tm (rtc_tm_to_time t) = Some r \<and> same_civil r t))"
proof
  obtain r where r: "rtc_time_to_tm time = Some r" "civil_ok r" "civil_seconds r = uint time" "70 \<le> tm_year r"
    "tm_year r \<le> 207" using rtc_time_to_tm_spec [of time] by blast
  then show "\<exists>r. rtc_time_to_tm time = Some r \<and> rtc_valid_tm r = Some (Inr 0) \<and> rtc_tm_to_time r = time"
    using rtc_valid_tm_spec [of r] rtc_tm_to_time_spec [of r] civil_members_fit [of r] by simp
next
  show "members_fit t \<and> rtc_valid_tm t = Some (Inr 0) \<and> civil_seconds t < 2 ^ 32 \<longrightarrow>
      (\<exists>r. rtc_time_to_tm (rtc_tm_to_time t) = Some r \<and> same_civil r t)"
  proof
    assume a: "members_fit t \<and> rtc_valid_tm t = Some (Inr 0) \<and> civil_seconds t < 2 ^ 32"
    then have ok: "70 \<le> tm_year t" "civil_ok t" using rtc_valid_tm_spec [of t] by (simp_all split: if_splits)
    then have "uint (rtc_tm_to_time t) = civil_seconds t"
      using a rtc_tm_to_time_spec [of t] civil_seconds_nonneg [of t] uint_small [of "civil_seconds t"]
      by (simp add: members_fit_def)
    then show "\<exists>r. rtc_time_to_tm (rtc_tm_to_time t) = Some r \<and> same_civil r t"
      using rtc_time_to_tm_spec [of "rtc_tm_to_time t"] civil_unique ok(2) by metis
  qed
qed

definition demo_date :: rtc_time where
  "demo_date = \<lparr>tm_sec = 59, tm_min = 59, tm_hour = 23, tm_mday = 29, tm_mon = 1, tm_year = 112,
     tm_wday = 0, tm_yday = 0, tm_isdst = 0\<rparr>"

theorem rtc_time_roundtrip_witness:
  "members_fit demo_date \<and> rtc_valid_tm demo_date = Some (Inr 0) \<and> civil_seconds demo_date < 2 ^ 32 \<and>
   (\<exists>r. rtc_time_to_tm (rtc_tm_to_time demo_date) = Some r \<and> same_civil r demo_date)"
proof -
  have "members_fit demo_date" "rtc_valid_tm demo_date = Some (Inr 0)" "civil_seconds demo_date < 2 ^ 32"
    by code_simp+
  with rtc_time_roundtrip [of 0 demo_date] show ?thesis by simp
qed

text \<open>
  C25.  \<open>time_to_tm\<close> returns, and its date is right: the search for the year ends for every number of days,
  before and after 1970, and the members are those of the Gregorian date, time, weekday and day of the
  year of \<open>totalsecs + offset\<close>; the only way to fail is that the offset overflows the remainder.  Where
  both can represent the time, it agrees with \<open>rtc_time_to_tm\<close> except that the day of the year counts
  from 0 here and from 1 there.
\<close>

theorem time_to_tm_correct:
  "(case time_to_tm totalsecs offset of
      None \<Rightarrow> \<not> fits_long (totalsecs smod 86400 + offset)
    | Some t \<Rightarrow> civil_ok t \<and> civil_seconds t = totalsecs + offset \<and> tm_wday t = (4 + civil_day t) mod 7 \<and>
        tm_yday t = civil_day t - jan1 (tm_year t + 1900)) \<and>
   (uint time < 2 ^ 31 \<longrightarrow>
      (\<exists>t r. time_to_tm (uint time) 0 = Some t \<and> rtc_time_to_tm time = Some r \<and> same_civil t r \<and>
         tm_wday r = tm_wday t \<and> tm_yday r = tm_yday t + 1))"
proof
  show "case time_to_tm totalsecs offset of
      None \<Rightarrow> \<not> fits_long (totalsecs smod 86400 + offset)
    | Some t \<Rightarrow> civil_ok t \<and> civil_seconds t = totalsecs + offset \<and> tm_wday t = (4 + civil_day t) mod 7 \<and>
        tm_yday t = civil_day t - jan1 (tm_year t + 1900)"
    using time_to_tm_spec [of totalsecs offset] time_to_tm_fault [of totalsecs offset]
    by (cases "fits_long (totalsecs smod 86400 + offset)") auto
  have "fits_long x" if "0 \<le> x" "x < 86400" for x using that by (simp add: fits_long_def)
  then have "fits_long (uint time smod 86400 + 0)" using c_division(2) [of "uint time" 86400] by simp
  from time_to_tm_spec [OF this] obtain t where t: "time_to_tm (uint time) 0 = Some t" "civil_ok t"
    "civil_seconds t = uint time" "tm_wday t = (4 + civil_day t) mod 7" "tm_yday t = civil_day t - jan1 (tm_year t + 1900)"
    by auto
  obtain r where r: "rtc_time_to_tm time = Some r" "civil_ok r" "civil_seconds r = uint time"
    "tm_wday r = (4 + civil_day r) mod 7" "tm_yday r = civil_day r - jan1 (tm_year r + 1900) + 1"
    using rtc_time_to_tm_spec [of time] by blast
  have "same_civil t r" using t r by (intro civil_unique) simp_all
  then show "uint time < 2 ^ 31 \<longrightarrow>
      (\<exists>t r. time_to_tm (uint time) 0 = Some t \<and> rtc_time_to_tm time = Some r \<and> same_civil t r \<and>
         tm_wday r = tm_wday t \<and> tm_yday r = tm_yday t + 1)"
    using t r by (auto simp: same_civil_def civil_day_def)
qed

theorem time_to_tm_correct_witness:
  "uint (1330559999 :: u32) < 2 ^ 31 \<and>
   (\<exists>t r. time_to_tm (uint (1330559999 :: u32)) 0 = Some t \<and> rtc_time_to_tm 1330559999 = Some r \<and>
      same_civil t r \<and> tm_wday r = tm_wday t \<and> tm_yday r = tm_yday t + 1)"
  using time_to_tm_correct [of 0 0 1330559999] by simp

end
