(* ===== verification/Timespec.thy ===== *)
theory Timespec
  imports Calendar_Props
begin

text \<open>
  Seconds with nanoseconds: \<open>struct timespec\<close> and its arithmetic (\<open>include/linux/time.h\<close>,
  \<open>kernel/time.c\<close>), with the divisions it uses (\<open>lib/div64.c\<close>, \<open>include/linux/math64.h\<close>).  The seconds are
  the 32 bits of a \<open>time_t\<close>, read as a signed number; the kernel is built so that signed arithmetic
  wraps, and \<open>timespec_add_safe\<close> relies on it.  Nanoseconds and 64-bit counts are integers.
\<close>

section \<open>The code\<close>

record timespec =
  tv_sec :: u32
  tv_nsec :: int

record timeval =
  tvl_sec :: u32
  tv_usec :: int

abbreviation NSEC_PER_SEC :: int where "NSEC_PER_SEC \<equiv> 1000000000"

definition TIME_T_MAX :: u32 where "TIME_T_MAX = push_bit 31 1 - 1"

text \<open>A sum of two \<open>long\<close>s.\<close>

definition long_sum :: "int \<Rightarrow> int \<Rightarrow> int" where
  "long_sum a b = sint (word_of_int (a + b) :: u32)"

function normalize_down :: "u32 \<Rightarrow> int \<Rightarrow> u32 \<times> int" where
  "normalize_down sec nsec =
     (if nsec \<ge> NSEC_PER_SEC then normalize_down (sec + 1) (nsec - NSEC_PER_SEC) else (sec, nsec))"
  by pat_completeness auto
termination by (relation "measure (\<lambda>(_, nsec). nat nsec)") auto

function normalize_up :: "u32 \<Rightarrow> int \<Rightarrow> u32 \<times> int" where
  "normalize_up sec nsec =
     (if nsec < 0 then normalize_up (sec - 1) (nsec + NSEC_PER_SEC) else (sec, nsec))"
  by pat_completeness auto
termination by (relation "measure (\<lambda>(_, nsec). nat (- nsec))") auto

declare normalize_down.simps [simp del] normalize_up.simps [simp del]

definition set_normalized_timespec :: "u32 \<Rightarrow> int \<Rightarrow> timespec" where
  "set_normalized_timespec sec nsec =
     (let (sec, nsec) = normalize_down sec nsec;
          (sec, nsec) = normalize_up sec nsec
      in \<lparr>tv_sec = sec, tv_nsec = nsec\<rparr>)"

definition div_s64_rem :: "int \<Rightarrow> int \<Rightarrow> int \<times> int" where
  "div_s64_rem dividend divisor =
     (if dividend < 0 then
        (let quotient = - dividend div \<bar>divisor\<bar>; remainder = - (- dividend mod \<bar>divisor\<bar>)
         in (if divisor > 0 then - quotient else quotient, remainder))
      else
        (let quotient = dividend div \<bar>divisor\<bar>; remainder = dividend mod \<bar>divisor\<bar>
         in (if divisor < 0 then - quotient else quotient, remainder)))"

definition ns_to_timespec :: "int \<Rightarrow> timespec" where
  "ns_to_timespec nsec =
     (if nsec = 0 then \<lparr>tv_sec = 0, tv_nsec = 0\<rparr>
      else let (q, rem) = div_s64_rem nsec NSEC_PER_SEC; sec = word_of_int q
           in if rem < 0 then \<lparr>tv_sec = sec - 1, tv_nsec = rem + NSEC_PER_SEC\<rparr>
              else \<lparr>tv_sec = sec, tv_nsec = rem\<rparr>)"

definition ns_to_timeval :: "int \<Rightarrow> timeval" where
  "ns_to_timeval nsec =
     (let ts = ns_to_timespec nsec in \<lparr>tvl_sec = tv_sec ts, tv_usec = tv_nsec ts sdiv 1000\<rparr>)"

definition timespec_to_ns :: "timespec \<Rightarrow> int" where
  "timespec_to_ns ts = sint (tv_sec ts) * NSEC_PER_SEC + tv_nsec ts"

definition timeval_to_ns :: "timeval \<Rightarrow> int" where
  "timeval_to_ns tv = sint (tvl_sec tv) * NSEC_PER_SEC + tv_usec tv * 1000"

definition timespec_equal :: "timespec \<Rightarrow> timespec \<Rightarrow> bool" where
  "timespec_equal a b \<longleftrightarrow> tv_sec a = tv_sec b \<and> tv_nsec a = tv_nsec b"

definition timespec_compare :: "timespec \<Rightarrow> timespec \<Rightarrow> int" where
  "timespec_compare lhs rhs =
     (if sint (tv_sec lhs) < sint (tv_sec rhs) then - 1
      else if sint (tv_sec lhs) > sint (tv_sec rhs) then 1
      else tv_nsec lhs - tv_nsec rhs)"

definition timespec_add :: "timespec \<Rightarrow> timespec \<Rightarrow> timespec" where
  "timespec_add lhs rhs =
     set_normalized_timespec (tv_sec lhs + tv_sec rhs) (long_sum (tv_nsec lhs) (tv_nsec rhs))"

definition timespec_sub :: "timespec \<Rightarrow> timespec \<Rightarrow> timespec" where
  "timespec_sub lhs rhs =
     set_normalized_timespec (tv_sec lhs - tv_sec rhs) (long_sum (tv_nsec lhs) (- tv_nsec rhs))"

definition timespec_valid :: "timespec \<Rightarrow> bool" where
  "timespec_valid ts \<longleftrightarrow> sint (tv_sec ts) \<ge> 0 \<and> (word_of_int (tv_nsec ts) :: u32) < 1000000000"

definition timespec_add_safe :: "timespec \<Rightarrow> timespec \<Rightarrow> timespec" where
  "timespec_add_safe lhs rhs =
     (let res = set_normalized_timespec (tv_sec lhs + tv_sec rhs) (long_sum (tv_nsec lhs) (tv_nsec rhs))
      in if sint (tv_sec res) < sint (tv_sec lhs) \<or> sint (tv_sec res) < sint (tv_sec rhs)
         then res\<lparr>tv_sec := TIME_T_MAX\<rparr> else res)"

text \<open>\<open>tick_usecs\<close> is \<open>jiffies_to_usecs (1)\<close>, which the configured clock rate fixes.\<close>

definition timespec_trunc :: "u32 \<Rightarrow> timespec \<Rightarrow> u32 \<Rightarrow> timespec" where
  "timespec_trunc tick_usecs t gran =
     (if gran \<le> tick_usecs * 1000 then t
      else if gran = 1000000000 then t\<lparr>tv_nsec := 0\<rparr>
      else t\<lparr>tv_nsec := sint (word_of_int (tv_nsec t) - word_of_int (tv_nsec t) mod gran :: u32)\<rparr>)"

text \<open>\<open>__iter_div_u64_rem\<close>: with the divisor 0 the loop does not end, which is the value None.\<close>

partial_function (option) iter_div_u64_rem :: "nat \<Rightarrow> nat \<Rightarrow> u32 \<Rightarrow> (u32 \<times> nat) option" where
  "iter_div_u64_rem dividend divisor ret =
     (if dividend \<ge> divisor then iter_div_u64_rem (dividend - divisor) divisor (ret + 1)
      else Some (ret, dividend))"

definition timespec_add_ns :: "timespec \<Rightarrow> u64 \<Rightarrow> timespec option" where
  "timespec_add_ns a ns =
     (case iter_div_u64_rem (unat (word_of_int (tv_nsec a) + ns)) 1000000000 0 of
        None \<Rightarrow> None
      | Some (secs, rem) \<Rightarrow> Some (a\<lparr>tv_sec := tv_sec a + secs, tv_nsec := int rem\<rparr>))"

section \<open>Normal form\<close>

lemma normalize_down_spec:
  "0 \<le> nsec \<Longrightarrow> normalize_down sec nsec = (sec + word_of_int (nsec div NSEC_PER_SEC), nsec mod NSEC_PER_SEC)"
proof (induction sec nsec rule: normalize_down.induct)
  case (1 sec nsec)
  show ?case
  proof (cases "nsec \<ge> NSEC_PER_SEC")
    case True
    define k where "k = nsec - NSEC_PER_SEC"
    have "nsec div NSEC_PER_SEC = k div NSEC_PER_SEC + 1" "nsec mod NSEC_PER_SEC = k mod NSEC_PER_SEC"
      using div_add_self1 [of NSEC_PER_SEC k] mod_add_self1 [of NSEC_PER_SEC k] by (simp_all add: k_def)
    then show ?thesis
      using True "1.IH" [OF True] by (simp add: normalize_down.simps [of sec nsec] k_def)
  next
    case False
    then show ?thesis using "1.prems" by (simp add: normalize_down.simps [of sec nsec])
  qed
qed

lemma normalize_up_spec:
  "nsec < NSEC_PER_SEC \<Longrightarrow>
   normalize_up sec nsec = (sec + word_of_int (nsec div NSEC_PER_SEC), nsec mod NSEC_PER_SEC)"
proof (induction sec nsec rule: normalize_up.induct)
  case (1 sec nsec)
  show ?case
  proof (cases "nsec < 0")
    case True
    define k where "k = nsec + NSEC_PER_SEC"
    have "k div NSEC_PER_SEC = nsec div NSEC_PER_SEC + 1" "nsec mod NSEC_PER_SEC = k mod NSEC_PER_SEC"
      using div_add_self2 [of NSEC_PER_SEC nsec] mod_add_self2 [of nsec NSEC_PER_SEC] by (simp_all add: k_def)
    then show ?thesis
      using True "1.IH" [OF True] by (simp add: normalize_up.simps [of sec nsec] k_def)
  next
    case False
    then show ?thesis using "1.prems" by (simp add: normalize_up.simps [of sec nsec])
  qed
qed

lemma set_normalized_spec:
  "set_normalized_timespec sec nsec =
     \<lparr>tv_sec = sec + word_of_int (nsec div NSEC_PER_SEC), tv_nsec = nsec mod NSEC_PER_SEC\<rparr>"
proof (cases "0 \<le> nsec")
  case True
  then show ?thesis
    using normalize_down_spec [OF True, of sec]
    by (simp add: set_normalized_timespec_def normalize_up.simps [of _ "nsec mod NSEC_PER_SEC"] not_less)
next
  case False
  then show ?thesis
    using normalize_up_spec [of nsec sec] by (simp add: set_normalized_timespec_def normalize_down.simps [of sec nsec])
qed


lemma ns_to_timespec_spec: "ns_to_timespec nsec = set_normalized_timespec 0 nsec"
proof (cases "nsec < 0")
  case True
  define q m where qm: "q = - nsec div NSEC_PER_SEC" "m = - nsec mod NSEC_PER_SEC"
  have m: "m = 0 \<or> 0 < m" using pos_mod_sign [of NSEC_PER_SEC "- nsec"] by (simp only: qm) linarith
  have "nsec div NSEC_PER_SEC = (if m = 0 then - q else - q - 1)" "nsec mod NSEC_PER_SEC = (if m = 0 then 0 else NSEC_PER_SEC - m)"
    using zdiv_zminus1_eq_if [of NSEC_PER_SEC "- nsec"] zmod_zminus1_eq_if [of "- nsec" NSEC_PER_SEC] by (simp_all add: qm)
  then show ?thesis
    unfolding ns_to_timespec_def set_normalized_spec div_s64_rem_def using True m
    by (auto simp: qm [symmetric] Let_def)
next
  case False
  then show ?thesis by (auto simp: ns_to_timespec_def set_normalized_spec div_s64_rem_def Let_def not_less)
qed

lemma iter_div_spec:
  assumes "0 < divisor"
  shows "iter_div_u64_rem n divisor ret = Some (ret + of_nat (n div divisor), n mod divisor)"
proof (induction n arbitrary: ret rule: less_induct)
  case (less n)
  show ?case
  proof (cases "divisor \<le> n")
    case True
    then have "iter_div_u64_rem (n - divisor) divisor (ret + 1) =
        Some (ret + 1 + of_nat ((n - divisor) div divisor), (n - divisor) mod divisor)"
      using assms by (intro less) simp
    then show ?thesis
      using True assms by (subst iter_div_u64_rem.simps) (simp add: le_div_geq le_mod_geq)
  qed (subst iter_div_u64_rem.simps, simp)
qed

lemma timespec_valid_members:
  assumes "timespec_valid t" "fits_long (tv_nsec t)"
  obtains A x where "t = \<lparr>tv_sec = word_of_int A, tv_nsec = x\<rparr>" "sint (tv_sec t) = A"
    "0 \<le> A" "A < 2 ^ 31" "0 \<le> x" "x < NSEC_PER_SEC"
proof (rule that [of "sint (tv_sec t)" "tv_nsec t"])
  have "\<not> (tv_nsec t < 0 \<or> NSEC_PER_SEC \<le> tv_nsec t)"
    using word_ge_small [OF assms(2), of NSEC_PER_SEC] assms(1) by (simp add: timespec_valid_def not_le [symmetric])
  then show "0 \<le> tv_nsec t" "tv_nsec t < NSEC_PER_SEC" by simp_all
  show "sint (tv_sec t) < 2 ^ 31" using sint_lt [of "tv_sec t"] by simp
qed (use assms(1) in \<open>simp_all add: timespec_valid_def\<close>)

lemma seconds_split:
  assumes "0 \<le> r" "r < NSEC_PER_SEC"
  shows "(S * NSEC_PER_SEC + r) div NSEC_PER_SEC = S" "(S * NSEC_PER_SEC + r) mod NSEC_PER_SEC = r"
    "S * NSEC_PER_SEC + r < 2 ^ 31 * NSEC_PER_SEC \<longleftrightarrow> S < 2 ^ 31"
  using assms by (auto simp: div_pos_pos_trivial)

lemma sint_wrapped:
  assumes "2 ^ 31 \<le> x" "x < 2 ^ 32"
  shows "sint (word_of_int x :: u32) < 0"
proof -
  have "(word_of_int x :: u32) = word_of_int (x - 2 ^ 32)"
    by (simp add: word_of_int_eq_iff take_bit_eq_mod mod_diff_right_eq [symmetric])
  moreover have "fits_long (x - 2 ^ 32)" using assms by (simp add: fits_long_def)
  ultimately have "sint (word_of_int x :: u32) = x - 2 ^ 32" using sint_small [of "x - 2 ^ 32"] by (simp only:)
  then show ?thesis using assms(2) by simp
qed

lemma add_safe_spec:
  assumes "timespec_valid a" "timespec_valid b" "fits_long (tv_nsec a)" "fits_long (tv_nsec b)"
    "s = timespec_to_ns a + timespec_to_ns b"
  shows "timespec_add_safe a b =
    (if s < 2 ^ 31 * NSEC_PER_SEC then ns_to_timespec s else \<lparr>tv_sec = TIME_T_MAX, tv_nsec = s mod NSEC_PER_SEC\<rparr>)"
proof -
  obtain A x where a: "a = \<lparr>tv_sec = word_of_int A, tv_nsec = x\<rparr>" "sint (tv_sec a) = A"
    "0 \<le> A" "A < 2 ^ 31" "0 \<le> x" "x < NSEC_PER_SEC" using timespec_valid_members [OF assms(1,3)] .
  obtain B y where b: "b = \<lparr>tv_sec = word_of_int B, tv_nsec = y\<rparr>" "sint (tv_sec b) = B"
    "0 \<le> B" "B < 2 ^ 31" "0 \<le> y" "y < NSEC_PER_SEC" using timespec_valid_members [OF assms(2,4)] .
  define c r where cr: "c = (x + y) div NSEC_PER_SEC" "r = (x + y) mod NSEC_PER_SEC"
  have r: "0 \<le> r" "r < NSEC_PER_SEC" "x + y = c * NSEC_PER_SEC + r" by (simp_all add: cr)
  have c: "0 \<le> c" "c \<le> 1" using r a(5,6) b(5,6) by linarith+
  have sum: "long_sum x y = x + y"
    unfolding long_sum_def using a(5,6) b(5,6) by (intro sint_small) (simp add: fits_long_def)
  define S where "S = A + B + c"
  have ns: "timespec_to_ns a = A * NSEC_PER_SEC + x" "timespec_to_ns b = B * NSEC_PER_SEC + y"
    using a(1,2) b(1,2) by (simp_all add: timespec_to_ns_def)
  have s: "s = S * NSEC_PER_SEC + r" using r(3) by (simp add: assms(5) ns S_def algebra_simps)
  have dm: "s div NSEC_PER_SEC = S" "s mod NSEC_PER_SEC = r" "s < 2 ^ 31 * NSEC_PER_SEC \<longleftrightarrow> S < 2 ^ 31"
    unfolding s by (rule seconds_split [OF r(1,2)])+
  have res: "set_normalized_timespec (tv_sec a + tv_sec b) (long_sum (tv_nsec a) (tv_nsec b)) =
      \<lparr>tv_sec = word_of_int S, tv_nsec = r\<rparr>"
    by (simp add: set_normalized_spec a(1) b(1) sum cr [symmetric] S_def)
  have n: "ns_to_timespec s = \<lparr>tv_sec = word_of_int S, tv_nsec = r\<rparr>"
    by (simp add: ns_to_timespec_spec set_normalized_spec dm)
  show ?thesis
  proof (cases "S < 2 ^ 31")
    case True
    then have "sint (word_of_int S :: u32) = S" using a(3) b(3) c by (intro sint_small) (simp add: fits_long_def S_def)
    then have "\<not> sint (word_of_int S :: u32) < A" "\<not> sint (word_of_int S :: u32) < B"
      using a(3) b(3) c by (simp_all add: S_def)
    then show ?thesis
      unfolding dm using True by (simp add: timespec_add_safe_def res Let_def a(2) b(2) n)
  next
    case False
    then have "sint (word_of_int S :: u32) < 0" using a(4) b(4) c by (intro sint_wrapped) (simp_all add: S_def)
    then show ?thesis
      unfolding dm using False a(3) by (simp add: timespec_add_safe_def res Let_def a(2))
  qed
qed

lemma sub_spec:
  assumes "timespec_valid a" "timespec_valid b" "fits_long (tv_nsec a)" "fits_long (tv_nsec b)"
  shows "timespec_sub a b = ns_to_timespec (timespec_to_ns a - timespec_to_ns b)"
    "timespec_to_ns (timespec_sub a b) = timespec_to_ns a - timespec_to_ns b"
    "sgn (timespec_compare a b) = sgn (timespec_to_ns a - timespec_to_ns b)"
proof -
  obtain A x where a: "a = \<lparr>tv_sec = word_of_int A, tv_nsec = x\<rparr>" "sint (tv_sec a) = A"
    "0 \<le> A" "A < 2 ^ 31" "0 \<le> x" "x < NSEC_PER_SEC" using timespec_valid_members [OF assms(1,3)] .
  obtain B y where b: "b = \<lparr>tv_sec = word_of_int B, tv_nsec = y\<rparr>" "sint (tv_sec b) = B"
    "0 \<le> B" "B < 2 ^ 31" "0 \<le> y" "y < NSEC_PER_SEC" using timespec_valid_members [OF assms(2,4)] .
  have ns: "timespec_to_ns a = A * NSEC_PER_SEC + x" "timespec_to_ns b = B * NSEC_PER_SEC + y"
    using a(1,2) b(1,2) by (simp_all add: timespec_to_ns_def)
  define c r where cr: "c = (x - y) div NSEC_PER_SEC" "r = (x - y) mod NSEC_PER_SEC"
  have r: "0 \<le> r" "r < NSEC_PER_SEC" "x - y = c * NSEC_PER_SEC + r" by (simp_all add: cr)
  have c: "- 1 \<le> c" "c \<le> 0" using r a(5,6) b(5,6) by linarith+
  have dif: "long_sum x (- y) = x - y"
    using sint_small [of "x - y"] a(5,6) b(5,6) by (simp add: long_sum_def fits_long_def)
  define S where "S = A - B + c"
  have s: "timespec_to_ns a - timespec_to_ns b = S * NSEC_PER_SEC + r" using r(3) by (simp add: ns S_def algebra_simps)
  have res: "timespec_sub a b = \<lparr>tv_sec = word_of_int S, tv_nsec = r\<rparr>"
    by (simp add: timespec_sub_def set_normalized_spec a(1) b(1) dif cr [symmetric] S_def)
  show "timespec_sub a b = ns_to_timespec (timespec_to_ns a - timespec_to_ns b)"
    by (simp only: ns_to_timespec_spec set_normalized_spec res s seconds_split(1,2) [OF r(1,2)] add_0)
  have "sint (word_of_int S :: u32) = S"
    using a(3,4) b(3,4) c by (intro sint_small) (simp add: fits_long_def S_def)
  then show "timespec_to_ns (timespec_sub a b) = timespec_to_ns a - timespec_to_ns b"
    unfolding s by (simp add: res timespec_to_ns_def)
  have "A < B \<Longrightarrow> A * NSEC_PER_SEC + x < B * NSEC_PER_SEC + y" "B < A \<Longrightarrow> B * NSEC_PER_SEC + y < A * NSEC_PER_SEC + x"
    using a(5,6) b(5,6) by linarith+
  then show "sgn (timespec_compare a b) = sgn (timespec_to_ns a - timespec_to_ns b)"
    unfolding timespec_compare_def a(2) b(2) ns using a(1) b(1) by (auto simp: sgn_if)
qed


lemma ns_roundtrip:
  assumes "timespec_valid a" "fits_long (tv_nsec a)"
  shows "ns_to_timespec (timespec_to_ns a) = a"
proof -
  obtain A x where a: "a = \<lparr>tv_sec = word_of_int A, tv_nsec = x\<rparr>" "sint (tv_sec a) = A" "0 \<le> x" "x < NSEC_PER_SEC"
    using timespec_valid_members [OF assms] by metis
  have "timespec_to_ns a = A * NSEC_PER_SEC + x" using a(1,2) by (simp add: timespec_to_ns_def)
  then show ?thesis
    by (simp only: ns_to_timespec_spec set_normalized_spec seconds_split(1,2) [OF a(3,4)] add_0 a(1))
qed

lemma add_ns_spec:
  assumes "timespec_valid a" "fits_long (tv_nsec a)" "unat ns < 2 ^ 64 - 2 ^ 30"
  shows "timespec_add_ns a ns = Some (set_normalized_timespec (tv_sec a) (tv_nsec a + int (unat ns)))"
proof -
  obtain A x where a: "a = \<lparr>tv_sec = word_of_int A, tv_nsec = x\<rparr>" "0 \<le> x" "x < NSEC_PER_SEC"
    using timespec_valid_members [OF assms(1,2)] by metis
  obtain k where k: "x = int k" "k < 1000000000"
    by (rule that [of "nat x"]) (use a(2,3) in \<open>simp_all add: nat_less_iff\<close>)
  define n where "n = unat ns"
  have ns: "ns = of_nat n" "n < 2 ^ 64 - 2 ^ 30" using assms(3) by (simp_all add: n_def)
  have u: "unat (word_of_int x + ns) = k + n"
    using k ns by (simp add: unat_of_nat take_bit_nat_eq_self flip: of_nat_add)
  have "int ((k + n) div 1000000000) = (x + int n) div NSEC_PER_SEC" "int ((k + n) mod 1000000000) = (x + int n) mod NSEC_PER_SEC"
    by (simp_all add: k(1) zdiv_int zmod_int)
  moreover have "(of_nat ((k + n) div 1000000000) :: u32) = word_of_int (int ((k + n) div 1000000000))" by simp
  ultimately show ?thesis
    unfolding timespec_add_ns_def n_def [symmetric]
    by (simp only: a(1) timespec.simps u iter_div_spec option.case prod.case set_normalized_spec add_0 zero_less_numeral)
qed

text \<open>\<open>timespec_trunc\<close> rounds down, by less than the granularity.\<close>

lemma timespec_trunc_rounds:
  assumes "timespec_valid t" "fits_long (tv_nsec t)" "t' = timespec_trunc tick t gran"
  shows "tv_sec t' = tv_sec t" "0 \<le> tv_nsec t'" "tv_nsec t' \<le> tv_nsec t" "tv_nsec t < tv_nsec t' + max 1 (uint gran)"
proof -
  obtain A x where t: "t = \<lparr>tv_sec = word_of_int A, tv_nsec = x\<rparr>" "0 \<le> x" "x < NSEC_PER_SEC"
    using timespec_valid_members [OF assms(1,2)] by metis
  define g where "g = uint gran"
  define r where "r = x mod g"
  have g: "0 \<le> g" "gran = word_of_int g" by (simp_all add: g_def)
  have m: "(word_of_int x :: u32) mod gran = word_of_int r"
    using t uint_small [of x] by (simp add: word_mod_def r_def g_def)
  have r: "0 \<le> x - r \<and> 0 \<le> r \<and> r < max 1 g" if "gran \<noteq> 0"
  proof -
    have "0 < g" using that g by (metis less_le word_of_int_0)
    then show ?thesis
      using t(2) pos_mod_bound [of g x] pos_mod_sign [of g x] zmod_le_nonneg_dividend [of x g] by (auto simp: r_def)
  qed
  have d: "sint (word_of_int x - word_of_int r :: u32) = x - r" if "gran \<noteq> 0"
    using r [OF that] t sint_small [of "x - r"] by (simp add: fits_long_def)
  have nz: "gran \<noteq> 0" if "\<not> gran \<le> tick * 1000" using that by auto
  have big: "g = NSEC_PER_SEC" if "gran = 1000000000" using that by (simp add: g_def)
  show "tv_sec t' = tv_sec t" "0 \<le> tv_nsec t'" "tv_nsec t' \<le> tv_nsec t" "tv_nsec t < tv_nsec t' + max 1 (uint gran)"
    unfolding assms(3) timespec_trunc_def t(1) timespec.simps m g_def [symmetric]
    using r d nz big t(2,3) by (auto split: if_split)
qed

section \<open>Property\<close>

text \<open>
  C8.  Arithmetic on valid times.  \<open>timespec_add_safe\<close> gives the sum in normal form while it fits the
  signed 32-bit seconds, and the largest number of seconds when it does not, although the test looks at
  a sum that has already wrapped; \<open>timespec_sub\<close> gives the difference in normal form; \<open>timespec_compare\<close>
  orders by it; converting to nanoseconds and back is the identity; and the subtraction loop of
  \<open>timespec_add_ns\<close> ends with the same normal form as \<open>set_normalized_timespec\<close>.
\<close>

theorem timespec_arith:
  assumes "timespec_valid a" "timespec_valid b" "fits_long (tv_nsec a)" "fits_long (tv_nsec b)"
    "s = timespec_to_ns a + timespec_to_ns b" "d = timespec_to_ns a - timespec_to_ns b"
    "unat ns < 2 ^ 64 - 2 ^ 30"
  shows "timespec_add_safe a b = (if s < 2 ^ 31 * NSEC_PER_SEC then ns_to_timespec s
      else \<lparr>tv_sec = TIME_T_MAX, tv_nsec = s mod NSEC_PER_SEC\<rparr>) \<and>
    timespec_sub a b = ns_to_timespec d \<and> timespec_to_ns (timespec_sub a b) = d \<and>
    sgn (timespec_compare a b) = sgn d \<and> ns_to_timespec (timespec_to_ns a) = a \<and>
    timespec_add_ns a ns = Some (set_normalized_timespec (tv_sec a) (tv_nsec a + int (unat ns)))"
  using add_safe_spec [OF assms(1-5)] sub_spec [OF assms(1-4)] ns_roundtrip [OF assms(1,3)]
    add_ns_spec [OF assms(1,3,7)] assms(6) by simp

theorem timespec_arith_witness:
  "timespec_add_safe \<lparr>tv_sec = 0x7fffffff, tv_nsec = 999999999\<rparr> \<lparr>tv_sec = 0, tv_nsec = 1\<rparr> =
     \<lparr>tv_sec = TIME_T_MAX, tv_nsec = 0\<rparr>"
  using timespec_arith [of "\<lparr>tv_sec = 0x7fffffff, tv_nsec = 999999999\<rparr>" "\<lparr>tv_sec = 0, tv_nsec = 1\<rparr>" _ _ 0, OF _ _ _ _ refl refl]
  by (simp add: timespec_valid_def fits_long_def timespec_to_ns_def)

end
