(* ===== verification/Spec2Isabelle.thy ===== *)
theory Spec2Isabelle
  imports Kernel_Prelude Kfifo Bpf_Sock Klist Ale_Dump Memblock_Props Extable Timespec
begin

text \<open>
  A verification development for the Linux 3.2.0 kernel of the AM335x, a 32-bit ARM processor with
  an Ethernet switch.  All paths are relative to \<^verbatim>\<open>src/linux-3.2.0\<close>.  The development models eight
  groups of code that carry data structures, parsers, checkers, printers and table algorithms,
  each as functions over explicit state, and proves what they promise.

  \<^bold>\<open>Conventions.\<close>  Machine integers are words of their width wherever they can wrap (\<open>u8\<close> to \<open>u64\<close>);
  counters that provably stay small are \<open>nat\<close> or \<open>int\<close>.  An object in memory is the list of its
  bytes; the result \<open>None\<close> of an operation is an access outside an object, another undefined
  operation of C, or a loop that does not end, and never an error the code reports.  Errors the code
  reports are values of \<open>errno\<close> in a sum type (\<open>Inl\<close>), without the minus sign.  A C function whose
  name starts with underscores has the prefix \<open>raw_\<close> instead.  Code outside the sources, such as the
  allocator's answer, the copy from user space or the switch's registers, is an argument of the
  definitions that use it; what is assumed of it is a locale or a named predicate.  Locks, memory
  barriers and reference counts are left out: each operation runs alone, as its lock makes it do.

  \<^bold>\<open>Shared theories.\<close>  \<open>Kernel_Prelude\<close>: types, errors, checked memory access, and the collections
  \<open>mem_simps\<close> and \<open>word_nat_simps\<close>.  \<open>Fifo_Interface\<close>: the locales \<open>fifo\<close>, with order of delivery over
  any sequence of operations, and \<open>fifo_progress\<close>, which adds delivery itself.

  \<^bold>\<open>Kernel FIFO.\<close>  \<open>Kfifo\<close> models \<^verbatim>\<open>kernel/kfifo.c\<close>: the record \<open>kfifo\<close> is \<open>struct __kfifo\<close> with free-running
  32-bit indices, and each \<open>__kfifo_...\<close> function for bytes, records and user space is a definition.
  \<open>kfifo_inv\<close> is its invariant, \<open>kfifo_bytes\<close> and \<open>kfifo_records\<close> what it holds.  Both kinds of FIFO
  interpret \<open>fifo\<close> and \<open>fifo_progress\<close>.  Shown: order (C1, C3), exact acceptance (C2), set-up (C4),
  partial copies from user space (C5), delivery (C10).

  \<^bold>\<open>Packet filter.\<close>  \<open>Skb\<close> models the reads of a socket buffer with page fragments and fragment lists
  (\<^verbatim>\<open>net/core/skbuff.c\<close>) and the attribute search \<open>nla_find\<close> (\<^verbatim>\<open>lib/nlattr.c\<close>), \<open>Skb_Trim\<close> cutting a
  buffer with \<open>pskb_trim\<close>, where the answers of the allocator are arguments; \<open>Bpf_Insn\<close>, \<open>Bpf\<close> and
  \<open>Bpf_Run\<close> the instructions and the interpreter \<open>sk_run_filter\<close>, \<open>Bpf_Check\<close> the checker
  \<open>sk_chk_filter\<close> (\<^verbatim>\<open>net/core/filter.c\<close>), \<open>Recip\<close> the division by a reciprocal
  (\<^verbatim>\<open>lib/reciprocal_div.c\<close>), \<open>Bpf_Sock\<close> attaching and detaching with the socket's memory account and
  \<open>sk_filter\<close>, which runs the filter on a packet and trims it to the verdict.  The
  interpreter's program counter only grows, so it needs no fuel.  Shown: reads equal those of the
  flattened packet (C6), the checker is total and accepted filters are safe up to one kind of attribute
  search (C7), the error of the reciprocal (C9), that search does read outside (C11), the invariant of
  the account over all histories and the outcome of \<open>sk_filter\<close> (C12), attaching is all or nothing (C13).

  \<^bold>\<open>Linked lists.\<close>  \<open>Klist\<close> models \<^verbatim>\<open>include/linux/list.h\<close> on a store of links, a pair of functions from
  addresses to addresses.  \<open>dlist\<close> relates the store to a sequence.  Shown: every sequence of calls
  refines operations on sequences (C14), splicing and cutting are inverse (C15).

  \<^bold>\<open>Address lookup engine.\<close>  \<open>Ale_Entry\<close> models the bit fields of a table entry, \<open>Cpsw_Ale\<close> the driver's
  operations, \<open>Ale_Control\<close> its control registers, \<open>Ale_Sysfs\<close> and \<open>Ale_Dump\<close> its two sysfs files, all of
  \<^verbatim>\<open>drivers/net/ethernet/ti/cpsw_ale.c\<close>, and \<open>fill_read_buffer\<close> of \<^verbatim>\<open>fs/sysfs/file.c\<close>.  The device is a
  pair of register functions; the locales \<open>ale_device\<close> and \<open>ale_ctrl\<close> state the laws of its table and
  control registers, and are interpreted on a simulated device that latches and stores as the manual
  says.  \<open>Ale_Table\<close> shows that the operations act on the table as a function of the index, \<open>Ale_Map\<close> on
  the map from keys to entries.  Shown: fields (C16), refinement of the map (C17), no duplicate keys
  from a clear table on (C18), static entries stay (C19), flushing (C20), controls (C21, C22), the
  control file (C37), the table file (C31).

  \<^bold>\<open>Boot memory.\<close>  \<open>Memblock\<close> models \<^verbatim>\<open>mm/memblock.c\<close>: two tables of regions with 32-bit addresses.
  \<open>Memblock_Cover\<close> relates a table to the set of addresses it covers, \<open>Memblock_Find\<close> treats bisection and
  the search for space.  Growing an array reserves memory in the table that is growing; that mutual
  recursion has a depth argument of 4 (\<open>add_region_nest\<close>), and the properties hold where the array has
  room or resizing is off, so the depth is not reached.  Shown: the operations are union and difference,
  and bisection decides membership (C23), allocation is safe and highest (C26), adding is atomic (C27),
  the limit keeps the first bytes and when it returns (C28), a removal that goes wrong (C29).

  \<^bold>\<open>Numbers and formatted text.\<close>  \<open>Knum\<close> models the parsers of \<^verbatim>\<open>lib/kstrtox.c\<close> and the printer \<open>number\<close> of
  \<^verbatim>\<open>lib/vsprintf.c\<close>, \<open>Knum_Dec\<close> proves its digit generators, \<open>Vsprintf\<close> models the format decoder, the
  conversions, the address formats and \<open>vsnprintf\<close>, \<open>Vsprintf_Props\<close> relates it to the text a format
  denotes, \<open>Format_Pieces\<close> computes that text for the formats of the drivers.  Shown: reading (C30),
  narrower types (C32), layout (C33), printing and reading back (C34), \<open>vsnprintf\<close> (C35), addresses (C36),
  the decoder's state (C40).

  \<^bold>\<open>Sorting and exception tables.\<close>  \<open>Ksort\<close> models \<^verbatim>\<open>lib/sort.c\<close> and \<^verbatim>\<open>lib/bsearch.c\<close> with the comparison as
  the locale \<open>comparison\<close>, \<open>Extable\<close> the exception tables of the kernel and of modules
  (\<^verbatim>\<open>lib/extable.c\<close>, \<^verbatim>\<open>kernel/extable.c\<close>, \<^verbatim>\<open>kernel/module.c\<close>, \<^verbatim>\<open>arch/arm/mm/extable.c\<close>), which interpret it.
  Shown: the table is sorted and the search exact (C38), a fault is fixed up from its entry (C39).

  \<^bold>\<open>Time.\<close>  \<open>Calendar\<close> models \<^verbatim>\<open>drivers/rtc/rtc-lib.c\<close>, \<^verbatim>\<open>kernel/time/timeconv.c\<close> and \<open>mktime\<close> of
  \<^verbatim>\<open>kernel/time.c\<close>, with the Gregorian calendar as reference; its year search is a recursive function
  with a termination proof.  \<open>Calendar_Props\<close> proves the conversions, \<open>Timespec\<close> models the arithmetic of
  \<open>struct timespec\<close>.  Shown: round trips (C24), dates before and after 1970 (C25), sums, saturation and
  differences (C8).

  \<^bold>\<open>How the parts meet.\<close>  The checker \<open>sk_chk_filter\<close> replaces a divisor by its reciprocal and the
  interpreter multiplies by it; both run on socket buffers.  The sysfs files print with \<open>snprintf\<close> and
  read with \<open>simple_strtoul\<close>, on the driver's operations.  The exception tables are sorted by \<open>sort\<close>.

  \<^bold>\<open>Not modelled.\<close>  Code whose meaning is that of the processor or of a device (assembly, page tables,
  drivers other than the one above); the scheduler, timers, the page and slab allocators, file systems,
  the block layer and the protocol stacks, which need a semantics of concurrency and interrupts; other
  architectures, cryptography, security modules, sound and virtualisation, which the parts above do not
  use.  Within the parts above: the scatter lists of the FIFO, the compiler of the packet filter (none exists
  for ARM here), the reference counts and the allocation of socket buffers, \<open>vsscanf\<close>, the binary printf, the formats for symbols and resources, the
  conversions of jiffies, whose constants the build generates, and everything that only logs.
\<close>

end
